(* ===== verification/Prelude.thy ===== *)
theory Prelude
  imports Main "HOL-Library.Word" "HOL-Library.Monad_Syntax" "HOL-Library.Multiset"
begin

text \<open>
  The vocabulary every component theory shares.

  The kernel's fallible code is modelled in the option monad: \<^term>\<open>None\<close> is the kernel
  stopping, that is a failed \<^verbatim>\<open>ASSERT\<close>, a \<^verbatim>\<open>PANIC\<close>, a
  \<^verbatim>\<open>NOT_REACHED\<close>, or an access through a null pointer; a null pointer or a
  false that a function \<^emph>\<open>returns\<close> is part of its ordinary result. State is passed
  explicitly. The loops that C bounds by data only are \<^theory_text>\<open>partial_function (option)\<close>, so
  that a loop that never ends is also \<^term>\<open>None\<close> and every correctness theorem that
  concludes \<^term>\<open>f x = Some y\<close> includes termination.
\<close>

unbundle bit_operations_syntax

section \<open>Machine types\<close>

type_synonym byte = "8 word"
type_synonym u16 = "16 word"
type_synonym u32 = "32 word"
type_synonym u64 = "64 word"

text \<open>Addresses of kernel objects; 0 is the null pointer.\<close>

type_synonym ptr = nat

abbreviation NULL :: ptr where
  "NULL \<equiv> 0"

text \<open>
  \<^verbatim>\<open>size_t\<close> and the other unsigned 32-bit counters are natural numbers below \<open>2 ^ 32\<close>;
  their sums, products and differences wrap around.
\<close>

definition size_add :: "nat \<Rightarrow> nat \<Rightarrow> nat" where
  "size_add a b = (a + b) mod 2 ^ 32"

definition size_mul :: "nat \<Rightarrow> nat \<Rightarrow> nat" where
  "size_mul a b = (a * b) mod 2 ^ 32"

definition size_sub :: "nat \<Rightarrow> nat \<Rightarrow> nat" where
  "size_sub a b = (a + 2 ^ 32 - b) mod 2 ^ 32"

text \<open>The macros of \<^verbatim>\<open>lib/round.h\<close>.\<close>

definition DIV_ROUND_UP :: "nat \<Rightarrow> nat \<Rightarrow> nat" where
  "DIV_ROUND_UP x step = size_sub (size_add x step) 1 div step"

definition ROUND_UP :: "nat \<Rightarrow> nat \<Rightarrow> nat" where
  "ROUND_UP x step = size_mul (DIV_ROUND_UP x step) step"

definition ROUND_DOWN :: "nat \<Rightarrow> nat \<Rightarrow> nat" where
  "ROUND_DOWN x step = size_mul (x div step) step"

lemma size_add_small [simp]: "a + b < 2 ^ 32 \<Longrightarrow> size_add a b = a + b"
  by (simp add: size_add_def)

lemma size_mul_small [simp]: "a * b < 2 ^ 32 \<Longrightarrow> size_mul a b = a * b"
  by (simp add: size_mul_def)

lemma mod_sub_small:
  fixes m :: nat
  assumes "b \<le> a" "a < m"
  shows "(a + m - b) mod m = a - b"
proof -
  have "a + m - b = (a - b) + m" using assms(1) by linarith
  then have "(a + m - b) mod m = ((a - b) + m) mod m" by (rule arg_cong)
  also have "\<dots> = a - b" using assms(2) by simp
  finally show ?thesis .
qed

lemma size_sub_small [simp]: "b \<le> a \<Longrightarrow> a < 2 ^ 32 \<Longrightarrow> size_sub a b = a - b"
  unfolding size_sub_def by (rule mod_sub_small)

lemma size_add_bound [simp]: "size_add a b < 2 ^ 32" "size_mul a b < 2 ^ 32" "size_sub a b < 2 ^ 32"
  by (simp_all add: size_add_def size_mul_def size_sub_def)

lemma DIV_ROUND_UP_small:
  assumes "0 < step" "x + step < 2 ^ 32"
  shows "DIV_ROUND_UP x step = (x + step - 1) div step"
  using assms by (simp add: DIV_ROUND_UP_def)

section \<open>Failure\<close>

named_theorems kmonad \<open>rewrite rules that run the failure monad\<close>

text \<open>\<^verbatim>\<open>ASSERT (b)\<close>: the kernel panics unless the condition holds.\<close>

definition kassert :: "bool \<Rightarrow> unit option" where
  "kassert b = (if b then Some () else None)"

lemma kassert_simps [simp, kmonad]:
  "kassert True = Some ()" "kassert False = None"
  by (simp_all add: kassert_def)

lemma kassert_bind [simp, kmonad]: "Option.bind (kassert b) f = (if b then f () else None)"
  by (simp add: kassert_def)

lemma kassert_eq_Some [simp]: "kassert b = Some u \<longleftrightarrow> b"
  by (simp add: kassert_def)

lemma kassert_eq_None [simp]: "kassert b = None \<longleftrightarrow> \<not> b"
  by (simp add: kassert_def)

lemmas bind_SomeE = bind_eq_Some_conv [THEN iffD1, elim_format]

section \<open>Step functions and simulation\<close>

text \<open>
  A component with several operations is presented to its clients as a step function that takes
  the current state and an operation to a result and the next state. \<open>run_steps\<close> runs a sequence
  of operations, and stops the kernel when one of them does. The locale is the contract between
  an implementation and its specification: whenever the specification allows an operation, the
  implementation performs it, with the same result, into a related state. It then follows for
  every sequence of operations.
\<close>

fun run_steps :: "('s \<Rightarrow> 'o \<Rightarrow> ('r \<times> 's) option) \<Rightarrow> 's \<Rightarrow> 'o list \<Rightarrow> ('r list \<times> 's) option" where
  "run_steps f s [] = Some ([], s)"
| "run_steps f s (x # xs) = do {
     (r, s) \<leftarrow> f s x;
     (rs, s) \<leftarrow> run_steps f s xs;
     Some (r # rs, s)
   }"

locale simulation =
  fixes R :: "'c \<Rightarrow> 'a \<Rightarrow> bool"
    and cstep :: "'c \<Rightarrow> 'o \<Rightarrow> ('r \<times> 'c) option"
    and astep :: "'a \<Rightarrow> 'o \<Rightarrow> ('r \<times> 'a) option"
  assumes sim: "R c a \<Longrightarrow> astep a x = Some (r, a') \<Longrightarrow> \<exists>c'. cstep c x = Some (r, c') \<and> R c' a'"
begin

lemma run_sim:
  "R c a \<Longrightarrow> run_steps astep a xs = Some (rs, a') \<Longrightarrow>
   \<exists>c'. run_steps cstep c xs = Some (rs, c') \<and> R c' a'"
proof (induction xs arbitrary: c a rs)
  case Nil
  then show ?case by simp
next
  case (Cons x xs)
  from Cons.prems(2) obtain r a1 rs1 where
    a1: "astep a x = Some (r, a1)" and rest: "run_steps astep a1 xs = Some (rs1, a')" "rs = r # rs1"
    by (auto split: Option.bind_splits)
  from sim [OF Cons.prems(1) a1] obtain c1 where c1: "cstep c x = Some (r, c1)" "R c1 a1" by blast
  from Cons.IH [OF c1(2) rest(1)] show ?case using c1(1) rest(2) by auto
qed

end

end
