(* ===== verification/List_Refine.thy ===== *)
theory List_Refine
  imports Kernel_List
begin

text \<open>
  What the operations of \<^verbatim>\<open>lib/kernel/list.c\<close> do, in terms of HOL lists. A list
  object \<open>l\<close> represents the list \<open>xs\<close> in a heap when its header elements and \<open>xs\<close> are one
  doubly linked chain of distinct elements (\<open>dll h l xs\<close>). Every operation is shown to return
  (no assertion fails, every loop ends), to turn \<open>xs\<close> into the expected list, and to write no
  link outside the list it works on. The element operations together refine a double-ended
  queue.
\<close>

section \<open>The abstraction\<close>

text \<open>\<open>linked\<close>: consecutive elements point at each other.\<close>

fun linked :: "(ptr \<Rightarrow> ptr) \<Rightarrow> (ptr \<Rightarrow> ptr) \<Rightarrow> ptr list \<Rightarrow> bool" where
  "linked nx pv (x # y # zs) \<longleftrightarrow> nx x = y \<and> pv y = x \<and> linked nx pv (y # zs)"
| "linked nx pv xs \<longleftrightarrow> True"

text \<open>\<open>chain h F\<close>: \<open>F\<close> is a complete list in \<open>h\<close>, its two header elements included. \<open>dll h l xs\<close>: the list object \<open>l\<close> holds \<open>xs\<close>.\<close>

definition chain :: "list_heap \<Rightarrow> ptr list \<Rightarrow> bool" where
  "chain h F \<longleftrightarrow> F \<noteq> [] \<and> distinct F \<and> NULL \<notin> set F \<and> linked (next_of h) (prev_of h) F
     \<and> prev_of h (hd F) = NULL \<and> next_of h (last F) = NULL"

definition dll :: "list_heap \<Rightarrow> klist \<Rightarrow> ptr list \<Rightarrow> bool" where
  "dll h l xs \<longleftrightarrow> chain h (l_head l # xs @ [l_tail l])"

text \<open>The elements a list object owns, and the frame condition: \<open>h\<close> and \<open>h'\<close> agree outside \<open>S\<close>.\<close>

abbreviation cells :: "klist \<Rightarrow> ptr list \<Rightarrow> ptr set" where
  "cells l xs \<equiv> set (l_head l # xs @ [l_tail l])"

definition agree_off :: "ptr set \<Rightarrow> list_heap \<Rightarrow> list_heap \<Rightarrow> bool" where
  "agree_off S h h' \<longleftrightarrow> (\<forall>x. x \<notin> S \<longrightarrow> next_of h' x = next_of h x \<and> prev_of h' x = prev_of h x)"

text \<open>What \<^verbatim>\<open>list_less_func\<close> has to be for sorting to make sense: a strict weak order. Elements neither of which is less are equivalent.\<close>

definition strict_weak :: "('a \<Rightarrow> 'a \<Rightarrow> bool) \<Rightarrow> bool" where
  "strict_weak lt \<longleftrightarrow> (\<forall>x y. lt x y \<longrightarrow> \<not> lt y x) \<and> (\<forall>x y z. \<not> lt x y \<longrightarrow> \<not> lt y z \<longrightarrow> \<not> lt x z)"

definition eqv :: "('a \<Rightarrow> 'a \<Rightarrow> bool) \<Rightarrow> 'a \<Rightarrow> 'a \<Rightarrow> bool" where
  "eqv lt x y \<longleftrightarrow> \<not> lt x y \<and> \<not> lt y x"

abbreviation ksorted :: "less_func \<Rightarrow> ptr list \<Rightarrow> bool" where
  "ksorted lt \<equiv> sorted_wrt (\<lambda>x y. \<not> lt y x)"

text \<open>The list functions that \<^verbatim>\<open>list_insert_ordered\<close> and \<^verbatim>\<open>list_unique\<close> compute.\<close>

definition insort_after :: "less_func \<Rightarrow> ptr \<Rightarrow> ptr list \<Rightarrow> ptr list" where
  "insort_after lt e xs = takeWhile (\<lambda>y. \<not> lt e y) xs @ e # dropWhile (\<lambda>y. \<not> lt e y) xs"

fun kunique :: "less_func \<Rightarrow> ptr \<Rightarrow> ptr list \<Rightarrow> ptr list \<times> ptr list" where
  "kunique lt x [] = ([x], [])"
| "kunique lt x (y # ys) =
     (if \<not> lt x y \<and> \<not> lt y x then (let (k, d) = kunique lt x ys in (k, y # d))
      else (let (k, d) = kunique lt y ys in (x # k, d)))"

text \<open>The operations on one list object as a step function on the heap, and the same operations on HOL lists: the specification of the list as a double-ended queue of distinct elements.\<close>

datatype 'a deque_op = PushFront 'a | PushBack 'a | PopFront | PopBack | Remove 'a | Front | Back | Size

fun klist_step :: "klist \<Rightarrow> list_heap \<Rightarrow> ptr deque_op \<Rightarrow> (nat \<times> list_heap) option" where
  "klist_step l h (PushFront e) = do { h \<leftarrow> list_push_front h l e; Some (0, h) }"
| "klist_step l h (PushBack e) = do { h \<leftarrow> list_push_back h l e; Some (0, h) }"
| "klist_step l h PopFront = list_pop_front h l"
| "klist_step l h PopBack = list_pop_back h l"
| "klist_step l h (Remove e) = list_remove h e"
| "klist_step l h Front = do { e \<leftarrow> list_front h l; Some (e, h) }"
| "klist_step l h Back = do { e \<leftarrow> list_back h l; Some (e, h) }"
| "klist_step l h Size = do { n \<leftarrow> list_size h l; Some (n, h) }"

fun deque_step :: "klist \<Rightarrow> ptr list \<Rightarrow> ptr deque_op \<Rightarrow> (nat \<times> ptr list) option" where
  "deque_step l xs (PushFront e) =
     (if e = NULL \<or> e \<in> cells l xs then None else Some (0, e # xs))"
| "deque_step l xs (PushBack e) =
     (if e = NULL \<or> e \<in> cells l xs then None else Some (0, xs @ [e]))"
| "deque_step l xs PopFront = (if xs = [] then None else Some (hd xs, tl xs))"
| "deque_step l xs PopBack = (if xs = [] then None else Some (last xs, butlast xs))"
| "deque_step l xs (Remove e) =
     (if e \<in> set xs then Some (hd (tl (dropWhile (\<lambda>x. x \<noteq> e) xs) @ [l_tail l]), remove1 e xs) else None)"
| "deque_step l xs Front = (if xs = [] then None else Some (hd xs, xs))"
| "deque_step l xs Back = (if xs = [] then None else Some (last xs, xs))"
| "deque_step l xs Size = Some (length xs, xs)"

section \<open>Lemmas\<close>

lemmas field_defs = rd_prev_def rd_next_def wr_prev_def wr_next_def

lemma linked_append:
  "linked nx pv (xs @ y # zs) \<longleftrightarrow> linked nx pv (xs @ [y]) \<and> linked nx pv (y # zs)"
proof (induction xs)
  case Nil then show ?case by simp
next
  case (Cons x xs) then show ?case by (cases xs) auto
qed

lemma linked_append2 [simp]:
  "linked nx pv (xs @ y # z # zs) \<longleftrightarrow>
     linked nx pv (xs @ [y]) \<and> nx y = z \<and> pv z = y \<and> linked nx pv (z # zs)"
  by (subst linked_append) simp

lemma linked_next_upd [simp]:
  "a \<notin> set (butlast xs) \<Longrightarrow> linked (nx(a := v)) pv xs = linked nx pv xs"
  by (induction nx pv xs rule: linked.induct) auto

lemma linked_prev_upd [simp]:
  "a \<notin> set (tl xs) \<Longrightarrow> linked nx (pv(a := v)) xs = linked nx pv xs"
  by (induction nx pv xs rule: linked.induct) auto

lemma not_in_butlast [simp]: "a \<notin> set xs \<Longrightarrow> a \<notin> set (butlast xs)"
  by (auto dest: in_set_butlastD)

lemma not_in_tl [simp]: "a \<notin> set xs \<Longrightarrow> a \<notin> set (tl xs)"
  by (cases xs) auto

lemma hd_append_Cons: "hd (P @ p # R) = (if P = [] then p else hd P)"
  by (cases P) auto

lemma hd_not_in [simp]: "x \<notin> set xs \<Longrightarrow> xs \<noteq> [] \<Longrightarrow> hd xs \<noteq> x" "x \<notin> set xs \<Longrightarrow> xs \<noteq> [] \<Longrightarrow> x \<noteq> hd xs"
  by auto

lemma last_not_in [simp]: "x \<notin> set xs \<Longrightarrow> xs \<noteq> [] \<Longrightarrow> last xs \<noteq> x" "x \<notin> set xs \<Longrightarrow> xs \<noteq> [] \<Longrightarrow> x \<noteq> last xs"
  by auto

lemma chain_next: "chain h (P @ a # b # Q) \<Longrightarrow> next_of h a = b"
  and chain_prev: "chain h (P @ a # b # Q) \<Longrightarrow> prev_of h b = a"
  by (simp_all add: chain_def)

lemma chain_notNULL: "chain h F \<Longrightarrow> x \<in> set F \<Longrightarrow> x \<noteq> NULL"
  by (metis chain_def)

lemma chain_list_next: "chain h (P @ a # b # Q) \<Longrightarrow> list_next h a = Some b"
  by (cases P rule: rev_cases)
    (auto simp: list_next_def is_head_def is_interior_def field_defs chain_def)

lemma chain_list_prev: "chain h (P @ a # b # Q) \<Longrightarrow> list_prev h b = Some a"
  by (cases Q) (auto simp: list_prev_def is_tail_def is_interior_def field_defs chain_def)

lemma chain_is_interior: "chain h (P @ p # e # n # Q) \<Longrightarrow> is_interior h e"
  by (auto simp: is_interior_def chain_def)

lemma chain_insertable: "chain h (P @ p # b # Q) \<Longrightarrow> is_interior h b \<or> is_tail h b"
  by (cases Q) (auto simp: is_interior_def is_tail_def chain_def)

lemma chain_insert:
  assumes c: "chain h (P @ p # b # Q)" and e: "e \<notin> set (P @ p # b # Q)" "e \<noteq> NULL"
  shows "\<exists>h'. list_insert h b e = Some h' \<and> chain h' (P @ p # e # b # Q) \<and> agree_off {p, e, b} h h'"
proof -
  have i: "is_interior h b \<or> is_tail h b" and p: "prev_of h b = p" and n: "next_of h p = b"
    using c chain_insertable chain_prev chain_next by blast+
  from c e i show ?thesis
    by (auto simp: list_insert_def field_defs p chain_def agree_off_def hd_append_Cons split: if_splits)
qed

lemma chain_remove:
  assumes c: "chain h (P @ p # e # n # Q)"
  shows "\<exists>h'. list_remove h e = Some (n, h') \<and> chain h' (P @ p # n # Q) \<and> agree_off {p, n} h h'"
proof -
  have i: "is_interior h e" and p: "prev_of h e = p" and n: "next_of h e = n"
    using c chain_is_interior chain_prev chain_next [of h "P @ [p]" e n Q] by auto
  from c i show ?thesis
    by (auto simp: list_remove_def field_defs p n chain_def agree_off_def hd_append_Cons split: if_splits)
qed

lemma linked_join:
  "linked nx pv (xs @ ys) \<longleftrightarrow> linked nx pv xs \<and> linked nx pv ys
     \<and> (xs \<noteq> [] \<longrightarrow> ys \<noteq> [] \<longrightarrow> nx (last xs) = hd ys \<and> pv (hd ys) = last xs)"
proof (induction xs)
  case Nil then show ?case by simp
next
  case (Cons x xs)
  then show ?case by (cases xs; cases ys) auto
qed

lemma distinct_ends [simp]:
  "distinct xs \<Longrightarrow> xs \<noteq> [] \<Longrightarrow> last xs \<notin> set (butlast xs)"
  "distinct xs \<Longrightarrow> xs \<noteq> [] \<Longrightarrow> hd xs \<notin> set (tl xs)"
  by (cases xs rule: rev_cases, simp_all) (cases xs, simp_all)

lemma disjoint_ends:
  assumes "set xs \<inter> set ys = {}" "xs \<noteq> []" "ys \<noteq> []"
  shows "last xs \<notin> set ys" "hd xs \<notin> set ys" "last ys \<notin> set xs" "hd ys \<notin> set xs"
    "last xs \<noteq> hd ys" "last xs \<noteq> last ys" "hd xs \<noteq> hd ys" "hd xs \<noteq> last ys"
  using assms by (metis disjoint_iff hd_in_set last_in_set)+

lemma hd_tl_append [simp]: "xs \<noteq> [] \<Longrightarrow> hd xs # tl xs @ ys = xs @ ys"
  by (cases xs) auto

lemma butlast_last_append [simp]: "xs \<noteq> [] \<Longrightarrow> butlast xs @ last xs # ys = xs @ ys"
  by (cases xs rule: rev_cases) auto

lemma chain_interior_at:
  assumes "chain h (P @ x # R)" "P \<noteq> []" "R \<noteq> []"
  shows "is_interior h x"
  using assms by (cases P rule: rev_cases; cases R) (auto intro: chain_is_interior)

lemma agree_off_trans [trans]:
  "agree_off S h h1 \<Longrightarrow> agree_off T h1 h2 \<Longrightarrow> S \<union> T \<subseteq> U \<Longrightarrow> agree_off U h h2"
  unfolding agree_off_def by (metis UnI1 UnI2 subset_iff)

lemma agree_off_refl [simp]: "agree_off S h h"
  by (simp add: agree_off_def)

lemma chain_distinct: "chain h F \<Longrightarrow> distinct F"
  by (simp add: chain_def)

lemma chain_next_hd:
  assumes "chain h (P @ a # R)" "R \<noteq> []"
  shows "list_next h a = Some (hd R)"
  using assms chain_list_next [of h P a "hd R" "tl R"] by (cases R) auto

lemma chain_hd_notNULL: "chain h (P @ R) \<Longrightarrow> R \<noteq> [] \<Longrightarrow> hd R \<noteq> NULL"
  by (rule chain_notNULL) auto

lemma chain_size_loop:
  "chain h (P @ ys @ [l_tail l]) \<Longrightarrow> e = hd (ys @ [l_tail l]) \<Longrightarrow>
     list_size_loop h l e cnt = Some (cnt + length ys)"
proof (induction ys arbitrary: P e cnt)
  case Nil
  then show ?case by (simp add: list_size_loop.simps list_end_def)
next
  case (Cons y ys)
  have "y \<noteq> l_tail l" using chain_distinct [OF Cons.prems(1)] by auto
  moreover have "list_next h y = Some (hd (ys @ [l_tail l]))"
    using Cons.prems(1) by (auto intro: chain_next_hd)
  moreover have "list_size_loop h l (hd (ys @ [l_tail l])) (cnt + 1) = Some (cnt + 1 + length ys)"
    using Cons.prems(1) by (intro Cons.IH [of "P @ [y]"]) auto
  ultimately show ?case
    using Cons.prems(2) by (subst list_size_loop.simps) (simp add: list_end_def)
qed

lemma strict_weak_ntrans: "strict_weak lt \<Longrightarrow> \<not> lt x y \<Longrightarrow> \<not> lt y z \<Longrightarrow> \<not> lt x z"
  unfolding strict_weak_def by blast

lemma dll_begin: "dll h l xs \<Longrightarrow> list_begin h l = Some (hd (xs @ [l_tail l]))"
  using chain_next_hd [of h "[]" "l_head l" "xs @ [l_tail l]"] chain_notNULL
  by (auto simp: dll_def list_begin_def list_next_def field_defs split: if_splits)

lemma linked_cong:
  "(\<And>x. x \<in> set xs \<Longrightarrow> nx x = nx' x \<and> pv x = pv' x) \<Longrightarrow> linked nx pv xs = linked nx' pv' xs"
  by (induction nx pv xs rule: linked.induct) auto

lemma linked_rev: "linked nx pv xs \<Longrightarrow> linked pv nx (rev xs)"
  by (induction nx pv xs rule: linked.induct) (auto simp: linked_join hd_rev last_rev)

lemma reverse_loop:
  "distinct (ys @ [l_tail l]) \<Longrightarrow> NULL \<notin> set (ys @ [l_tail l]) \<Longrightarrow>
   linked (next_of h) (prev_of h) (ys @ [l_tail l]) \<Longrightarrow> 
   list_reverse_loop h l (hd (ys @ [l_tail l])) = Some (h\<lparr>
     prev_of := (\<lambda>x. if x \<in> set ys then next_of h x else prev_of h x),
     next_of := (\<lambda>x. if x \<in> set ys then prev_of h x else next_of h x)\<rparr>)"
proof (induction ys arbitrary: h)
  case Nil
  then show ?case by (simp add: list_reverse_loop.simps list_end_def)
next
  case (Cons y ys)
  let ?h = "h\<lparr>prev_of := (prev_of h)(y := next_of h y), next_of := (next_of h)(y := prev_of h y)\<rparr>"
  have ne: "y \<noteq> l_tail l" "y \<noteq> NULL" "y \<notin> set ys" using Cons.prems(1,2) by auto
  have nx: "next_of h y = hd (ys @ [l_tail l])" and
    lk: "linked (next_of h) (prev_of h) (ys @ [l_tail l])"
    using Cons.prems(3) linked_join [of "next_of h" "prev_of h" "[y]" "ys @ [l_tail l]"] by auto
  have "linked (next_of ?h) (prev_of ?h) (ys @ [l_tail l]) =
      linked (next_of h) (prev_of h) (ys @ [l_tail l])"
    by (rule linked_cong) (use ne in auto)
  then have lk': "linked (next_of ?h) (prev_of ?h) (ys @ [l_tail l])"
    using lk by (rule iffD2)
  have "list_reverse_loop ?h l (hd (ys @ [l_tail l])) = Some (?h\<lparr>
     prev_of := (\<lambda>x. if x \<in> set ys then next_of ?h x else prev_of ?h x),
     next_of := (\<lambda>x. if x \<in> set ys then prev_of ?h x else next_of ?h x)\<rparr>)"
    by (rule Cons.IH [OF _ _ lk']) (use Cons.prems(1,2) in simp_all)
  then show ?case
    using ne by (simp add: list_reverse_loop.simps [of h l y] list_end_def field_defs nx)
      (auto simp: nx fun_eq_iff)
qed

lemma list_reverse_dll:
  assumes d: "dll h l xs"
  shows "\<exists>h'. list_reverse h l = Some h' \<and> dll h' l (rev xs)
     \<and> agree_off (set (l_head l # xs @ [l_tail l])) h h'"
proof (cases "xs = []")
  case True
  then show ?thesis using d dll_begin [OF d]
    by (simp add: list_reverse_def list_empty_def list_end_def)
next
  case False
  let ?H = "l_head l" and ?T = "l_tail l"
  have c: "distinct (?H # xs @ [?T])" "NULL \<notin> set (?H # xs @ [?T])"
    "linked (next_of h) (prev_of h) (?H # xs @ [?T])" "prev_of h ?H = NULL" "next_of h ?T = NULL"
    using d by (auto simp: dll_def chain_def)
  have lk: "linked (next_of h) (prev_of h) xs" "next_of h ?H = hd xs" "prev_of h (hd xs) = ?H"
    "next_of h (last xs) = ?T" "prev_of h ?T = last xs"
    using c(3) False linked_join [of "next_of h" "prev_of h" "[?H]" "xs @ [?T]"]
    by (auto simp: linked_join)
  let ?h1 = "h\<lparr>
     prev_of := (\<lambda>x. if x \<in> set xs then next_of h x else prev_of h x),
     next_of := (\<lambda>x. if x \<in> set xs then prev_of h x else next_of h x)\<rparr>"
  have loop: "list_reverse_loop h l (hd xs) = Some ?h1"
    using reverse_loop [of xs l h] c False linked_join [of "next_of h" "prev_of h" "[?H]" "xs @ [?T]"]
    by simp
  let ?h2 = "h\<lparr>
     prev_of := (prev_of ?h1)(?T := hd xs, last xs := ?H),
     next_of := (next_of ?h1)(?H := last xs, hd xs := ?T)\<rparr>"
  have ne: "hd xs \<noteq> NULL" "last xs \<noteq> NULL" "hd xs \<noteq> ?H" "last xs \<noteq> ?H" "hd xs \<noteq> ?T" "last xs \<noteq> ?T" "?H \<noteq> ?T"
    "?H \<noteq> NULL" "?T \<noteq> NULL" "?H \<notin> set xs" "?T \<notin> set xs"
    using c(1,2) False by auto
  have r: "list_reverse h l = Some ?h2"
    using dll_begin [OF d] False ne loop lk
    by (simp add: list_reverse_def list_empty_def list_end_def field_defs)
  have "linked (\<lambda>x. if x \<in> set xs then prev_of h x else next_of h x)
     (\<lambda>x. if x \<in> set xs then next_of h x else prev_of h x) (rev xs) =
     linked (prev_of h) (next_of h) (rev xs)"
    by (rule linked_cong) auto
  then have "linked (next_of ?h2) (prev_of ?h2) (rev xs)"
    using linked_rev [OF lk(1)] c(1) ne False distinct_ends [of "rev xs"]
    by (simp add: hd_rev last_rev)
  then have "dll ?h2 l (rev xs)"
    using c ne False linked_join [of _ _ "[?H]" "rev xs @ [?T]"]
    by (simp add: dll_def chain_def linked_join hd_rev last_rev)
  moreover have "agree_off (set (?H # xs @ [?T])) h ?h2"
    using False by (auto simp: agree_off_def)
  ultimately show ?thesis using r by blast
qed

lemma chain_frame:
  assumes "chain h F" "agree_off S h h'" "set F \<inter> S = {}"
  shows "chain h' F"
proof -
  have "linked (next_of h') (prev_of h') F = linked (next_of h) (prev_of h) F"
    by (rule linked_cong) (use assms in \<open>auto simp: agree_off_def\<close>)
  moreover have "F \<noteq> [] \<Longrightarrow> hd F \<notin> S \<and> last F \<notin> S"
    using assms(3) hd_in_set [of F] last_in_set [of F] by (auto simp: disjoint_iff simp del: hd_in_set last_in_set)
  ultimately show ?thesis using assms(1,2) by (auto simp: chain_def agree_off_def)
qed

lemma list_init_dll:
  assumes "l_head l \<noteq> NULL" "l_tail l \<noteq> NULL" "l_head l \<noteq> l_tail l"
  shows "\<exists>h'. list_init h l = Some h' \<and> dll h' l [] \<and> agree_off {l_head l, l_tail l} h h'"
  using assms by (auto simp: list_init_def field_defs dll_def chain_def agree_off_def)

lemma list_empty_dll: "dll h l xs \<Longrightarrow> list_empty h l = Some (xs = [])"
  using dll_begin [of h l xs]
  by (cases xs) (auto simp: list_empty_def list_end_def dll_def chain_def)

lemma dll_rbegin: "dll h l xs \<Longrightarrow> list_rbegin h l = Some (last (l_head l # xs))"
  using chain_prev [of h "butlast (l_head l # xs)" "last (l_head l # xs)" "l_tail l" "[]"]
    chain_notNULL [of h "l_head l # xs @ [l_tail l]" "l_tail l"]
    append_butlast_last_id [of "l_head l # xs"]
  by (auto simp: list_rbegin_def field_defs dll_def simp del: append_butlast_last_id)

lemma list_front_dll: "dll h l xs \<Longrightarrow> list_front h l = (if xs = [] then None else Some (hd xs))"
  using dll_begin [of h l xs]
  by (simp add: list_front_def list_empty_dll list_begin_def)

lemma list_back_dll: "dll h l xs \<Longrightarrow> list_back h l = (if xs = [] then None else Some (last xs))"
  using dll_rbegin [of h l xs]
  by (simp add: list_back_def list_empty_dll list_rbegin_def)

lemma list_size_dll: "dll h l xs \<Longrightarrow> list_size h l = Some (length xs)"
  using chain_size_loop [of h "[l_head l]" xs l] by (simp add: list_size_def dll_begin dll_def)

lemma list_insert_dll:
  assumes "dll h l (xs @ ys)" "e \<notin> set (l_head l # xs @ ys @ [l_tail l])" "e \<noteq> NULL"
  shows "\<exists>h'. list_insert h (hd (ys @ [l_tail l])) e = Some h' \<and> dll h' l (xs @ e # ys)
     \<and> agree_off (insert e (set (l_head l # xs @ ys @ [l_tail l]))) h h'"
proof -
  let ?A = "l_head l # xs" and ?B = "ys @ [l_tail l]"
  have split: "butlast ?A @ last ?A # R = l_head l # xs @ R"
      "butlast ?A @ last ?A # hd ?B # tl ?B = l_head l # xs @ ys @ [l_tail l]"
      "hd ?B # tl ?B = ?B" for R
    by (simp_all del: butlast.simps last.simps)
  obtain h' where "list_insert h (hd ?B) e = Some h'" "chain h' (butlast ?A @ last ?A # e # hd ?B # tl ?B)"
    "agree_off {last ?A, e, hd ?B} h h'"
    using chain_insert [of h "butlast ?A" "last ?A" "hd ?B" "tl ?B" e] assms
    unfolding split dll_def by auto
  moreover have "{last ?A, e, hd ?B} \<subseteq> insert e (set (l_head l # xs @ ys @ [l_tail l]))"
    by (cases ys) auto
  ultimately show ?thesis
    unfolding split dll_def by (auto simp: agree_off_def subset_iff)
qed

lemma list_remove_dll:
  assumes "dll h l (xs @ e # ys)"
  shows "\<exists>h'. list_remove h e = Some (hd (ys @ [l_tail l]), h') \<and> dll h' l (xs @ ys)
     \<and> agree_off (set (l_head l # xs @ ys @ [l_tail l])) h h'"
proof -
  let ?A = "l_head l # xs" and ?B = "ys @ [l_tail l]"
  have split: "butlast ?A @ last ?A # R = l_head l # xs @ R"
      "butlast ?A @ last ?A # hd ?B # tl ?B = l_head l # xs @ ys @ [l_tail l]"
      "hd ?B # tl ?B = ?B" for R
    by (simp_all del: butlast.simps last.simps)
  obtain h' where "list_remove h e = Some (hd ?B, h')" "chain h' (butlast ?A @ last ?A # hd ?B # tl ?B)"
    "agree_off {last ?A, hd ?B} h h'"
    using chain_remove [of h "butlast ?A" "last ?A" e "hd ?B" "tl ?B"] assms
    unfolding split dll_def by auto
  moreover have "{last ?A, hd ?B} \<subseteq> set (l_head l # xs @ ys @ [l_tail l])"
    by (cases ys) auto
  ultimately show ?thesis
    unfolding split dll_def by (auto simp: agree_off_def subset_iff)
qed

lemma list_push_front_dll:
  assumes "dll h l xs" "e \<notin> set (l_head l # xs @ [l_tail l])" "e \<noteq> NULL"
  shows "\<exists>h'. list_push_front h l e = Some h' \<and> dll h' l (e # xs)
     \<and> agree_off (insert e (set (l_head l # xs @ [l_tail l]))) h h'"
  using list_insert_dll [of h l "[]" xs e] assms dll_begin [OF assms(1)]
  by (simp add: list_push_front_def)

lemma list_push_back_dll:
  assumes "dll h l xs" "e \<notin> set (l_head l # xs @ [l_tail l])" "e \<noteq> NULL"
  shows "\<exists>h'. list_push_back h l e = Some h' \<and> dll h' l (xs @ [e])
     \<and> agree_off (insert e (set (l_head l # xs @ [l_tail l]))) h h'"
  using list_insert_dll [of h l xs "[]" e] assms
  by (simp add: list_push_back_def list_end_def)

lemma list_pop_front_dll:
  assumes "dll h l (x # xs)"
  shows "\<exists>h'. list_pop_front h l = Some (x, h') \<and> dll h' l xs
     \<and> agree_off (set (l_head l # xs @ [l_tail l])) h h'"
  using list_remove_dll [of h l "[]" x xs] assms list_front_dll [OF assms]
  by (auto simp: list_pop_front_def)

lemma list_pop_back_dll:
  assumes "dll h l (xs @ [x])"
  shows "\<exists>h'. list_pop_back h l = Some (x, h') \<and> dll h' l xs
     \<and> agree_off (set (l_head l # xs @ [l_tail l])) h h'"
  using list_remove_dll [of h l xs x "[]"] assms list_back_dll [OF assms]
  by (auto simp: list_pop_back_def)

lemma list_pop_empty:
  assumes "dll h l []"
  shows "list_pop_front h l = None" "list_pop_back h l = None"
  using list_front_dll [OF assms] list_back_dll [OF assms]
  by (simp_all add: list_pop_front_def list_pop_back_def)

lemma insert_ordered_loop_dll:
  "chain h (P @ ys @ [l_tail l]) \<Longrightarrow>
   insert_ordered_loop h lt l e (hd (ys @ [l_tail l]))
     = Some (hd (dropWhile (\<lambda>y. \<not> lt e y) ys @ [l_tail l]))"
proof (induction ys arbitrary: P)
  case Nil
  then show ?case by (simp add: insert_ordered_loop.simps list_end_def)
next
  case (Cons y ys)
  have "y \<noteq> l_tail l" using chain_distinct [OF Cons.prems] by auto
  moreover have "list_next h y = Some (hd (ys @ [l_tail l]))"
    using Cons.prems by (auto intro: chain_next_hd)
  moreover have "insert_ordered_loop h lt l e (hd (ys @ [l_tail l])) = 
      Some (hd (dropWhile (\<lambda>y. \<not> lt e y) ys @ [l_tail l]))"
    using Cons.prems by (intro Cons.IH [of "P @ [y]"]) simp
  ultimately show ?case
    by (simp add: insert_ordered_loop.simps [of h lt l e y] list_end_def)
qed

lemma list_insert_ordered_dll:
  assumes "dll h l xs" "e \<notin> set (l_head l # xs @ [l_tail l])" "e \<noteq> NULL"
  shows "\<exists>h'. list_insert_ordered h lt l e = Some h' \<and> dll h' l (insort_after lt e xs)
     \<and> agree_off (insert e (set (l_head l # xs @ [l_tail l]))) h h'"
proof -
  let ?t = "takeWhile (\<lambda>y. \<not> lt e y) xs" and ?d = "dropWhile (\<lambda>y. \<not> lt e y) xs"
  have s: "set ?t \<union> set ?d = set xs"
    by (metis set_append takeWhile_dropWhile_id)
  then have "e \<notin> set (l_head l # ?t @ ?d @ [l_tail l])"
    and eq: "set (l_head l # ?t @ ?d @ [l_tail l]) = set (l_head l # xs @ [l_tail l])"
    using assms(2) by auto
  then show ?thesis
    using list_insert_dll [of h l ?t ?d e] assms insert_ordered_loop_dll [of h "[l_head l]" xs l lt e] 
    unfolding eq by (simp add: list_insert_ordered_def dll_begin insort_after_def dll_def)
qed

lemma strict_weak_irrefl: "strict_weak lt \<Longrightarrow> \<not> lt x x"
  unfolding strict_weak_def by blast

lemma strict_weak_not_sym: "strict_weak lt \<Longrightarrow> lt x y \<Longrightarrow> \<not> lt y x"
  unfolding strict_weak_def by blast

lemma insort_after_sorted:
  assumes "strict_weak lt" "ksorted lt xs"
  shows "ksorted lt (insort_after lt e xs)"
  using assms(2)
proof (induction xs)
  case Nil
  then show ?case by (simp add: insort_after_def)
next
  case (Cons x xs)
  show ?case
  proof (cases "lt e x")
    case True
    moreover have "\<not> lt x e" by (rule strict_weak_not_sym [OF assms(1) True])
    moreover have "\<not> lt y e" if "y \<in> set xs" for y
    proof -
      have "\<not> lt y x" using Cons.prems that by simp
      then show ?thesis using strict_weak_ntrans [OF assms(1)] \<open>\<not> lt x e\<close> by blast
    qed
    ultimately show ?thesis using Cons.prems by (auto simp: insort_after_def)
  next
    case False
    have "set (insort_after lt e xs) = insert e (set xs)" for xs
      unfolding insort_after_def by (metis Un_insert_right list.simps(15) set_append takeWhile_dropWhile_id)
    then show ?thesis using False Cons by (auto simp: insort_after_def)
  qed
qed

lemma max_loop_dll:
  "chain h (P @ ys @ [l_tail l]) \<Longrightarrow>
   list_max_loop h lt l m (hd (ys @ [l_tail l])) = Some (fold (\<lambda>e m. if lt m e then e else m) ys m)"
proof (induction ys arbitrary: P m)
  case Nil
  then show ?case by (simp add: list_max_loop.simps list_end_def)
next
  case (Cons y ys)
  have "y \<noteq> l_tail l" using chain_distinct [OF Cons.prems] by auto
  moreover have "list_next h y = Some (hd (ys @ [l_tail l]))"
    using Cons.prems by (auto intro: chain_next_hd)
  moreover have "list_max_loop h lt l m (hd (ys @ [l_tail l]))
      = Some (fold (\<lambda>e m. if lt m e then e else m) ys m)" for m
    using Cons.prems by (intro Cons.IH [of "P @ [y]"]) simp
  ultimately show ?case
    by (simp add: list_max_loop.simps [of h lt l m y] list_end_def)
qed

lemma min_loop_dll:
  "chain h (P @ ys @ [l_tail l]) \<Longrightarrow>
   list_min_loop h lt l m (hd (ys @ [l_tail l])) = list_max_loop h (\<lambda>x y. lt y x) l m (hd (ys @ [l_tail l]))"
proof (induction ys arbitrary: P m)
  case Nil
  then show ?case by (simp add: list_max_loop.simps list_min_loop.simps list_end_def)
next
  case (Cons y ys)
  have "y \<noteq> l_tail l" using chain_distinct [OF Cons.prems] by auto
  moreover have "list_next h y = Some (hd (ys @ [l_tail l]))"
    using Cons.prems by (auto intro: chain_next_hd)
  moreover have "list_min_loop h lt l m (hd (ys @ [l_tail l]))
      = list_max_loop h (\<lambda>x y. lt y x) l m (hd (ys @ [l_tail l]))" for m
    using Cons.prems by (intro Cons.IH [of "P @ [y]"]) simp
  ultimately show ?case
    by (simp add: list_min_loop.simps [of h lt l m y] list_max_loop.simps [of h _ l m y] list_end_def)
qed

lemma strict_weak_conv: "strict_weak lt \<Longrightarrow> strict_weak (\<lambda>x y. lt y x)"
  unfolding strict_weak_def by blast

lemma fold_max:
  assumes "strict_weak lt"
  shows "fold (\<lambda>e m. if lt m e then e else m) ys m \<in> insert m (set ys)
    \<and> (\<forall>y \<in> insert m (set ys). \<not> lt (fold (\<lambda>e m. if lt m e then e else m) ys m) y)"
proof (induction ys arbitrary: m)
  case Nil
  then show ?case using strict_weak_irrefl [OF assms] by simp
next
  case (Cons y ys)
  let ?m = "if lt m y then y else m"
  let ?r = "fold (\<lambda>e m. if lt m e then e else m) ys ?m"
  have r: "?r \<in> insert ?m (set ys)" "\<forall>z \<in> insert ?m (set ys). \<not> lt ?r z"
    using Cons.IH [of ?m] by blast+
  have a: "\<not> lt ?m m" "\<not> lt ?m y" 
    using strict_weak_irrefl [OF assms, of m] strict_weak_irrefl [OF assms, of y]
      strict_weak_not_sym [OF assms, of m y] by simp_all
  have "\<not> lt ?r m" "\<not> lt ?r y"
    using strict_weak_ntrans [OF assms _ a(1)] strict_weak_ntrans [OF assms _ a(2)] r(2) by blast+
  then show ?case using r by (auto split: if_splits)
qed

lemma list_max_dll:
  assumes "dll h l xs" "strict_weak lt"
  shows "if xs = [] then list_max h lt l = Some (list_end l)
    else \<exists>m \<in> set xs. list_max h lt l = Some m \<and> (\<forall>y \<in> set xs. \<not> lt m y)"
proof (cases xs)
  case Nil
  then show ?thesis using dll_begin [OF assms(1)] by (simp add: list_max_def list_end_def)
next
  case (Cons x ys)
  have c: "chain h ([l_head l] @ x # ys @ [l_tail l])" using assms(1) Cons by (simp add: dll_def)
  have "list_next h x = Some (hd (ys @ [l_tail l]))" using chain_next_hd [OF c] by simp
  moreover have "x \<noteq> l_tail l" using chain_distinct [OF c] by auto
  moreover have c': "chain h (([l_head l] @ [x]) @ ys @ [l_tail l])" using c by simp
  note loop = max_loop_dll [OF c']
  ultimately have "list_max h lt l = Some (fold (\<lambda>e m. if lt m e then e else m) ys x)"
    using dll_begin [OF assms(1)] Cons loop by (simp add: list_max_def list_end_def)
  then show ?thesis using fold_max [OF assms(2), of ys x] Cons by auto
qed

lemma list_min_conv:
  assumes "dll h l xs"
  shows "list_min h lt l = list_max h (\<lambda>x y. lt y x) l"
proof (cases xs)
  case Nil
  then show ?thesis using dll_begin [OF assms(1)] by (simp add: list_max_def list_min_def list_end_def)
next
  case (Cons x ys)
  have c: "chain h ([l_head l] @ x # ys @ [l_tail l])" using assms(1) Cons by (simp add: dll_def)
  have "list_next h x = Some (hd (ys @ [l_tail l]))" using chain_next_hd [OF c] by simp
  moreover have "chain h (([l_head l] @ [x]) @ ys @ [l_tail l])" using c by simp
  ultimately show ?thesis
    using dll_begin [OF assms(1)] Cons min_loop_dll [of h "[l_head l] @ [x]"] by (simp add: list_max_def list_min_def list_end_def)
qed

lemma dll_frame:
  "dll h d ds \<Longrightarrow> agree_off S h h' \<Longrightarrow> cells d ds \<inter> S = {} \<Longrightarrow> dll h' d ds"
  unfolding dll_def by (rule chain_frame)

lemma list_next_dll:
  "dll h l (P @ x # ys) \<Longrightarrow> list_next h x = Some (hd (ys @ [l_tail l]))"
  using chain_next_hd [of h "l_head l # P" x "ys @ [l_tail l]"] by (simp add: dll_def)

lemma list_unique_loop_dll:
  assumes "dll h l (P @ x # ys)" "kunique lt x ys = (k, dd)"
    "\<And>d. dups = Some d \<Longrightarrow> dll h d ds \<and> cells d ds \<inter> cells l (P @ x # ys) = {}"
  shows "\<exists>h'. list_unique_loop h lt l dups x = Some h' \<and> dll h' l (P @ k)
    \<and> (\<forall>d. dups = Some d \<longrightarrow> dll h' d (ds @ dd))"
  using assms
proof (induction ys arbitrary: h P x k dd ds)
  case Nil
  then show ?case using list_next_dll [OF Nil.prems(1)]
    by (auto simp: list_unique_loop.simps [of h lt l dups x] list_end_def)
next
  case (Cons y ys)
  have nx: "list_next h x = Some y" using list_next_dll [OF Cons.prems(1)] by simp
  have yt: "y \<noteq> l_tail l" using Cons.prems(1) by (auto simp: dll_def chain_def)
  show ?case
  proof (cases "\<not> lt x y \<and> \<not> lt y x")
    case False
    obtain k' where k': "kunique lt y ys = (k', dd)" "k = x # k'"
      using Cons.prems(2) False by (auto split: prod.splits if_splits)
    have "\<exists>h'. list_unique_loop h lt l dups y = Some h' \<and> dll h' l ((P @ [x]) @ k')
        \<and> (\<forall>d. dups = Some d \<longrightarrow> dll h' d (ds @ dd))"
      using Cons.prems(1,3) k'(1) by (intro Cons.IH) auto
    then show ?thesis using nx yt False k'(2)
      by (auto simp: list_unique_loop.simps [of h lt l dups x] list_end_def)
  next
    case True
    obtain d' where d': "kunique lt x ys = (k, d')" "dd = y # d'"
      using Cons.prems(2) True by (auto split: prod.splits if_splits)
    obtain h1 n where h1: "list_remove h y = Some (n, h1)" "dll h1 l (P @ x # ys)"
      "agree_off (cells l (P @ x # ys)) h h1"
      using list_remove_dll [of h l "P @ [x]" y ys] Cons.prems(1) by auto
    have "\<exists>h2. (case dups of None \<Rightarrow> Some h1 | Some d \<Rightarrow> list_push_back h1 d y) = Some h2
        \<and> dll h2 l (P @ x # ys) \<and> (\<forall>d. dups = Some d \<longrightarrow> dll h2 d (ds @ [y])
        \<and> cells d (ds @ [y]) \<inter> cells l (P @ x # ys) = {})"
    proof (cases dups)
      case None
      then show ?thesis using h1(2) by simp
    next
      case (Some d)
      have d: "dll h d ds" "cells d ds \<inter> cells l (P @ x # y # ys) = {}"
        using Cons.prems(3) [OF Some] by auto
      have d1: "dll h1 d ds" by (rule dll_frame [OF d(1) h1(3)]) (use d(2) in auto)
      have y: "y \<notin> cells l (P @ x # ys)" "y \<noteq> NULL"
        using Cons.prems(1) by (auto simp: dll_def chain_def)
      obtain h2 where h2: "list_push_back h1 d y = Some h2" "dll h2 d (ds @ [y])"
        "agree_off (insert y (cells d ds)) h1 h2"
        using list_push_back_dll [OF d1, of y] d(2) y(2) by auto
      have "dll h2 l (P @ x # ys)" by (rule dll_frame [OF h1(2) h2(3)]) (use d(2) y in auto)
      then show ?thesis using Some h2 d(2) y(1) by auto
    qed
    then obtain h2 where h2: "(case dups of None \<Rightarrow> Some h1 | Some d \<Rightarrow> list_push_back h1 d y) = Some h2"
        "dll h2 l (P @ x # ys)" "\<And>d. dups = Some d \<Longrightarrow> dll h2 d (ds @ [y])
        \<and> cells d (ds @ [y]) \<inter> cells l (P @ x # ys) = {}" by blast
    from Cons.IH [OF h2(2) d'(1) h2(3)] show ?thesis using nx yt True h1(1) h2(1) d'(2)
      by (auto simp: list_unique_loop.simps [of h lt l dups x] list_end_def)
  qed
qed

lemma list_unique_dll:
  assumes "dll h l (x # xs)" "kunique lt x xs = (k, dd)"
    "\<And>d. dups = Some d \<Longrightarrow> dll h d ds \<and> cells d ds \<inter> cells l (x # xs) = {}"
  shows "\<exists>h'. list_unique h lt l dups = Some h' \<and> dll h' l k
    \<and> (\<forall>d. dups = Some d \<longrightarrow> dll h' d (ds @ dd))"
  using list_unique_loop_dll [of h l "[]" x xs lt k dd dups ds] assms 
  by (simp add: list_unique_def list_empty_dll dll_begin)

lemma kunique_mset: "kunique lt x ys = (k, d) \<Longrightarrow> mset k + mset d = mset (x # ys)"
  by (induction ys arbitrary: x k d) (auto split: prod.splits if_splits)

lemma kunique_hd: "kunique lt x ys = (k, d) \<Longrightarrow> \<exists>k'. k = x # k'"
  by (induction ys arbitrary: x k d) (auto split: prod.splits if_splits)

lemma kunique_adj:
  "kunique lt x ys = (k, d) \<Longrightarrow> successively (\<lambda>a b. lt a b \<or> lt b a) k"
proof (induction ys arbitrary: x k d)
  case (Cons y ys)
  show ?case
  proof (cases "\<not> lt x y \<and> \<not> lt y x")
    case True
    then show ?thesis using Cons by (auto split: prod.splits)
  next
    case False
    then obtain k' where "kunique lt y ys = (k', d)" "k = x # k'"
      using Cons.prems by (auto split: prod.splits)
    then show ?thesis using Cons.IH kunique_hd [of lt y ys k' d] False by fastforce
  qed
qed simp

lemma kunique_eq_class:
  "strict_weak lt \<Longrightarrow> kunique lt x ys = (k, d) \<Longrightarrow> z \<in> set d \<Longrightarrow> \<exists>y \<in> set k. eqv lt y z"
proof (induction ys arbitrary: x k d)
  case (Cons y ys)
  show ?case
  proof (cases "\<not> lt x y \<and> \<not> lt y x")
    case True
    then obtain d' where d': "kunique lt x ys = (k, d')" "d = y # d'"
      using Cons.prems(2) by (auto split: prod.splits)
    moreover have "x \<in> set k" using kunique_hd [OF d'(1)] by auto
    ultimately show ?thesis using Cons.IH [OF Cons.prems(1) d'(1)] Cons.prems(3) True
      unfolding eqv_def by auto
  next
    case False
    then obtain k' where "kunique lt y ys = (k', d)" "k = x # k'"
      using Cons.prems(2) by (auto split: prod.splits)
    then show ?thesis using Cons.IH [OF Cons.prems(1)] Cons.prems(3) by auto
  qed
qed simp

lemma klist_sim:
  assumes d: "dll h l xs" and a: "deque_step l xs op = Some (r, ys)"
  shows "\<exists>h'. klist_step l h op = Some (r, h') \<and> dll h' l ys"
proof (cases op)
  case (PushFront e)
  then show ?thesis using a list_push_front_dll [OF d, of e] by (auto split: if_splits)
next
  case (PushBack e)
  then show ?thesis using a list_push_back_dll [OF d, of e] by (auto split: if_splits)
next
  case PopFront
  then show ?thesis using a list_pop_front_dll [of h l "hd xs" "tl xs"] d by (auto split: if_splits)
next
  case PopBack
  then show ?thesis using a list_pop_back_dll [of h l "butlast xs" "last xs"] d by (auto split: if_splits)
next
  case (Remove e)
  then obtain ps qs where s: "xs = ps @ e # qs" "e \<notin> set ps"
    using a split_list_first [of e xs] by (auto split: if_splits)
  then have w: "dropWhile (\<lambda>x. x \<noteq> e) xs = e # qs" "remove1 e xs = ps @ qs"
    by (auto simp: dropWhile_append remove1_append)
  show ?thesis using list_remove_dll [of h l ps e qs] d a s(1) w Remove by auto
next
  case Front
  then show ?thesis using a d list_front_dll [OF d] by (auto split: if_splits)
next
  case Back
  then show ?thesis using a d list_back_dll [OF d] by (auto split: if_splits)
next
  case Size
  then show ?thesis using a d list_size_dll [OF d] by auto
qed

interpretation list_deque: simulation "\<lambda>h. dll h l" "klist_step l" "deque_step l" for l
  by unfold_locales (rule klist_sim)

section \<open>Properties\<close>

text \<open>A list object with its headers at 1 and 2 that holds the elements 3, 4, 5.\<close>

definition ex_list :: klist where
  "ex_list = \<lparr>l_head = 1, l_tail = 2\<rparr>"

definition ex_heap :: list_heap where
  "ex_heap = \<lparr>prev_of = (\<lambda>_. 0)(3 := 1, 4 := 3, 5 := 4, 2 := 5),
              next_of = (\<lambda>_. 0)(1 := 3, 3 := 4, 4 := 5, 5 := 2)\<rparr>"

lemma ex_heap_dll: "dll ex_heap ex_list [3, 4, 5]"
  by (simp add: dll_def chain_def ex_heap_def ex_list_def)

text \<open>
  C5. The element operations of \<^verbatim>\<open>list.c\<close> refine a double-ended queue: for every
  sequence of insertions at either end, removals, pops, and queries that the queue
  specification allows on \<open>xs\<close>, running the pointer code on a heap that represents \<open>xs\<close> never
  stops, returns the same values one by one, and ends in a heap that represents the final
  queue.
\<close>

theorem list_refines_deque:
  assumes "dll h l xs" "run_steps (deque_step l) xs ops = Some (rs, ys)"
  shows "\<exists>h'. run_steps (klist_step l) h ops = Some (rs, h') \<and> dll h' l ys"
  using list_deque.run_sim [OF assms] .

theorem list_refines_deque_witness:
  "\<exists>h'. run_steps (klist_step ex_list) ex_heap [PushFront 9, Remove 4, PopBack, Size] = Some ([0, 5, 5, 2], h')
     \<and> dll h' ex_list [9, 3]"
proof -
  have "run_steps (deque_step ex_list) [3, 4, 5] [PushFront 9, Remove 4, PopBack, Size] = Some ([0, 5, 5, 2], [9, 3])"
    by (simp add: ex_list_def)
  then show ?thesis by (rule list_refines_deque [OF ex_heap_dll])
qed

text \<open>
  C13. \<^verbatim>\<open>list_reverse\<close> returns, reverses the list, and changes no link outside it.
\<close>

theorem list_reverse_correct:
  assumes "dll h l xs"
  shows "\<exists>h'. list_reverse h l = Some h' \<and> dll h' l (rev xs) \<and> agree_off (cells l xs) h h'"
  by (rule list_reverse_dll [OF assms])

theorem list_reverse_correct_witness:
  "\<exists>h'. list_reverse ex_heap ex_list = Some h' \<and> dll h' ex_list [5, 4, 3]"
  using list_reverse_correct [OF ex_heap_dll] by auto

text \<open>
  C14. \<^verbatim>\<open>list_unique\<close> with a duplicates list returns, moves elements from the list
  to the end of the duplicates list and loses none, keeps the first element, leaves no two
  adjacent equivalent elements behind, and every element it moved is equivalent to one that was
  kept.
\<close>

theorem list_unique_correct:
  assumes "strict_weak lt" "dll h l (x # xs)" "dll h d ds" "cells d ds \<inter> cells l (x # xs) = {}"
  shows "\<exists>h' k dd. list_unique h lt l (Some d) = Some h' \<and> dll h' l (x # k) \<and> dll h' d (ds @ dd)
    \<and> mset (x # k) + mset dd = mset (x # xs)
    \<and> successively (\<lambda>a b. \<not> eqv lt a b) (x # k)
    \<and> (\<forall>z \<in> set dd. \<exists>y \<in> set (x # k). eqv lt y z)"
proof -
  obtain k0 dd where k0: "kunique lt x xs = (k0, dd)" by fastforce
  then obtain k where k: "kunique lt x xs = (x # k, dd)" using kunique_hd by blast
  have "successively (\<lambda>a b. \<not> eqv lt a b) (x # k)"
    using kunique_adj [OF k] by (rule successively_mono) (auto simp: eqv_def)
  moreover have "\<exists>h'. list_unique h lt l (Some d) = Some h' \<and> dll h' l (x # k)
      \<and> (\<forall>d'. Some d = Some d' \<longrightarrow> dll h' d' (ds @ dd))"
    using assms(2-4) by (intro list_unique_dll [OF _ k]) auto
  ultimately show ?thesis
    using kunique_mset [OF k] kunique_eq_class [OF assms(1) k] by blast
qed

theorem list_unique_correct_witness:
  "\<exists>h' k dd. list_unique (ex_heap\<lparr>prev_of := (prev_of ex_heap)(7 := 6), next_of := (next_of ex_heap)(6 := 7)\<rparr>)
      (\<lambda>a b. a div 2 < b div 2) ex_list (Some \<lparr>l_head = 6, l_tail = 7\<rparr>) = Some h'
     \<and> dll h' ex_list (3 # k) \<and> dll h' \<lparr>l_head = 6, l_tail = 7\<rparr> dd \<and> mset (3 # k) + mset dd = mset [3, 4, 5]"
proof -
  let ?h = "ex_heap\<lparr>prev_of := (prev_of ex_heap)(7 := 6), next_of := (next_of ex_heap)(6 := 7)\<rparr>"
  have "strict_weak (\<lambda>(a :: nat) b. a div 2 < b div 2)" by (auto simp: strict_weak_def)
  moreover have "dll ?h ex_list [3, 4, 5]" "dll ?h \<lparr>l_head = 6, l_tail = 7\<rparr> []"
    by (simp_all add: dll_def chain_def ex_heap_def ex_list_def)
  ultimately show ?thesis
    using list_unique_correct [of "\<lambda>a b. a div 2 < b div 2" ?h ex_list 3 "[4, 5]" "\<lparr>l_head = 6, l_tail = 7\<rparr>" "[]"]
    by (auto simp: ex_list_def)
qed

text \<open>
  C15. \<^verbatim>\<open>list_insert_ordered\<close> into a sorted list returns and gives a sorted list
  with the new element placed after every element that is not greater than it, and changes no
  link outside the list and the new element.
\<close>

theorem list_insert_ordered_correct:
  assumes "strict_weak lt" "dll h l xs" "ksorted lt xs" "e \<noteq> NULL" "e \<notin> cells l xs"
  shows "\<exists>h' as bs. list_insert_ordered h lt l e = Some h' \<and> dll h' l (as @ e # bs) \<and> xs = as @ bs
    \<and> (\<forall>a \<in> set as. \<not> lt e a) \<and> (bs \<noteq> [] \<longrightarrow> lt e (hd bs)) \<and> ksorted lt (as @ e # bs)
    \<and> agree_off (insert e (cells l xs)) h h'"
proof -
  let ?as = "takeWhile (\<lambda>y. \<not> lt e y) xs" and ?bs = "dropWhile (\<lambda>y. \<not> lt e y) xs"
  have "\<forall>a \<in> set ?as. \<not> lt e a" by (auto dest: set_takeWhileD)
  moreover have "?bs \<noteq> [] \<longrightarrow> lt e (hd ?bs)" using hd_dropWhile by blast
  moreover have "ksorted lt (?as @ e # ?bs)"
    using insort_after_sorted [OF assms(1,3)] by (simp add: insort_after_def)
  ultimately show ?thesis
    using list_insert_ordered_dll [OF assms(2,5,4), of lt] takeWhile_dropWhile_id [of _ xs]
    unfolding insort_after_def by metis
qed

theorem list_insert_ordered_correct_witness:
  "\<exists>h' as bs. list_insert_ordered ex_heap (\<lambda>a b. a < b) ex_list 9 = Some h' \<and> dll h' ex_list (as @ 9 # bs)
     \<and> [3, 4, 5] = as @ bs \<and> ksorted (\<lambda>a b. a < b) (as @ 9 # bs)"
proof -
  have "strict_weak (\<lambda>(a :: nat) b. a < b)" by (auto simp: strict_weak_def)
  then show ?thesis
    using list_insert_ordered_correct [OF _ ex_heap_dll, of "\<lambda>a b. a < b" 9] by (auto simp: ex_list_def)
qed

text \<open>
  \<^verbatim>\<open>list_max\<close> and \<^verbatim>\<open>list_min\<close> return, give the list's end for an empty list, and otherwise an element
  of the list that no element exceeds, respectively that exceeds none.
\<close>

lemma list_max_min_correct:
  assumes "strict_weak lt" "dll h l xs"
  shows "if xs = [] then list_max h lt l = Some (list_end l) \<and> list_min h lt l = Some (list_end l)
    else (\<exists>m \<in> set xs. list_max h lt l = Some m \<and> (\<forall>y \<in> set xs. \<not> lt m y))
       \<and> (\<exists>m \<in> set xs. list_min h lt l = Some m \<and> (\<forall>y \<in> set xs. \<not> lt y m))"
  using list_max_dll [OF assms(2,1)] list_max_dll [OF assms(2) strict_weak_conv [OF assms(1)]]
    list_min_conv [OF assms(2), of lt] by (auto split: if_splits)

lemma list_max_min_correct_witness:
  "(\<exists>m \<in> {3, 4, 5}. list_max ex_heap (\<lambda>a b. a < b) ex_list = Some m \<and> (\<forall>y \<in> {3, 4, 5}. \<not> m < y))
     \<and> (\<exists>m \<in> {3, 4, 5}. list_min ex_heap (\<lambda>a b. a < b) ex_list = Some m \<and> (\<forall>y \<in> {3, 4, 5}. \<not> y < m))"
proof -
  have "strict_weak (\<lambda>(a :: nat) b. a < b)" by (auto simp: strict_weak_def)
  from list_max_min_correct [OF this ex_heap_dll] show ?thesis by simp
qed

end
