(* ===== verification/List_Sort.thy ===== *)
theory List_Sort
  imports List_Refine
begin

text \<open>
  Correctness of \<^verbatim>\<open>list_sort\<close>, an in-place natural merge sort. A pass finds
  maximal ordered runs and merges them in pairs by splicing (\<^term>\<open>inplace_merge\<close>); passes repeat
  until one run is left. The proof goes through the same algorithm on HOL lists: \<open>span_run\<close>,
  \<open>kmerge\<close> and \<open>kpass\<close> are what a run search, a merge and a pass do to the list, \<open>runs\<close> counts the
  runs and strictly decreases while a pass merges anything, which bounds the number of passes.
\<close>

section \<open>The algorithm on lists\<close>

abbreviation sorted_adj :: "less_func \<Rightarrow> ptr list \<Rightarrow> bool" where
  "sorted_adj lt \<equiv> successively (\<lambda>x y. \<not> lt y x)"

fun span_run :: "less_func \<Rightarrow> ptr \<Rightarrow> ptr list \<Rightarrow> ptr list \<times> ptr list" where
  "span_run lt a [] = ([], [])"
| "span_run lt a (y # ys) =
     (if lt y a then ([], y # ys) else (case span_run lt y ys of (r, s) \<Rightarrow> (y # r, s)))"

fun kmerge :: "less_func \<Rightarrow> ptr list \<Rightarrow> ptr list \<Rightarrow> ptr list" where
  "kmerge lt (a # A) (b # B) =
     (if \<not> lt b a then a # kmerge lt A (b # B) else b # kmerge lt (a # A) B)"
| "kmerge lt [] B = B"
| "kmerge lt A [] = A"

lemma span_run_append: "span_run lt a ys = (r, s) \<Longrightarrow> ys = r @ s"
  by (induction lt a ys arbitrary: r s rule: span_run.induct) (auto split: if_splits prod.splits)

lemma span_run_length: "span_run lt a ys = (r, s) \<Longrightarrow> length s \<le> length ys"
  using span_run_append by fastforce

function kpass :: "less_func \<Rightarrow> ptr list \<Rightarrow> ptr list \<times> nat" where
  "kpass lt [] = ([], 0)"
| "kpass lt (x # xs) =
     (case span_run lt x xs of
        (r, []) \<Rightarrow> (x # xs, 1)
      | (r, y # ys) \<Rightarrow>
          (case span_run lt y ys of
             (r', zs) \<Rightarrow> (case kpass lt zs of (us, n) \<Rightarrow> (kmerge lt (x # r) (y # r') @ us, Suc n))))"
  by pat_completeness auto
termination
  by (relation "measure (\<lambda>(lt, xs). length xs)") (auto dest!: span_run_length[OF sym])

fun runs :: "less_func \<Rightarrow> ptr list \<Rightarrow> nat" where
  "runs lt (x # y # ys) = (if lt y x then 1 else 0) + runs lt (y # ys)"
| "runs lt [x] = 1"
| "runs lt [] = 0"

definition asymm :: "less_func \<Rightarrow> bool" where
  "asymm lt \<longleftrightarrow> (\<forall>x y. lt x y \<longrightarrow> \<not> lt y x)"

section \<open>Lemmas\<close>

lemma chain_splice:
  assumes c: "chain h (A @ V @ W @ X)" and ne: "A \<noteq> []" "V \<noteq> []" "W \<noteq> []" "X \<noteq> []"
  shows "\<exists>h'. list_splice h (hd V) (hd W) (hd X) = Some h' \<and> chain h' (A @ W @ V @ X)
    \<and> agree_off (set (A @ V @ W @ X)) h h'"
proof -
  have dis: "distinct A" "distinct V" "distinct W" "distinct X"
    "set A \<inter> set V = {}" "set A \<inter> set W = {}" "set A \<inter> set X = {}"
    "set V \<inter> set W = {}" "set V \<inter> set X = {}" "set W \<inter> set X = {}"
    using c by (auto simp: chain_def)
  note d = disjoint_ends [OF dis(5) ne(1,2)] disjoint_ends [OF dis(6) ne(1,3)]
    disjoint_ends [OF dis(7) ne(1,4)] disjoint_ends [OF dis(8) ne(2,3)]
    disjoint_ends [OF dis(9) ne(2,4)] disjoint_ends [OF dis(10) ne(3,4)]
  have lk: "linked (next_of h) (prev_of h) A" "linked (next_of h) (prev_of h) V"
     "linked (next_of h) (prev_of h) W" "linked (next_of h) (prev_of h) X"
     "next_of h (last A) = hd V" "prev_of h (hd V) = last A" 
     "next_of h (last V) = hd W" "prev_of h (hd W) = last V"
     "next_of h (last W) = hd X" "prev_of h (hd X) = last W"
    using c ne by (auto simp: chain_def linked_join hd_append)
  have nn: "last A \<noteq> NULL" "hd V \<noteq> NULL" "last V \<noteq> NULL" "hd W \<noteq> NULL" "last W \<noteq> NULL"
    "hd X \<noteq> NULL" "NULL \<notin> set (A @ V @ W @ X)"
    using c ne by (auto simp: chain_def)
  have i1: "is_interior h (hd V) \<or> is_tail h (hd V)" "list_prev h (hd X) = Some (last W)"
    "is_interior h (hd W)" "is_interior h (last W)"
  proof -
    from c ne show "is_interior h (hd V) \<or> is_tail h (hd V)"
      using chain_interior_at [of h A "hd V" "tl V @ W @ X"] by simp
    from c ne show "list_prev h (hd X) = Some (last W)"
      using chain_list_prev [of h "A @ V @ butlast W" "last W" "hd X" "tl X"]
      by simp
    from c ne show "is_interior h (hd W)"
      using chain_interior_at [of h "A @ V" "hd W" "tl W @ X"] by simp
    from c ne show "is_interior h (last W)"
      using chain_interior_at [of h "A @ V @ butlast W" "last W" "X"]
      by simp
  qed
  let ?h = "h\<lparr>
     next_of := (next_of h)(last V := hd X, last W := hd V, last A := hd W),
     prev_of := (prev_of h)(hd X := last V, hd W := last A, hd V := last W)\<rparr>"
  have "hd W \<noteq> hd X" using d by simp
  with i1 have "list_splice h (hd V) (hd W) (hd X) = Some ?h"
    using d lk nn by (auto simp: list_splice_def field_defs)
  moreover have "chain ?h (A @ W @ V @ X)"
    using c d lk nn dis ne
    by (simp add: chain_def linked_join hd_append Int_Un_distrib Int_commute)
  moreover have "agree_off (set (A @ V @ W @ X)) h ?h"
    using ne by (auto simp: agree_off_def)
  ultimately show ?thesis by blast
qed

lemma span_run_sorted: "span_run lt a ys = (r, s) \<Longrightarrow> sorted_adj lt (a # r)"
  by (induction lt a ys arbitrary: r s rule: span_run.induct) (auto split: if_splits prod.splits)

lemma chain_find_end_of_run_loop:
  "chain h (P @ a # ys @ b # Q) \<Longrightarrow>
     find_end_of_run_loop h lt a b = Some (hd (snd (span_run lt a ys) @ [b]))"
proof (induction ys arbitrary: P a)
  case Nil
  then show ?case by (subst find_end_of_run_loop.simps) (simp add: chain_next_hd)
next
  case (Cons y ys)
  have "y \<noteq> b" using chain_distinct [OF Cons.prems] by auto
  moreover have "list_next h a = Some y" "list_prev h y = Some a"
    using Cons.prems by (auto intro: chain_list_next chain_list_prev)
  moreover have "find_end_of_run_loop h lt y b = Some (hd (snd (span_run lt y ys) @ [b]))"
    using Cons.prems by (intro Cons.IH [of "P @ [a]"]) auto
  ultimately show ?case
    by (subst find_end_of_run_loop.simps) (auto split: prod.splits)
qed

lemma chain_find_end_of_run:
  assumes "chain h (P @ a # ys @ b # Q)"
  shows "find_end_of_run h lt a b = Some (hd (snd (span_run lt a ys) @ [b]))"
  using chain_find_end_of_run_loop [OF assms] assms
  by (auto simp: find_end_of_run_def chain_def)

lemma chain_is_sorted_loop:
  "chain h (P @ a # ys @ b # Q) \<Longrightarrow> is_sorted_loop h lt a b = Some (sorted_adj lt (a # ys))"
proof (induction ys arbitrary: P a)
  case Nil
  then show ?case by (subst is_sorted_loop.simps) (simp add: chain_next_hd)
next
  case (Cons y ys)
  have "y \<noteq> b" using chain_distinct [OF Cons.prems] by auto
  moreover have "list_next h a = Some y" "list_prev h y = Some a"
    using Cons.prems by (auto intro: chain_list_next chain_list_prev)
  moreover have "is_sorted_loop h lt y b = Some (sorted_adj lt (y # ys))"
    using Cons.prems by (intro Cons.IH [of "P @ [a]"]) auto
  ultimately show ?case
    by (subst is_sorted_loop.simps) auto
qed

lemma chain_is_sorted:
  assumes "chain h (P @ xs @ b # Q)" "a = hd (xs @ [b])"
  shows "is_sorted h lt a b = Some (sorted_adj lt xs)"
proof (cases xs)
  case Nil then show ?thesis using assms by (simp add: is_sorted_def)
next
  case (Cons x ys)
  then have "x \<noteq> b" using chain_distinct [OF assms(1)] by auto
  then show ?thesis
    using Cons assms chain_is_sorted_loop [of h P x ys b Q lt] by (simp add: is_sorted_def)
qed

lemma kmerge_Nil2 [simp]: "kmerge lt A [] = A"
  by (cases A) auto

lemma mset_kmerge [simp]: "mset (kmerge lt A B) = mset A + mset B"
  by (induction lt A B rule: kmerge.induct) auto

lemma chain_inplace_merge_loop:
  assumes "chain h (P @ A @ B @ X)" "P \<noteq> []" "X \<noteq> []"
  shows "\<exists>h'. inplace_merge_loop h lt (hd (A @ B @ X)) (hd (B @ X)) (hd X) = Some h' \<and>
     chain h' (P @ kmerge lt A B @ X) \<and> agree_off (set (P @ A @ B @ X)) h h'"
  using assms
proof (induction lt A B arbitrary: P h rule: kmerge.induct)
  case (1 lt a A b B)
  note c = \<open>chain h (P @ (a # A) @ (b # B) @ X)\<close>
  have d: "a \<noteq> b" "b \<noteq> hd X" using chain_distinct [OF c] \<open>X \<noteq> []\<close> by auto
  show ?case
  proof (cases "lt b a")
    case False
    have nxt: "list_next h a = Some (hd (A @ (b # B) @ X))"
      using c by (intro chain_next_hd) auto
    have "\<exists>h'. inplace_merge_loop h lt (hd (A @ (b # B) @ X)) (hd ((b # B) @ X)) (hd X) = Some h' \<and>
       chain h' ((P @ [a]) @ kmerge lt A (b # B) @ X) \<and> agree_off (set ((P @ [a]) @ A @ (b # B) @ X)) h h'"
      by (rule "1.IH"(1)) (use False c "1.prems" in simp_all)
    with False d nxt show ?thesis
      by (simp add: inplace_merge_loop.simps [of h lt a b])
  next
    case True
    let ?n = "hd (B @ X)"
    have nxt: "list_next h b = Some ?n"
      using c \<open>X \<noteq> []\<close> chain_next_hd [of h "P @ a # A" b "B @ X"] by simp
    have prv: "list_prev h ?n = Some b"
      using c \<open>X \<noteq> []\<close> chain_list_prev [of h "P @ a # A" b ?n "tl (B @ X)"] by simp
    obtain h1 where h1: "list_splice h a b ?n = Some h1" "chain h1 (P @ [b] @ (a # A) @ (B @ X))"
      "agree_off (set (P @ (a # A) @ [b] @ (B @ X))) h h1"
      using chain_splice [of h P "a # A" "[b]" "B @ X"] c "1.prems"(2,3) by auto
    obtain h2 where h2: "inplace_merge_loop h1 lt (hd ((a # A) @ B @ X)) ?n (hd X) = Some h2"
      "chain h2 ((P @ [b]) @ kmerge lt (a # A) B @ X)" "agree_off (set ((P @ [b]) @ (a # A) @ B @ X)) h1 h2"
      using "1.IH"(2) [of h1 "P @ [b]"] True h1(2) "1.prems"(3) by auto
    have "agree_off (set (P @ (a # A) @ (b # B) @ X)) h h2"
      by (rule agree_off_trans [OF h1(3) h2(3)]) auto
    with True d nxt prv h1(1) h2 show ?thesis
      by (simp add: inplace_merge_loop.simps [of h lt a b])
  qed
next
  case (2 lt B)
  then show ?case by (subst inplace_merge_loop.simps) simp
next
  case (3 lt a A)
  then show ?case by (subst inplace_merge_loop.simps) simp
qed

lemma chain_inplace_merge:
  assumes c: "chain h (P @ A @ B @ X)" "P \<noteq> []" "X \<noteq> []"
    and s: "sorted_adj lt A" "sorted_adj lt B"
  shows "\<exists>h'. inplace_merge h lt (hd (A @ B @ X)) (hd (B @ X)) (hd X) = Some h' \<and>
     chain h' (P @ kmerge lt A B @ X) \<and> agree_off (set (P @ A @ B @ X)) h h'"
proof -
  have "hd (A @ B @ X) \<noteq> NULL" "hd (B @ X) \<noteq> NULL" "hd X \<noteq> NULL"
    using chain_hd_notNULL [of h P "A @ B @ X"] chain_hd_notNULL [of h "P @ A" "B @ X"]
      chain_hd_notNULL [of h "P @ A @ B" X] c by simp_all
  moreover have "is_sorted h lt (hd (A @ B @ X)) (hd (B @ X)) = Some True"
    using chain_is_sorted [of h P A "hd (B @ X)" "tl (B @ X)"] c s
    by (cases "B @ X"; cases A) (auto simp: hd_append)
  moreover have "is_sorted h lt (hd (B @ X)) (hd X) = Some True"
    using chain_is_sorted [of h "P @ A" B "hd X" "tl X"] c s
    by (cases X; cases B) (auto simp: hd_append)
  ultimately show ?thesis
    using chain_inplace_merge_loop [OF c, of lt] by (auto simp: inplace_merge_def)
qed

lemma chain_sort_pass:
  "chain h (P @ xs @ [l_tail l]) \<Longrightarrow> P \<noteq> [] \<Longrightarrow> kpass lt xs = (us, n) \<Longrightarrow>
   \<exists>h'. list_sort_pass h lt l (hd (xs @ [l_tail l])) cnt = Some (h', cnt + n)
      \<and> chain h' (P @ us @ [l_tail l]) \<and> agree_off (set (P @ xs @ [l_tail l])) h h'"
proof (induction lt xs arbitrary: h P us n cnt rule: kpass.induct)
  case (1 lt)
  then show ?case by (subst list_sort_pass.simps) (simp add: list_end_def)
next
  case (2 lt x xs)
  note c = \<open>chain h (P @ (x # xs) @ [l_tail l])\<close>
  have xt: "x \<noteq> l_tail l" using chain_distinct [OF c] by auto
  obtain r s where rs: "span_run lt x xs = (r, s)" by fastforce
  have xs: "xs = r @ s" using span_run_append [OF rs] .
  have run1: "find_end_of_run h lt x (l_tail l) = Some (hd (s @ [l_tail l]))"
    using chain_find_end_of_run [of h P x xs "l_tail l" "[]" lt] c rs by simp
  show ?case
  proof (cases s)
    case Nil
    then have "us = x # xs" "n = 1" using "2.prems"(3) rs by simp_all
    then show ?thesis using c Nil xt run1
      by (simp add: list_sort_pass.simps [of h lt l x] list_end_def)
  next
    case (Cons y ys)
    obtain r' zs where rs': "span_run lt y ys = (r', zs)" by fastforce
    have ys: "ys = r' @ zs" using span_run_append [OF rs'] .
    have yt: "y \<noteq> l_tail l" using chain_distinct [OF c] xs Cons by auto
    have run2: "find_end_of_run h lt y (l_tail l) = Some (hd (zs @ [l_tail l]))"
      using chain_find_end_of_run [of h "P @ x # r" y ys "l_tail l" "[]" lt] c rs' xs Cons by simp
    obtain us' n' where p': "kpass lt zs = (us', n')" by fastforce
    have res: "us = kmerge lt (x # r) (y # r') @ us'" "n = Suc n'"
      using "2.prems"(3) rs Cons rs' p' by auto
    obtain h1 where h1:
      "inplace_merge h lt (hd ((x # r) @ (y # r') @ (zs @ [l_tail l])))
         (hd ((y # r') @ (zs @ [l_tail l]))) (hd (zs @ [l_tail l])) = Some h1"
      "chain h1 (P @ kmerge lt (x # r) (y # r') @ (zs @ [l_tail l]))"
      "agree_off (set (P @ (x # r) @ (y # r') @ (zs @ [l_tail l]))) h h1"
      using chain_inplace_merge [of h P "x # r" "y # r'" "zs @ [l_tail l]" lt]
        c "2.prems"(2) xs ys Cons span_run_sorted [OF rs] span_run_sorted [OF rs'] by auto
    let ?P = "P @ kmerge lt (x # r) (y # r')"
    obtain h2 where h2:
      "list_sort_pass h1 lt l (hd (zs @ [l_tail l])) (cnt + 1) = Some (h2, cnt + 1 + n')"
      "chain h2 (?P @ us' @ [l_tail l])" "agree_off (set (?P @ zs @ [l_tail l])) h1 h2"
      using "2.IH" [OF rs [symmetric] Cons rs' [symmetric], of h1 ?P us' n' "cnt + 1"] h1(2) "2.prems"(2) p'
      by auto
    have "set (kmerge lt (x # r) (y # r')) = set (x # r) \<union> set (y # r')"
      by (metis mset_kmerge set_mset_mset set_mset_union)
    then have "agree_off (set (P @ (x # xs) @ [l_tail l])) h h2"
      using xs ys Cons by (intro agree_off_trans [OF h1(3) h2(3)]) auto
    then show ?thesis
      using run1 run2 h1(1) h2 xt yt Cons res
      by (simp add: list_sort_pass.simps [of h lt l x] list_end_def)
  qed
qed

lemma kpass_mset: "kpass lt xs = (us, n) \<Longrightarrow> mset us = mset xs"
proof (induction lt xs arbitrary: us n rule: kpass.induct)
  case (2 lt x xs)
  then show ?case
    by (auto split: prod.splits list.splits dest!: span_run_append)
qed simp

lemma hd_kmerge: "A \<noteq> [] \<Longrightarrow> B \<noteq> [] \<Longrightarrow> hd (kmerge lt A B) = (if lt (hd B) (hd A) then hd B else hd A)"
  by (cases A; cases B) auto

lemma kmerge_eq_Nil [simp]: "kmerge lt A B = [] \<longleftrightarrow> A = [] \<and> B = []"
  by (cases "(lt, A, B)" rule: kmerge.cases) auto

lemma sorted_adj_kmerge:
  "asymm lt \<Longrightarrow> sorted_adj lt A \<Longrightarrow> sorted_adj lt B \<Longrightarrow> sorted_adj lt (kmerge lt A B)"
proof (induction lt A B rule: kmerge.induct)
  case (1 lt a A b B)
  have "\<not> lt b a \<Longrightarrow> sorted_adj lt (kmerge lt A (b # B))" "lt b a \<Longrightarrow> sorted_adj lt (kmerge lt (a # A) B)"
    using 1 by (auto simp: successively_Cons)
  moreover have "A = [] \<or> \<not> lt (hd A) a" "B = [] \<or> \<not> lt (hd B) b" "lt b a \<Longrightarrow> \<not> lt a b"
    using "1.prems" by (auto simp: successively_Cons asymm_def)
  ultimately show ?case
    by (cases "A = []"; cases "B = []") (auto simp: successively_Cons hd_kmerge)
qed auto

lemma runs_sorted: "sorted_adj lt (x # xs) \<Longrightarrow> runs lt (x # xs) = 1"
  by (induction xs arbitrary: x) auto

lemma runs_append_le: "runs lt (xs @ ys) \<le> runs lt xs + runs lt ys"
proof (induction lt xs rule: runs.induct)
  case (2 lt x)
  then show ?case by (cases ys) auto
qed auto

lemma runs_span: "span_run lt a ys = (r, s) \<Longrightarrow> runs lt (a # ys) = Suc (runs lt s)"
  by (induction lt a ys arbitrary: r s rule: span_run.induct) (auto split: if_splits prod.splits)

lemma kpass_runs:
  "asymm lt \<Longrightarrow> kpass lt xs = (us, n) \<Longrightarrow> runs lt us \<le> n \<and> n = (runs lt xs + 1) div 2"
proof (induction lt xs arbitrary: us n rule: kpass.induct)
  case (2 lt x xs)
  obtain r s where rs: "span_run lt x xs = (r, s)" by fastforce
  show ?case
  proof (cases s)
    case Nil
    then show ?thesis using "2.prems" rs runs_span [OF rs] by auto
  next
    case (Cons y ys)
    obtain r' zs where rs': "span_run lt y ys = (r', zs)" by fastforce
    obtain us' n' where p': "kpass lt zs = (us', n')" by fastforce
    have res: "us = kmerge lt (x # r) (y # r') @ us'" "n = Suc n'"
      using "2.prems"(2) rs Cons rs' p' by auto
    have IH: "runs lt us' \<le> n' \<and> n' = (runs lt zs + 1) div 2"
      using "2.IH" [OF rs [symmetric] Cons rs' [symmetric] "2.prems"(1) p'] .
    have so: "sorted_adj lt (kmerge lt (x # r) (y # r'))"
      using "2.prems"(1) span_run_sorted [OF rs] span_run_sorted [OF rs'] by (rule sorted_adj_kmerge)
    then have "runs lt (kmerge lt (x # r) (y # r')) = 1"
      by (metis kmerge_eq_Nil list.distinct(1) neq_Nil_conv runs_sorted)
    then have "runs lt us \<le> Suc (runs lt us')"
      using runs_append_le [of lt "kmerge lt (x # r) (y # r')" us'] res by simp
    then show ?thesis
      using IH res runs_span [OF rs] runs_span [OF rs'] Cons by auto
  qed
qed auto

lemma runs_le_1_sorted: "runs lt xs \<le> 1 \<Longrightarrow> sorted_adj lt xs"
proof (induction lt xs rule: runs.induct)
  case (1 lt x y ys)
  have "runs lt (y # ys) \<ge> 1" for y ys by (induction ys arbitrary: y) auto
  from this [of y ys] 1 show ?case by (auto split: if_splits)
qed auto

lemma strict_weak_asymm: "strict_weak lt \<Longrightarrow> asymm lt"
  unfolding strict_weak_def asymm_def by blast

lemma sorted_adj_iff: "strict_weak lt \<Longrightarrow> sorted_adj lt xs \<longleftrightarrow> ksorted lt xs"
  by (rule successively_conv_sorted_wrt, rule transpI, rule strict_weak_ntrans)

lemma filter_kmerge:
  "strict_weak lt \<Longrightarrow> ksorted lt A \<Longrightarrow>
     filter (eqv lt k) (kmerge lt A B) = filter (eqv lt k) A @ filter (eqv lt k) B"
proof (induction lt A B rule: kmerge.induct)
  case (1 lt a A b B)
  show ?case
  proof (cases "lt b a")
    case True
    have "filter (eqv lt k) (a # A) = []" if "eqv lt k b"
    proof (rule filter_False, rule ballI)
      fix x assume "x \<in> set (a # A)"
      then have "\<not> lt x a" using "1.prems" strict_weak_asymm [OF "1.prems"(1)] by (auto simp: asymm_def)
      with True have "lt b x" using strict_weak_ntrans [OF "1.prems"(1)] by blast
      with that show "\<not> eqv lt k x" unfolding eqv_def using strict_weak_ntrans [OF "1.prems"(1)] by blast
    qed
    then show ?thesis using True "1.IH"(2) "1.prems" by auto
  qed (use 1 in auto)
qed auto

lemma kpass_stable:
  "strict_weak lt \<Longrightarrow> kpass lt xs = (us, n) \<Longrightarrow> filter (eqv lt k) us = filter (eqv lt k) xs"
proof (induction lt xs arbitrary: us n rule: kpass.induct)
  case (2 lt x xs)
  obtain r s where rs: "span_run lt x xs = (r, s)" by fastforce
  show ?case
  proof (cases s)
    case Nil
    then show ?thesis using "2.prems" rs by auto
  next
    case (Cons y ys)
    obtain r' zs where rs': "span_run lt y ys = (r', zs)" by fastforce
    obtain us' n' where p': "kpass lt zs = (us', n')" by fastforce
    have res: "us = kmerge lt (x # r) (y # r') @ us'"
      using "2.prems"(2) rs Cons rs' p' by auto
    have IH: "filter (eqv lt k) us' = filter (eqv lt k) zs"
      using "2.IH" [OF rs [symmetric] Cons rs' [symmetric] "2.prems"(1) p'] .
    have so: "ksorted lt (x # r)"
      using span_run_sorted [OF rs] sorted_adj_iff [OF "2.prems"(1)] by blast
    have "xs = r @ y # r' @ zs" using span_run_append [OF rs] span_run_append [OF rs'] Cons by simp
    then show ?thesis
      unfolding res filter_append filter_kmerge [OF "2.prems"(1) so] IH by simp
  qed
qed auto

lemma list_sort_loop_dll:
  "strict_weak lt \<Longrightarrow> dll h l xs \<Longrightarrow> \<exists>h' ys. list_sort_loop h lt l = Some h' \<and> dll h' l ys
     \<and> ksorted lt ys \<and> mset ys = mset xs \<and> (\<forall>k. filter (eqv lt k) ys = filter (eqv lt k) xs)
     \<and> agree_off (set (l_head l # xs @ [l_tail l])) h h'"
proof (induction "runs lt xs" arbitrary: h xs rule: less_induct)
  case less
  note sw = less.prems(1)
  obtain us n where p: "kpass lt xs = (us, n)" by fastforce
  obtain h1 where h1: "list_sort_pass h lt l (hd (xs @ [l_tail l])) 0 = Some (h1, n)"
    "dll h1 l us" "agree_off (set (l_head l # xs @ [l_tail l])) h h1"
    using chain_sort_pass [of h "[l_head l]" xs l lt us n 0] less.prems(2) p by (auto simp: dll_def)
  have us: "mset us = mset xs" "\<forall>k. filter (eqv lt k) us = filter (eqv lt k) xs"
    using kpass_mset [OF p] kpass_stable [OF sw p] by auto
  have rn: "runs lt us \<le> n" "n = (runs lt xs + 1) div 2"
    using kpass_runs [OF strict_weak_asymm [OF sw] p] by auto
  have b: "list_begin h l = Some (hd (xs @ [l_tail l]))" using dll_begin [OF less.prems(2)] .
  show ?case
  proof (cases "n > 1")
    case True
    then have "runs lt us < runs lt xs" using rn by arith
    from less.hyps [OF this sw h1(2)] obtain h2 ys where h2: "list_sort_loop h1 lt l = Some h2"
      "dll h2 l ys" "ksorted lt ys" "mset ys = mset us"
      "\<forall>k. filter (eqv lt k) ys = filter (eqv lt k) us"
      "agree_off (set (l_head l # us @ [l_tail l])) h1 h2" by blast
    have "agree_off (set (l_head l # xs @ [l_tail l])) h h2"
      using us(1) by (intro agree_off_trans [OF h1(3) h2(6)]) (auto dest: mset_eq_setD)
    moreover have "list_sort_loop h lt l = Some h2"
      using b h1(1) h2(1) True by (simp add: list_sort_loop.simps [of h lt l])
    ultimately show ?thesis using h2 us by auto
  next
    case False
    then have "ksorted lt us"
      using rn(1) runs_le_1_sorted [of lt us] sorted_adj_iff [OF sw] by simp
    moreover have "list_sort_loop h lt l = Some h1"
      using b h1(1) False by (simp add: list_sort_loop.simps [of h lt l])
    ultimately show ?thesis using h1 us by auto
  qed
qed

lemma list_sort_dll:
  assumes sw: "strict_weak lt" and d: "dll h l xs"
  shows "\<exists>h' ys. list_sort h lt l = Some h' \<and> dll h' l ys
     \<and> ksorted lt ys \<and> mset ys = mset xs \<and> (\<forall>k. filter (eqv lt k) ys = filter (eqv lt k) xs)
     \<and> agree_off (set (l_head l # xs @ [l_tail l])) h h'"
proof -
  obtain h1 ys where h1: "list_sort_loop h lt l = Some h1" "dll h1 l ys" "ksorted lt ys"
    "mset ys = mset xs" "\<forall>k. filter (eqv lt k) ys = filter (eqv lt k) xs"
    "agree_off (set (l_head l # xs @ [l_tail l])) h h1"
    using list_sort_loop_dll [OF assms] by blast
  have "is_sorted h1 lt (hd (ys @ [l_tail l])) (l_tail l) = Some True"
    using chain_is_sorted [of h1 "[l_head l]" ys "l_tail l" "[]"] h1(2,3) sorted_adj_iff [OF sw]
    by (simp add: dll_def)
  then have "list_sort h lt l = Some h1"
    using h1(1) dll_begin [OF h1(2)] by (simp add: list_sort_def list_end_def)
  then show ?thesis using h1 by blast
qed

section \<open>Property\<close>

text \<open>
  C4. \<^verbatim>\<open>list_sort\<close> returns on every well-formed list and every strict weak order,
  its final assertion included. The list then holds the same elements in sorted order,
  equivalent elements keep their relative order (the sort is stable), and no link of any other
  list is changed.
\<close>

theorem list_sort_correct:
  assumes "strict_weak lt" "dll h l xs"
  shows "\<exists>h' ys. list_sort h lt l = Some h' \<and> dll h' l ys \<and> ksorted lt ys \<and> mset ys = mset xs
     \<and> (\<forall>k. filter (eqv lt k) ys = filter (eqv lt k) xs) \<and> agree_off (cells l xs) h h'"
  by (rule list_sort_dll [OF assms])

theorem list_sort_correct_witness:
  "\<exists>h' ys. list_sort ex_heap (\<lambda>a b. b div 2 < a div 2) ex_list = Some h' \<and> dll h' ex_list ys
     \<and> ksorted (\<lambda>a b. b div 2 < a div 2) ys \<and> mset ys = {#3, 4, 5#}
     \<and> filter (eqv (\<lambda>a b. b div 2 < a div 2) 5) ys = [4, 5]"
proof -
  have "strict_weak (\<lambda>(a :: nat) b. b div 2 < a div 2)" by (auto simp: strict_weak_def)
  from list_sort_correct [OF this ex_heap_dll]
  obtain h' ys where r: "list_sort ex_heap (\<lambda>a b. b div 2 < a div 2) ex_list = Some h'" "dll h' ex_list ys"
    "ksorted (\<lambda>a b. b div 2 < a div 2) ys" "mset ys = mset [3, 4, 5]"
    "\<forall>k. filter (eqv (\<lambda>a b. b div 2 < a div 2) k) ys = filter (eqv (\<lambda>a b. b div 2 < a div 2) k) [3, 4, 5]"
    by blast
  have "filter (eqv (\<lambda>a b. b div 2 < a div 2) 5) ys = [4, 5]"
    using spec [OF r(5), of 5] by (simp add: eqv_def)
  then show ?thesis using r by auto
qed

end
