(* ===== verification/Slots.thy ===== *)
theory Slots
  imports Prelude
begin

text \<open>
  The contract of an allocator of runs of numbered slots, which the kernel's page pools, its free
  sector map and its swap table are meant to be clients of: an allocation of \<open>n\<close> slots either fails and
  changes nothing or returns a run of slots none of which was in use, and a release makes the
  run free again. From the contract follows what the clients rely on: over every sequence of allocations
  and releases, the runs that are live at the same time are pairwise disjoint.
\<close>

datatype slot_op = Alloc nat | Release nat

definition run :: "nat \<times> nat \<Rightarrow> nat set" where
  "run r = {fst r..<fst r + snd r}"

text \<open>
  A client that keeps the list of its live runs: \<^term>\<open>Alloc n\<close> asks for \<open>n\<close> slots and records the
  run if it gets one, \<^term>\<open>Release k\<close> gives back its \<open>k\<close>-th live run.
\<close>

fun client_step ::
    "('s \<Rightarrow> nat \<Rightarrow> (nat option \<times> 's) option) \<Rightarrow> ('s \<Rightarrow> nat \<Rightarrow> nat \<Rightarrow> 's option) \<Rightarrow>
     's \<times> (nat \<times> nat) list \<Rightarrow> slot_op \<Rightarrow> (nat option \<times> 's \<times> (nat \<times> nat) list) option" where
  "client_step alloc release (s, live) (Alloc n) = do {
     (r, s) \<leftarrow> alloc s n;
     Some (r, s, (case r of None \<Rightarrow> live | Some i \<Rightarrow> (i, n) # live))
   }"
| "client_step alloc release (s, live) (Release k) =
     (if k < length live then do {
        s \<leftarrow> release s (fst (live ! k)) (snd (live ! k));
        Some (None, s, take k live @ drop (Suc k) live)
      } else Some (None, s, live))"

definition runs_disjoint :: "(nat \<times> nat) list \<Rightarrow> bool" where
  "runs_disjoint live \<longleftrightarrow> sorted_wrt (\<lambda>r r'. run r \<inter> run r' = {}) live"

lemma Diff_union_cancel: "U = A \<union> B \<Longrightarrow> A \<inter> B = {} \<Longrightarrow> U - B = A"
  by blast

locale slots =
  fixes ok :: "'s \<Rightarrow> bool"
    and used :: "'s \<Rightarrow> nat set"
    and limit :: "'s \<Rightarrow> nat"
    and alloc :: "'s \<Rightarrow> nat \<Rightarrow> (nat option \<times> 's) option"
    and release :: "'s \<Rightarrow> nat \<Rightarrow> nat \<Rightarrow> 's option"
  assumes alloc_returns: "ok s \<Longrightarrow> \<exists>r s'. alloc s n = Some (r, s') \<and> ok s' \<and> limit s' = limit s"
    and alloc_none: "ok s \<Longrightarrow> alloc s n = Some (None, s') \<Longrightarrow> used s' = used s"
    and alloc_some: "ok s \<Longrightarrow> alloc s n = Some (Some i, s') \<Longrightarrow>
      i + n \<le> limit s \<and> run (i, n) \<inter> used s = {} \<and> used s' = used s \<union> run (i, n)"
    and release_run: "ok s \<Longrightarrow> i + n \<le> limit s \<Longrightarrow> run (i, n) \<subseteq> used s \<Longrightarrow>
      \<exists>s'. release s i n = Some s' \<and> ok s' \<and> limit s' = limit s \<and> used s' = used s - run (i, n)"
begin

definition client_ok :: "nat set \<Rightarrow> 's \<times> (nat \<times> nat) list \<Rightarrow> bool" where
  "client_ok base sl \<longleftrightarrow> ok (fst sl) \<and> runs_disjoint (snd sl)
     \<and> used (fst sl) = base \<union> (\<Union>r \<in> set (snd sl). run r)
     \<and> (\<forall>r \<in> set (snd sl). run r \<inter> base = {} \<and> fst r + snd r \<le> limit (fst sl))"

lemma step_alloc:
  assumes "client_ok base (s, live)"
  shows "\<exists>r s' live'. client_step alloc release (s, live) (Alloc n) = Some (r, s', live')
    \<and> client_ok base (s', live')"
proof -
  have ok: "ok s" using assms by (simp add: client_ok_def)
  obtain r s' where a: "alloc s n = Some (r, s')" "ok s'" "limit s' = limit s" using alloc_returns [OF ok] by blast
  show ?thesis
  proof (cases r)
    case None
    then show ?thesis using a assms alloc_none [OF ok, of n s'] by (auto simp: client_ok_def)
  next
    case (Some i)
    then have "i + n \<le> limit s" "run (i, n) \<inter> used s = {}" "used s' = used s \<union> run (i, n)"
      using alloc_some [OF ok, of n i s'] a(1) by auto
    moreover from this have "\<forall>q \<in> set live. run (i, n) \<inter> run q = {}" "run (i, n) \<inter> base = {}"
      using assms unfolding client_ok_def fst_conv snd_conv by blast+
    ultimately have "client_ok base (s', (i, n) # live)"
      using a(2,3) assms unfolding client_ok_def runs_disjoint_def by (simp add: Un_ac)
    then show ?thesis using a(1) Some by simp
  qed
qed

lemma step_release:
  assumes c: "client_ok base (s, live)"
  shows "\<exists>r s' live'. client_step alloc release (s, live) (Release k) = Some (r, s', live')
    \<and> client_ok base (s', live')"
proof (cases "k < length live")
  case False
  then show ?thesis using c by simp
next
  case True
  define as r bs where s: "as = take k live" "r = live ! k" "bs = drop (Suc k) live"
  have live: "live = as @ r # bs" using id_take_nth_drop [OF True] s by simp
  have ok: "ok s" and lim: "fst r + snd r \<le> limit s" and sub: "run r \<subseteq> used s"
    using c live by (auto simp: client_ok_def)
  obtain s' where r: "release s (fst r) (snd r) = Some s'" "ok s'" "limit s' = limit s" "used s' = used s - run r"
    using release_run [OF ok lim] sub by auto
  have dis: "\<forall>q \<in> set (as @ bs). run q \<inter> run r = {}" "run r \<inter> base = {}"
    using c live by (simp_all add: client_ok_def runs_disjoint_def sorted_wrt_append ball_Un Int_commute)
  have "used s = base \<union> (\<Union>q \<in> set (as @ bs). run q) \<union> run r"
    using c live by (simp add: client_ok_def Un_ac)
  moreover have "(base \<union> (\<Union>q \<in> set (as @ bs). run q)) \<inter> run r = {}" using dis by auto
  ultimately have "used s' = base \<union> (\<Union>q \<in> set (as @ bs). run q)"
    unfolding r(4) by (rule Diff_union_cancel)
  then have "client_ok base (s', as @ bs)"
    using c live r(2,3) by (simp add: client_ok_def runs_disjoint_def sorted_wrt_append ball_Un)
  then show ?thesis using True r s by simp
qed

lemma client_run:
  "client_ok base (s, live) \<Longrightarrow> 
   \<exists>rs s' live'. run_steps (client_step alloc release) (s, live) ops = Some (rs, s', live')
     \<and> client_ok base (s', live')"
proof (induction ops arbitrary: s live)
  case Nil
  then show ?case by simp
next
  case (Cons op ops)
  obtain r s1 live1 where 1: "client_step alloc release (s, live) op = Some (r, s1, live1)" "client_ok base (s1, live1)"
    using step_alloc [OF Cons.prems] step_release [OF Cons.prems] by (cases op) blast+
  from Cons.IH [OF 1(2)] show ?case using 1(1) by auto
qed

lemma live_runs_disjoint:
  assumes "ok s"
  shows "\<exists>rs s' live. run_steps (client_step alloc release) (s, []) ops = Some (rs, s', live)
    \<and> ok s' \<and> runs_disjoint live \<and> used s' = used s \<union> (\<Union>r \<in> set live. run r)
    \<and> (\<forall>r \<in> set live. run r \<inter> used s = {})"
  using client_run [of "used s" s "[]" ops] assms by (auto simp: client_ok_def runs_disjoint_def)

end

end
