(* ===== verification/Kernel_Bitmap.thy ===== *)
theory Kernel_Bitmap
  imports Prelude Slots
begin

text \<open>
  The bitmap of \<^verbatim>\<open>lib/kernel/bitmap.c\<close>: an array of 32-bit elements that simulates an
  array of bits. Single-bit updates are the masked OR, AND and XOR of the source, an access
  outside the element array stops the kernel, and the loops over bit ranges run in the source's
  order. The bitmap is shown to refine a list of truth values, and to provide a slot allocator.
\<close>

section \<open>Data\<close>

type_synonym elem_type = u32

abbreviation ELEM_BITS :: nat where
  "ELEM_BITS \<equiv> 32"

definition BITMAP_ERROR :: nat where
  "BITMAP_ERROR = 2 ^ 32 - 1"

record bitmap =
  bit_cnt :: nat
  bits :: "elem_type list"

section \<open>Operations\<close>

definition elem_idx :: "nat \<Rightarrow> nat" where
  "elem_idx bit_idx = bit_idx div ELEM_BITS"

definition bit_mask :: "nat \<Rightarrow> elem_type" where
  "bit_mask bit_idx = push_bit (bit_idx mod ELEM_BITS) 1"

definition elem_cnt :: "nat \<Rightarrow> nat" where
  "elem_cnt n = DIV_ROUND_UP n ELEM_BITS"

definition byte_cnt :: "nat \<Rightarrow> nat" where
  "byte_cnt n = size_mul 4 (elem_cnt n)"

definition last_mask :: "bitmap \<Rightarrow> elem_type" where
  "last_mask b =
     (let last_bits = bit_cnt b mod ELEM_BITS in
      if last_bits \<noteq> 0 then push_bit last_bits 1 - 1 else - 1)"

definition bitmap_buf_size :: "nat \<Rightarrow> nat" where
  "bitmap_buf_size n = size_add 8 (byte_cnt n)"

definition bitmap_size :: "bitmap \<Rightarrow> nat" where
  "bitmap_size b = bit_cnt b"

text \<open>The read-modify-write of one element by a bitwise operation.\<close>

definition elem_update :: "bitmap \<Rightarrow> nat \<Rightarrow> (elem_type \<Rightarrow> elem_type) \<Rightarrow> bitmap option" where
  "elem_update b idx f =
     (if idx < length (bits b) then Some (b\<lparr>bits := (bits b)[idx := f (bits b ! idx)]\<rparr>) else None)"

definition bitmap_mark :: "bitmap \<Rightarrow> nat \<Rightarrow> bitmap option" where
  "bitmap_mark b bit_idx = elem_update b (elem_idx bit_idx) (\<lambda>w. w OR bit_mask bit_idx)"

definition bitmap_reset :: "bitmap \<Rightarrow> nat \<Rightarrow> bitmap option" where
  "bitmap_reset b bit_idx = elem_update b (elem_idx bit_idx) (\<lambda>w. w AND NOT (bit_mask bit_idx))"

definition bitmap_flip :: "bitmap \<Rightarrow> nat \<Rightarrow> bitmap option" where
  "bitmap_flip b bit_idx = elem_update b (elem_idx bit_idx) (\<lambda>w. w XOR bit_mask bit_idx)"

definition bitmap_set :: "bitmap \<Rightarrow> nat \<Rightarrow> bool \<Rightarrow> bitmap option" where
  "bitmap_set b idx value = do {
     kassert (idx < bit_cnt b);
     if value then bitmap_mark b idx else bitmap_reset b idx
   }"

definition bitmap_test :: "bitmap \<Rightarrow> nat \<Rightarrow> bool option" where
  "bitmap_test b idx = do {
     kassert (idx < bit_cnt b);
     kassert (elem_idx idx < length (bits b));
     Some (bits b ! elem_idx idx AND bit_mask idx \<noteq> 0)
   }"

function bitmap_set_loop :: "bitmap \<Rightarrow> nat \<Rightarrow> nat \<Rightarrow> bool \<Rightarrow> nat \<Rightarrow> bitmap option" where
  "bitmap_set_loop b start cnt value i =
     (if i < cnt then do {
        b \<leftarrow> bitmap_set b (size_add start i) value;
        bitmap_set_loop b start cnt value (i + 1)
      } else Some b)"
  by pat_completeness auto
termination by (relation "measure (\<lambda>(b, start, cnt, value, i). cnt - i)") auto

declare bitmap_set_loop.simps [simp del]

definition bitmap_set_multiple :: "bitmap \<Rightarrow> nat \<Rightarrow> nat \<Rightarrow> bool \<Rightarrow> bitmap option" where
  "bitmap_set_multiple b start cnt value = do {
     kassert (start \<le> bit_cnt b);
     kassert (size_add start cnt \<le> bit_cnt b);
     bitmap_set_loop b start cnt value 0
   }"

definition bitmap_set_all :: "bitmap \<Rightarrow> bool \<Rightarrow> bitmap option" where
  "bitmap_set_all b value = bitmap_set_multiple b 0 (bitmap_size b) value"

text \<open>
  \<^verbatim>\<open>bitmap_create\<close>: \<open>mb\<close> says whether the allocation of the structure succeeds,
  \<open>raw\<close> is the memory the second allocation returns, with its old contents. A null result is
  \<^term>\<open>Some None\<close>.
\<close>

definition bitmap_create :: "bool \<Rightarrow> elem_type list option \<Rightarrow> nat \<Rightarrow> bitmap option option" where
  "bitmap_create mb raw n =
     (if \<not> mb then Some None
      else case raw of
        Some ws \<Rightarrow> do { b \<leftarrow> bitmap_set_all \<lparr>bit_cnt = n, bits = ws\<rparr> False; Some (Some b) }
      | None \<Rightarrow>
          if n = 0 then do { b \<leftarrow> bitmap_set_all \<lparr>bit_cnt = n, bits = []\<rparr> False; Some (Some b) }
          else Some None)"

text \<open>\<^verbatim>\<open>bitmap_create_in_buf\<close>: \<open>ws\<close> is the storage that follows the structure in the block.\<close>

definition bitmap_create_in_buf :: "nat \<Rightarrow> elem_type list \<Rightarrow> nat \<Rightarrow> bitmap option" where
  "bitmap_create_in_buf n ws block_size = do {
     kassert (block_size \<ge> bitmap_buf_size n);
     bitmap_set_all \<lparr>bit_cnt = n, bits = ws\<rparr> False
   }"

function bitmap_count_loop :: "bitmap \<Rightarrow> nat \<Rightarrow> nat \<Rightarrow> bool \<Rightarrow> nat \<Rightarrow> nat \<Rightarrow> nat option" where
  "bitmap_count_loop b start cnt value i value_cnt =
     (if i < cnt then do {
        v \<leftarrow> bitmap_test b (size_add start i);
        bitmap_count_loop b start cnt value (i + 1) (if v = value then value_cnt + 1 else value_cnt)
      } else Some value_cnt)"
  by pat_completeness auto
termination by (relation "measure (\<lambda>(b, start, cnt, value, i, n). cnt - i)") auto

declare bitmap_count_loop.simps [simp del]

definition bitmap_count :: "bitmap \<Rightarrow> nat \<Rightarrow> nat \<Rightarrow> bool \<Rightarrow> nat option" where
  "bitmap_count b start cnt value = do {
     kassert (start \<le> bit_cnt b);
     kassert (size_add start cnt \<le> bit_cnt b);
     bitmap_count_loop b start cnt value 0 0
   }"

function bitmap_contains_loop :: "bitmap \<Rightarrow> nat \<Rightarrow> nat \<Rightarrow> bool \<Rightarrow> nat \<Rightarrow> bool option" where
  "bitmap_contains_loop b start cnt value i =
     (if i < cnt then do {
        v \<leftarrow> bitmap_test b (size_add start i);
        if v = value then Some True else bitmap_contains_loop b start cnt value (i + 1)
      } else Some False)"
  by pat_completeness auto
termination by (relation "measure (\<lambda>(b, start, cnt, value, i). cnt - i)") auto

declare bitmap_contains_loop.simps [simp del]

definition bitmap_contains :: "bitmap \<Rightarrow> nat \<Rightarrow> nat \<Rightarrow> bool \<Rightarrow> bool option" where
  "bitmap_contains b start cnt value = do {
     kassert (start \<le> bit_cnt b);
     kassert (size_add start cnt \<le> bit_cnt b);
     bitmap_contains_loop b start cnt value 0
   }"

definition bitmap_any :: "bitmap \<Rightarrow> nat \<Rightarrow> nat \<Rightarrow> bool option" where
  "bitmap_any b start cnt = bitmap_contains b start cnt True"

definition bitmap_none :: "bitmap \<Rightarrow> nat \<Rightarrow> nat \<Rightarrow> bool option" where
  "bitmap_none b start cnt = do { c \<leftarrow> bitmap_contains b start cnt True; Some (\<not> c) }"

definition bitmap_all :: "bitmap \<Rightarrow> nat \<Rightarrow> nat \<Rightarrow> bool option" where
  "bitmap_all b start cnt = do { c \<leftarrow> bitmap_contains b start cnt False; Some (\<not> c) }"

function bitmap_scan_loop :: "bitmap \<Rightarrow> nat \<Rightarrow> bool \<Rightarrow> nat \<Rightarrow> nat \<Rightarrow> nat option" where
  "bitmap_scan_loop b cnt value lst i =
     (if i \<le> lst then do {
        c \<leftarrow> bitmap_contains b i cnt (\<not> value);
        if \<not> c then Some i else bitmap_scan_loop b cnt value lst (i + 1)
      } else Some BITMAP_ERROR)"
  by pat_completeness auto
termination by (relation "measure (\<lambda>(b, cnt, value, lst, i). Suc lst - i)") auto

declare bitmap_scan_loop.simps [simp del]

definition bitmap_scan :: "bitmap \<Rightarrow> nat \<Rightarrow> nat \<Rightarrow> bool \<Rightarrow> nat option" where
  "bitmap_scan b start cnt value = do {
     kassert (start \<le> bit_cnt b);
     if cnt \<le> bit_cnt b then bitmap_scan_loop b cnt value (bit_cnt b - cnt) start
     else Some BITMAP_ERROR
   }"

definition bitmap_scan_and_flip :: "bitmap \<Rightarrow> nat \<Rightarrow> nat \<Rightarrow> bool \<Rightarrow> (nat \<times> bitmap) option" where
  "bitmap_scan_and_flip b start cnt value = do {
     idx \<leftarrow> bitmap_scan b start cnt value;
     if idx \<noteq> BITMAP_ERROR then do {
       b \<leftarrow> bitmap_set_multiple b idx cnt (\<not> value);
       Some (idx, b)
     } else Some (idx, b)
   }"

text \<open>
  The byte image of the element array, little-endian, and its inverse: what
  \<^verbatim>\<open>bitmap_write\<close> hands to the file and \<^verbatim>\<open>bitmap_read\<close> gets from it.
\<close>

definition elem_bytes :: "elem_type \<Rightarrow> byte list" where
  "elem_bytes w = [ucast w, ucast (drop_bit 8 w), ucast (drop_bit 16 w), ucast (drop_bit 24 w)]"

definition bytes_elem :: "byte list \<Rightarrow> elem_type" where
  "bytes_elem bs = ucast (bs ! 0) OR push_bit 8 (ucast (bs ! 1)) OR push_bit 16 (ucast (bs ! 2))
     OR push_bit 24 (ucast (bs ! 3))"

fun bytes_elems :: "byte list \<Rightarrow> elem_type list" where
  "bytes_elems (a # b # c # d # bs) = bytes_elem [a, b, c, d] # bytes_elems bs"
| "bytes_elems _ = []"

definition bitmap_file_size :: "bitmap \<Rightarrow> nat" where
  "bitmap_file_size b = byte_cnt (bit_cnt b)"

section \<open>Specification\<close>

definition bit_at :: "bitmap \<Rightarrow> nat \<Rightarrow> bool" where
  "bit_at b i = bit (bits b ! (i div ELEM_BITS)) (i mod ELEM_BITS)"

text \<open>The bits as a list, and the representation invariant: enough elements for \<^verbatim>\<open>bit_cnt\<close> bits.\<close>

definition bits_of :: "bitmap \<Rightarrow> bool list" where
  "bits_of b = map (bit_at b) [0..<bit_cnt b]"

definition bitmap_ok :: "bitmap \<Rightarrow> bool" where
  "bitmap_ok b \<longleftrightarrow> bit_cnt b + ELEM_BITS < 2 ^ 32 \<and> length (bits b) = elem_cnt (bit_cnt b)"

text \<open>What setting a range and scanning for a group are on lists.\<close>

definition fill :: "nat \<Rightarrow> nat \<Rightarrow> 'a \<Rightarrow> 'a list \<Rightarrow> 'a list" where
  "fill s n v xs = take s xs @ replicate n v @ drop (s + n) xs"

definition find_run :: "nat \<Rightarrow> nat \<Rightarrow> bool \<Rightarrow> bool list \<Rightarrow> nat option" where
  "find_run s n v xs = find (\<lambda>i. (\<not> v) \<notin> set (take n (drop i xs))) [s..<Suc (length xs) - n]"

text \<open>The operations as a step function, on the bitmap and on lists of truth values.\<close>

datatype bitmap_op =
    BMark nat | BReset nat | BFlip nat | BSet nat bool | BTest nat
  | BSetMultiple nat nat bool | BSetAll bool | BCount nat nat bool | BContains nat nat bool
  | BAny nat nat | BNone nat nat | BAll nat nat | BScan nat nat bool | BScanFlip nat nat bool

fun bitmap_step :: "bitmap \<Rightarrow> bitmap_op \<Rightarrow> (nat \<times> bitmap) option" where
  "bitmap_step b (BMark i) = do { b \<leftarrow> bitmap_mark b i; Some (0, b) }"
| "bitmap_step b (BReset i) = do { b \<leftarrow> bitmap_reset b i; Some (0, b) }"
| "bitmap_step b (BFlip i) = do { b \<leftarrow> bitmap_flip b i; Some (0, b) }"
| "bitmap_step b (BSet i v) = do { b \<leftarrow> bitmap_set b i v; Some (0, b) }"
| "bitmap_step b (BTest i) = do { r \<leftarrow> bitmap_test b i; Some (of_bool r, b) }"
| "bitmap_step b (BSetMultiple s n v) = do { b \<leftarrow> bitmap_set_multiple b s n v; Some (0, b) }"
| "bitmap_step b (BSetAll v) = do { b \<leftarrow> bitmap_set_all b v; Some (0, b) }"
| "bitmap_step b (BCount s n v) = do { r \<leftarrow> bitmap_count b s n v; Some (r, b) }"
| "bitmap_step b (BContains s n v) = do { r \<leftarrow> bitmap_contains b s n v; Some (of_bool r, b) }"
| "bitmap_step b (BAny s n) = do { r \<leftarrow> bitmap_any b s n; Some (of_bool r, b) }"
| "bitmap_step b (BNone s n) = do { r \<leftarrow> bitmap_none b s n; Some (of_bool r, b) }"
| "bitmap_step b (BAll s n) = do { r \<leftarrow> bitmap_all b s n; Some (of_bool r, b) }"
| "bitmap_step b (BScan s n v) = do { r \<leftarrow> bitmap_scan b s n v; Some (r, b) }"
| "bitmap_step b (BScanFlip s n v) = bitmap_scan_and_flip b s n v"

abbreviation segment :: "nat \<Rightarrow> nat \<Rightarrow> 'a list \<Rightarrow> 'a list" where
  "segment s n xs \<equiv> take n (drop s xs)"

fun bools_step :: "bool list \<Rightarrow> bitmap_op \<Rightarrow> (nat \<times> bool list) option" where
  "bools_step xs (BMark i) = (if i < length xs then Some (0, xs[i := True]) else None)"
| "bools_step xs (BReset i) = (if i < length xs then Some (0, xs[i := False]) else None)"
| "bools_step xs (BFlip i) = (if i < length xs then Some (0, xs[i := \<not> xs ! i]) else None)"
| "bools_step xs (BSet i v) = (if i < length xs then Some (0, xs[i := v]) else None)"
| "bools_step xs (BTest i) = (if i < length xs then Some (of_bool (xs ! i), xs) else None)"
| "bools_step xs (BSetMultiple s n v) = (if s + n \<le> length xs then Some (0, fill s n v xs) else None)"
| "bools_step xs (BSetAll v) = Some (0, replicate (length xs) v)"
| "bools_step xs (BCount s n v) =
     (if s + n \<le> length xs then Some (count_list (segment s n xs) v, xs) else None)"
| "bools_step xs (BContains s n v) =
     (if s + n \<le> length xs then Some (of_bool (v \<in> set (segment s n xs)), xs) else None)"
| "bools_step xs (BAny s n) =
     (if s + n \<le> length xs then Some (of_bool (list_ex id (segment s n xs)), xs) else None)"
| "bools_step xs (BNone s n) =
     (if s + n \<le> length xs then Some (of_bool (\<not> list_ex id (segment s n xs)), xs) else None)"
| "bools_step xs (BAll s n) =
     (if s + n \<le> length xs then Some (of_bool (list_all id (segment s n xs)), xs) else None)"
| "bools_step xs (BScan s n v) =
     (if s \<le> length xs then Some (case find_run s n v xs of Some j \<Rightarrow> j | None \<Rightarrow> BITMAP_ERROR, xs) else None)"
| "bools_step xs (BScanFlip s n v) =
     (if s \<le> length xs then Some (case find_run s n v xs of
         Some j \<Rightarrow> (j, fill j n (\<not> v) xs) | None \<Rightarrow> (BITMAP_ERROR, xs)) else None)"

definition bitmap_rel :: "bitmap \<Rightarrow> bool list \<Rightarrow> bool" where
  "bitmap_rel b xs \<longleftrightarrow> bitmap_ok b \<and> bits_of b = xs"

text \<open>\<^verbatim>\<open>cnt\<close> consecutive bits from \<open>i\<close> on that all have the value \<open>v\<close>.\<close>

definition bit_group :: "bitmap \<Rightarrow> nat \<Rightarrow> bool \<Rightarrow> nat \<Rightarrow> bool" where
  "bit_group b cnt v i \<longleftrightarrow> i + cnt \<le> bit_cnt b \<and> (\<forall>k < cnt. bits_of b ! (i + k) = v)"

text \<open>The bitmap as a slot allocator, the way the kernel's allocators use it.\<close>

definition bitmap_used :: "bitmap \<Rightarrow> nat set" where
  "bitmap_used b = {i. i < bit_cnt b \<and> bits_of b ! i}"

definition bitmap_take :: "bitmap \<Rightarrow> nat \<Rightarrow> (nat option \<times> bitmap) option" where
  "bitmap_take b n = do {
     (i, b) \<leftarrow> bitmap_scan_and_flip b 0 n False;
     Some (if i = BITMAP_ERROR then None else Some i, b)
   }"

definition bitmap_give :: "bitmap \<Rightarrow> nat \<Rightarrow> nat \<Rightarrow> bitmap option" where
  "bitmap_give b i n = bitmap_set_multiple b i n False"

section \<open>Lemmas\<close>

lemma bits_of_length [simp]: "length (bits_of b) = bit_cnt b"
  by (simp add: bits_of_def)

lemma bits_of_nth [simp]: "i < bit_cnt b \<Longrightarrow> bits_of b ! i = bit_at b i"
  by (simp add: bits_of_def)

lemma bitmap_ok_idx:
  assumes "bitmap_ok b" "i < bit_cnt b"
  shows "elem_idx i < length (bits b)"
proof -
  have "length (bits b) = (bit_cnt b + 31) div 32"
    using assms(1) DIV_ROUND_UP_small [of ELEM_BITS "bit_cnt b"] by (simp add: bitmap_ok_def elem_cnt_def)
  then show ?thesis using assms(2) by (simp add: elem_idx_def)
qed

lemma div_mod_eq: "i div n = j div n \<Longrightarrow> i mod n = j mod n \<Longrightarrow> i = (j :: nat)"
  by (metis div_mult_mod_eq)

lemma elem_update_bits:
  assumes ok: "bitmap_ok b" and i: "i < bit_cnt b"
    and f: "\<And>w k. k < 32 \<Longrightarrow> bit (f w) k = (if k = i mod ELEM_BITS then g (bit w k) else bit w k)"
  shows "\<exists>b'. elem_update b (elem_idx i) f = Some b' \<and> bitmap_ok b' \<and> bit_cnt b' = bit_cnt b
    \<and> bits_of b' = (bits_of b)[i := g (bits_of b ! i)]"
proof -
  let ?b = "b\<lparr>bits := (bits b)[elem_idx i := f (bits b ! elem_idx i)]\<rparr>"
  have "elem_update b (elem_idx i) f = Some ?b"
    using bitmap_ok_idx [OF ok i] by (simp add: elem_update_def)
  moreover have "bitmap_ok ?b" using ok by (simp add: bitmap_ok_def)
  moreover have "bits_of ?b = (bits_of b)[i := g (bits_of b ! i)]"
  proof (rule nth_equalityI)
    fix j
    assume "j < length (bits_of ?b)"
    then have j: "j < bit_cnt b" by simp
    have "bit_at ?b j = (if j = i then g (bit_at b i) else bit_at b j)"
    proof (cases "j div 32 = i div 32")
      case True
      then have "i div 32 < length (bits b)" using bitmap_ok_idx [OF ok i] by (simp add: elem_idx_def)
      then show ?thesis using True div_mod_eq [of j 32 i] f [of "j mod 32" "bits b ! (i div 32)"]
        by (auto simp: bit_at_def elem_idx_def)
    next
      case False
      then show ?thesis by (auto simp: bit_at_def elem_idx_def)
    qed
    then show "bits_of ?b ! j = (bits_of b)[i := g (bits_of b ! i)] ! j"
      using i j by (simp add: nth_list_update)
  qed simp
  ultimately show ?thesis by auto
qed

lemma bit_mask_bit: "k < 32 \<Longrightarrow> bit (bit_mask i) k \<longleftrightarrow> k = i mod ELEM_BITS"
  by (auto simp: bit_mask_def bit_simps)

lemma bitmap_mark_bits:
  assumes "bitmap_ok b" "i < bit_cnt b"
  shows "\<exists>b'. bitmap_mark b i = Some b' \<and> bitmap_ok b' \<and> bit_cnt b' = bit_cnt b \<and> bits_of b' = (bits_of b)[i := True]"
  unfolding bitmap_mark_def
  by (rule elem_update_bits [OF assms, where g = "\<lambda>_. True"]) (auto simp: bit_or_iff bit_mask_bit)

lemma bitmap_reset_bits:
  assumes "bitmap_ok b" "i < bit_cnt b"
  shows "\<exists>b'. bitmap_reset b i = Some b' \<and> bitmap_ok b' \<and> bit_cnt b' = bit_cnt b \<and> bits_of b' = (bits_of b)[i := False]"
  unfolding bitmap_reset_def
  by (rule elem_update_bits [OF assms, where g = "\<lambda>_. False"]) (auto simp: bit_and_iff bit_not_iff bit_mask_bit)

lemma bitmap_flip_bits:
  assumes "bitmap_ok b" "i < bit_cnt b"
  shows "\<exists>b'. bitmap_flip b i = Some b' \<and> bitmap_ok b' \<and> bit_cnt b' = bit_cnt b
    \<and> bits_of b' = (bits_of b)[i := \<not> bits_of b ! i]"
  unfolding bitmap_flip_def
  by (rule elem_update_bits [OF assms, where g = Not]) (auto simp: bit_xor_iff bit_mask_bit)

lemma bitmap_set_bits:
  assumes "bitmap_ok b" "i < bit_cnt b"
  shows "\<exists>b'. bitmap_set b i v = Some b' \<and> bitmap_ok b' \<and> bit_cnt b' = bit_cnt b \<and> bits_of b' = (bits_of b)[i := v]"
  using bitmap_mark_bits [OF assms] bitmap_reset_bits [OF assms] assms(2)
  by (cases v) (simp_all add: bitmap_set_def)

lemma bitmap_test_bits:
  assumes "bitmap_ok b" "i < bit_cnt b"
  shows "bitmap_test b i = Some (bits_of b ! i)"
proof -
  have "(w AND bit_mask i \<noteq> 0) = bit w (i mod 32)" for w :: u32
    by (simp add: bit_mask_def push_bit_of_1 and_exp_eq_0_iff_not_bit)
  then show ?thesis
    using assms bitmap_ok_idx [OF assms] by (simp add: bitmap_test_def bit_at_def elem_idx_def)
qed

lemma bitmap_ok_small: "bitmap_ok b \<Longrightarrow> bit_cnt b < 2 ^ 32 - 32"
  by (simp add: bitmap_ok_def)

lemma fill_Suc: "s < length xs \<Longrightarrow> fill (Suc s) n v (xs[s := v]) = fill s (Suc n) v xs"
  by (simp add: fill_def take_Suc_conv_app_nth)

lemma fill_length [simp]: "s + n \<le> length xs \<Longrightarrow> length (fill s n v xs) = length xs"
  by (simp add: fill_def)

lemma fill_nth: 
  "s + n \<le> length xs \<Longrightarrow> j < length xs \<Longrightarrow> fill s n v xs ! j = (if s \<le> j \<and> j < s + n then v else xs ! j)"
  by (auto simp: fill_def nth_append)

lemma bitmap_set_loop_bits:
  "bitmap_ok b \<Longrightarrow> start + cnt \<le> bit_cnt b \<Longrightarrow> i \<le> cnt \<Longrightarrow>
   \<exists>b'. bitmap_set_loop b start cnt v i = Some b' \<and> bitmap_ok b' \<and> bit_cnt b' = bit_cnt b
      \<and> bits_of b' = fill (start + i) (cnt - i) v (bits_of b)"
proof (induction "cnt - i" arbitrary: b i)
  case 0
  then show ?case by (simp add: bitmap_set_loop.simps [of b] fill_def)
next
  case (Suc n)
  have lt: "i < cnt" "start + i < bit_cnt b" using Suc by linarith+
  then have "start + i < 2 ^ 32" using bitmap_ok_small [OF Suc.prems(1)] by simp
  then have sa: "size_add start i = start + i" by simp
  obtain b1 where b1: "bitmap_set b (start + i) v = Some b1" "bitmap_ok b1" "bit_cnt b1 = bit_cnt b"
    "bits_of b1 = (bits_of b)[start + i := v]" using bitmap_set_bits [OF Suc.prems(1) lt(2)] by blast
  have "fill (start + (i + 1)) (cnt - (i + 1)) v (bits_of b1) = fill (start + i) (cnt - i) v (bits_of b)"
    using fill_Suc [of "start + i" "bits_of b" "cnt - (i + 1)" v] lt b1(4) by (simp add: Suc_diff_Suc)
  then show ?case
    using Suc.hyps(1) [of "i + 1" b1] Suc.hyps(2) Suc.prems lt b1
    by (simp add: bitmap_set_loop.simps [of b] sa)
qed

lemma bitmap_set_multiple_bits:
  assumes "bitmap_ok b" "start + cnt \<le> bit_cnt b"
  shows "\<exists>b'. bitmap_set_multiple b start cnt v = Some b' \<and> bitmap_ok b' \<and> bit_cnt b' = bit_cnt b
      \<and> bits_of b' = fill start cnt v (bits_of b)"
  using bitmap_set_loop_bits [OF assms, of 0 v] assms bitmap_ok_small [OF assms(1)]
  by (simp add: bitmap_set_multiple_def)

lemma bitmap_set_all_bits:
  assumes "bitmap_ok b"
  shows "\<exists>b'. bitmap_set_all b v = Some b' \<and> bitmap_ok b' \<and> bit_cnt b' = bit_cnt b
      \<and> bits_of b' = replicate (bit_cnt b) v"
  using bitmap_set_multiple_bits [OF assms, of 0 "bit_cnt b" v]
  by (simp add: bitmap_set_all_def bitmap_size_def fill_def)

lemma take_drop_step:
  assumes "i < n" "s + i < length xs"
  shows "take (n - i) (drop (s + i) xs) = xs ! (s + i) # take (n - (i + 1)) (drop (s + (i + 1)) xs)"
proof -
  have "n - i = Suc (n - (i + 1))" using assms(1) by simp
  then show ?thesis using assms(2) by (simp add: Cons_nth_drop_Suc [symmetric])
qed

lemma bitmap_count_loop_bits:
  "bitmap_ok b \<Longrightarrow> start + cnt \<le> bit_cnt b \<Longrightarrow> i \<le> cnt \<Longrightarrow>
   bitmap_count_loop b start cnt v i n =
     Some (n + count_list (take (cnt - i) (drop (start + i) (bits_of b))) v)"
proof (induction "cnt - i" arbitrary: i n)
  case 0
  then show ?case by (simp add: bitmap_count_loop.simps [of b])
next
  case (Suc m)
  have lt: "i < cnt" "start + i < bit_cnt b" using Suc by linarith+
  then have "start + i < 2 ^ 32" using bitmap_ok_small [OF Suc.prems(1)] by simp
  then have sa: "size_add start i = start + i" by simp
  show ?case
    using take_drop_step [of i cnt start "bits_of b"] Suc.hyps(1) [of "i + 1"] Suc.hyps(2) Suc.prems lt bitmap_test_bits [OF Suc.prems(1) lt(2)]
    by (simp add: bitmap_count_loop.simps [of b] sa)
qed

lemma bitmap_count_bits:
  assumes "bitmap_ok b" "start + cnt \<le> bit_cnt b"
  shows "bitmap_count b start cnt v = Some (count_list (take cnt (drop start (bits_of b))) v)"
  using bitmap_count_loop_bits [OF assms, of 0 v 0] assms bitmap_ok_small [OF assms(1)]
  by (simp add: bitmap_count_def)

lemma bitmap_contains_loop_bits:
  "bitmap_ok b \<Longrightarrow> start + cnt \<le> bit_cnt b \<Longrightarrow> i \<le> cnt \<Longrightarrow>
   bitmap_contains_loop b start cnt v i =
     Some (v \<in> set (take (cnt - i) (drop (start + i) (bits_of b))))"
proof (induction "cnt - i" arbitrary: i)
  case 0
  then show ?case by (simp add: bitmap_contains_loop.simps [of b])
next
  case (Suc m)
  have lt: "i < cnt" "start + i < bit_cnt b" using Suc by linarith+
  then have "start + i < 2 ^ 32" using bitmap_ok_small [OF Suc.prems(1)] by simp
  then have sa: "size_add start i = start + i" by simp
  show ?case
    using take_drop_step [of i cnt start "bits_of b"] Suc.hyps(1) [of "i + 1"] Suc.hyps(2) Suc.prems lt bitmap_test_bits [OF Suc.prems(1) lt(2)]
    by (auto simp: bitmap_contains_loop.simps [of b] sa)
qed

lemma bitmap_contains_bits:
  assumes "bitmap_ok b" "start + cnt \<le> bit_cnt b"
  shows "bitmap_contains b start cnt v = Some (v \<in> set (take cnt (drop start (bits_of b))))"
  using bitmap_contains_loop_bits [OF assms, of 0 v] assms bitmap_ok_small [OF assms(1)]
  by (simp add: bitmap_contains_def)

lemma bitmap_scan_loop_bits:
  assumes ok: "bitmap_ok b" and cnt: "cnt \<le> bit_cnt b"
  shows "bitmap_scan_loop b cnt v (bit_cnt b - cnt) i =
     Some (case find_run i cnt v (bits_of b) of Some j \<Rightarrow> j | None \<Rightarrow> BITMAP_ERROR)"
proof (induction "Suc (bit_cnt b - cnt) - i" arbitrary: i)
  case 0
  then have "Suc (bit_cnt b) - cnt \<le> i" by linarith
  then show ?case using 0 by (simp add: bitmap_scan_loop.simps [of b] find_run_def)
next
  case (Suc n)
  have lt: "i < Suc (bit_cnt b) - cnt" "i + cnt \<le> bit_cnt b" "i \<le> bit_cnt b - cnt" using Suc cnt by linarith+
  then have u: "[i..<Suc (bit_cnt b) - cnt] = i # [i + 1..<Suc (bit_cnt b) - cnt]"
    by (simp add: upt_conv_Cons)
  show ?case using Suc.hyps(1) [of "i + 1"] Suc.hyps(2) lt bitmap_contains_bits [OF ok lt(2)] u
    by (simp add: bitmap_scan_loop.simps [of b] find_run_def)
qed

lemma bitmap_scan_bits:
  assumes "bitmap_ok b" "start \<le> bit_cnt b"
  shows "bitmap_scan b start cnt v =
     Some (case find_run start cnt v (bits_of b) of Some j \<Rightarrow> j | None \<Rightarrow> BITMAP_ERROR)"
  using assms bitmap_scan_loop_bits [OF assms(1), of cnt v start]
  by (simp add: bitmap_scan_def find_run_def)

lemma find_run_SomeD:
  assumes "find_run s n v xs = Some j"
  shows "s \<le> j" "j + n \<le> length xs" "(\<not> v) \<notin> set (take n (drop j xs))"
    "\<forall>i. s \<le> i \<and> i < j \<longrightarrow> (\<not> v) \<in> set (take n (drop i xs))"
proof -
  let ?P = "\<lambda>i. (\<not> v) \<notin> set (take n (drop i xs))" and ?r = "[s..<Suc (length xs) - n]"
  obtain k where k: "k < length ?r" "?P (?r ! k)" "j = ?r ! k" "\<forall>m < k. \<not> ?P (?r ! m)"
    using assms unfolding find_run_def find_Some_iff by auto
  show "s \<le> j" "j + n \<le> length xs" "?P j" using k by auto
  show "\<forall>i. s \<le> i \<and> i < j \<longrightarrow> (\<not> v) \<in> set (take n (drop i xs))"
  proof (intro allI impI)
    fix i assume i: "s \<le> i \<and> i < j"
    then have "?r ! (i - s) = i" "i - s < k" using k(1,3) by auto
    then show "(\<not> v) \<in> set (take n (drop i xs))" using k(4) by auto
  qed
qed

lemma find_run_NoneD:
  "find_run s n v xs = None \<Longrightarrow> s \<le> i \<Longrightarrow> i + n \<le> length xs \<Longrightarrow> (\<not> v) \<in> set (take n (drop i xs))"
  by (auto simp: find_run_def find_None_iff)

lemma bitmap_scan_and_flip_bits:
  assumes "bitmap_ok b" "start \<le> bit_cnt b"
  shows "\<exists>b'. bitmap_scan_and_flip b start cnt v =
       Some (case find_run start cnt v (bits_of b) of Some j \<Rightarrow> j | None \<Rightarrow> BITMAP_ERROR, b')
     \<and> bitmap_ok b' \<and> bit_cnt b' = bit_cnt b
     \<and> bits_of b' = (case find_run start cnt v (bits_of b) of Some j \<Rightarrow> fill j cnt (\<not> v) (bits_of b) | None \<Rightarrow> bits_of b)"
proof (cases "find_run start cnt v (bits_of b)")
  case None
  then show ?thesis using bitmap_scan_bits [OF assms, of cnt v] assms by (simp add: bitmap_scan_and_flip_def)
next
  case (Some j)
  have j: "j + cnt \<le> bit_cnt b" using find_run_SomeD(2) [OF Some] by simp
  then have "j \<noteq> BITMAP_ERROR" using bitmap_ok_small [OF assms(1)] by (simp add: BITMAP_ERROR_def)
  then show ?thesis using Some bitmap_scan_bits [OF assms, of cnt v] bitmap_set_multiple_bits [OF assms(1) j, of "\<not> v"]
    by (auto simp: bitmap_scan_and_flip_def)
qed

lemma all_true_iff: "list_all id xs \<longleftrightarrow> False \<notin> set xs"
  by (induction xs) auto

lemma bitmap_sim:
  assumes r: "bitmap_rel b xs" and a: "bools_step xs op = Some (r, ys)"
  shows "\<exists>b'. bitmap_step b op = Some (r, b') \<and> bitmap_rel b' ys"
proof -
  have ok: "bitmap_ok b" and xs: "xs = bits_of b" using r by (auto simp: bitmap_rel_def)
  note cont = bitmap_contains_bits [OF ok]
  show ?thesis
  proof (cases op)
    case (BMark i)
    then show ?thesis using a xs bitmap_mark_bits [OF ok, of i] by (auto simp: bitmap_rel_def split: if_splits)
  next
    case (BReset i)
    then show ?thesis using a xs bitmap_reset_bits [OF ok, of i] by (auto simp: bitmap_rel_def split: if_splits)
  next
    case (BFlip i)
    then show ?thesis using a xs bitmap_flip_bits [OF ok, of i] by (auto simp: bitmap_rel_def split: if_splits)
  next
    case (BSet i v)
    then show ?thesis using a xs bitmap_set_bits [OF ok, of i v] by (auto simp: bitmap_rel_def split: if_splits)
  next
    case (BTest i)
    then show ?thesis using a xs ok bitmap_test_bits [OF ok, of i] by (auto simp: bitmap_rel_def split: if_splits)
  next
    case (BSetMultiple s n v)
    then show ?thesis using a xs bitmap_set_multiple_bits [OF ok, of s n v]
      by (auto simp: bitmap_rel_def split: if_splits)
  next
    case (BSetAll v)
    then show ?thesis using a xs bitmap_set_all_bits [OF ok, of v] by (auto simp: bitmap_rel_def)
  next
    case (BCount s n v)
    then show ?thesis using a xs ok bitmap_count_bits [OF ok, of s n v]
      by (auto simp: bitmap_rel_def split: if_splits)
  next
    case (BContains s n v)
    then show ?thesis using a xs ok cont [of s n v] by (auto simp: bitmap_rel_def split: if_splits)
  next
    case (BAny s n)
    then show ?thesis using a xs ok cont [of s n True]
      by (auto simp: bitmap_rel_def bitmap_any_def list_ex_iff split: if_splits)
  next
    case (BNone s n)
    then show ?thesis using a xs ok cont [of s n True]
      by (auto simp: bitmap_rel_def bitmap_none_def list_ex_iff split: if_splits)
  next
    case (BAll s n)
    then show ?thesis using a xs ok cont [of s n False]
      by (auto simp: bitmap_rel_def bitmap_all_def all_true_iff split: if_splits)
  next
    case (BScan s n v)
    then show ?thesis using a xs ok bitmap_scan_bits [OF ok, of s n v]
      by (auto simp: bitmap_rel_def split: if_splits)
  next
    case (BScanFlip s n v)
    then show ?thesis using a xs bitmap_scan_and_flip_bits [OF ok, of s n v]
      by (auto simp: bitmap_rel_def split: if_splits option.splits)
  qed
qed

interpretation bitmap_bools: simulation bitmap_rel bitmap_step bools_step
  by unfold_locales (rule bitmap_sim)

lemma bitmap_create_bits:
  assumes "n + ELEM_BITS < 2 ^ 32" "length ws = elem_cnt n"
  shows "\<exists>b. bitmap_create True (Some ws) n = Some (Some b) \<and> bitmap_rel b (replicate n False)"
proof -
  have "bitmap_ok \<lparr>bit_cnt = n, bits = ws\<rparr>" using assms by (simp add: bitmap_ok_def)
  from bitmap_set_all_bits [OF this, of False] show ?thesis
    by (auto simp: bitmap_create_def bitmap_rel_def)
qed

lemma bytes_elem_inv: "bytes_elem (elem_bytes w) = w"
proof (rule bit_word_eqI)
  fix n assume "n < LENGTH(32)"
  then have n: "n < 32" by simp
  show "bit (bytes_elem (elem_bytes w)) n = bit w n"
    unfolding bytes_elem_def elem_bytes_def using n by (cases "n < 24"; cases "n < 16") (auto simp: bit_simps)
qed

lemma bytes_elems_inv: "bytes_elems (concat (map elem_bytes ws)) = ws"
proof (induction ws)
  case (Cons w ws)
  obtain a b c d where "elem_bytes w = [a, b, c, d]" unfolding elem_bytes_def by blast
  then show ?case using Cons bytes_elem_inv [of w] by simp
qed simp

lemma fill_used:
  assumes "i + n \<le> length xs"
  shows "{k. k < length xs \<and> fill i n v xs ! k} =
    (if v then {k. k < length xs \<and> xs ! k} \<union> {i..<i + n} else {k. k < length xs \<and> xs ! k} - {i..<i + n})"
  using assms by (auto simp: fill_nth split: if_splits)

lemma bitmap_take_cases:
  assumes "bitmap_ok b"
  obtains (none) b' where "bitmap_take b n = Some (None, b')" "bitmap_ok b'" "bit_cnt b' = bit_cnt b"
      "bitmap_used b' = bitmap_used b"
    | (some) i b' where "bitmap_take b n = Some (Some i, b')" "bitmap_ok b'" "bit_cnt b' = bit_cnt b"
      "i + n \<le> bit_cnt b" "run (i, n) \<inter> bitmap_used b = {}" "bitmap_used b' = bitmap_used b \<union> run (i, n)"
proof (cases "find_run 0 n False (bits_of b)")
  case None
  then show ?thesis using bitmap_scan_and_flip_bits [OF assms, of 0 n False] none
    by (auto simp: bitmap_take_def bitmap_used_def)
next
  case (Some i)
  note fr = find_run_SomeD [OF Some]
  have i: "i + n \<le> bit_cnt b" using fr(2) by simp
  then have "i \<noteq> BITMAP_ERROR" using bitmap_ok_small [OF assms] by (simp add: BITMAP_ERROR_def)
  moreover have "run (i, n) \<inter> bitmap_used b = {}"
  proof -
    have "\<not> bits_of b ! k" if "i \<le> k" "k < i + n" for k
    proof -
      have "bits_of b ! k = segment i n (bits_of b) ! (k - i)" "k - i < length (segment i n (bits_of b))"
        using that i by simp_all
      then have "bits_of b ! k \<in> set (segment i n (bits_of b))" by (simp only: nth_mem)
      then show ?thesis using fr(3) by auto
    qed
    then show ?thesis by (auto simp: run_def bitmap_used_def simp del: bits_of_nth)
  qed
  ultimately show ?thesis
    using bitmap_scan_and_flip_bits [OF assms, of 0 n False] Some i some
      fill_used [of i n "bits_of b" True]
    by (auto simp: bitmap_take_def bitmap_used_def run_def)
qed

interpretation bitmap_slots: slots bitmap_ok bitmap_used bit_cnt bitmap_take bitmap_give
proof
  fix s n assume "bitmap_ok s"
  then show "\<exists>r s'. bitmap_take s n = Some (r, s') \<and> bitmap_ok s' \<and> bit_cnt s' = bit_cnt s"
    by (cases rule: bitmap_take_cases [of s n]) auto
next
  fix s n s' assume "bitmap_ok s" "bitmap_take s n = Some (None, s')"
  then show "bitmap_used s' = bitmap_used s" by (cases rule: bitmap_take_cases [of s n]) auto
next
  fix s n i s' assume "bitmap_ok s" "bitmap_take s n = Some (Some i, s')"
  then show "i + n \<le> bit_cnt s \<and> run (i, n) \<inter> bitmap_used s = {} \<and> bitmap_used s' = bitmap_used s \<union> run (i, n)"
    by (cases rule: bitmap_take_cases [of s n]) auto
next
  fix s i n assume "bitmap_ok s" "i + n \<le> bit_cnt s" "run (i, n) \<subseteq> bitmap_used s"
  then show "\<exists>s'. bitmap_give s i n = Some s' \<and> bitmap_ok s' \<and> bit_cnt s' = bit_cnt s
      \<and> bitmap_used s' = bitmap_used s - run (i, n)"
    using bitmap_set_multiple_bits [of s i n False] fill_used [of i n "bits_of s" False]
    by (auto simp: bitmap_give_def bitmap_used_def run_def)
qed

text \<open>An empty group is found where the scan starts.\<close>

lemma bitmap_scan_and_flip_zero:
  assumes "bitmap_ok b" "start \<le> bit_cnt b"
  shows "bitmap_scan_and_flip b start 0 v = Some (start, b)"
proof -
  have "start \<noteq> BITMAP_ERROR" using assms bitmap_ok_small [OF assms(1)] by (simp add: BITMAP_ERROR_def)
  moreover have "find_run start 0 v (bits_of b) = Some start"
    using assms(2) by (simp add: find_run_def upt_conv_Cons del: upt_Suc)
  ultimately show ?thesis
    using assms bitmap_scan_bits [OF assms, of 0 v] bitmap_ok_small [OF assms(1)]
    by (simp add: bitmap_scan_and_flip_def bitmap_set_multiple_def bitmap_set_loop.simps)
qed

section \<open>Properties\<close>

text \<open>A bitmap of 40 bits, all clear, and its specification.\<close>

definition ex_bitmap :: bitmap where
  "ex_bitmap = \<lparr>bit_cnt = 40, bits = [0, 0]\<rparr>"

lemma ex_bitmap_rel: "bitmap_rel ex_bitmap (replicate 40 False)"
proof -
  have "bitmap_ok ex_bitmap" by (simp add: ex_bitmap_def bitmap_ok_def elem_cnt_def DIV_ROUND_UP_def)
  moreover have "bits_of ex_bitmap = replicate 40 False"
    by (rule nth_equalityI) (auto simp: ex_bitmap_def bit_at_def nth_Cons')
  ultimately show ?thesis by (simp add: bitmap_rel_def)
qed

text \<open>
  C7. The bitmap refines a list of truth values: every sequence of bitmap operations whose
  indices are in range runs without a failed assertion or an access outside the element array,
  and all its results (tests, counts, containment, scans) are those of the same operations on
  the list. The case of an empty group differs from the comment on
  \<^verbatim>\<open>bitmap_scan_and_flip\<close>, which promises 0 when the count is zero: the code returns
  the index at which the scan starts, and changes nothing. The list operations follow the code, and
  the second conjunct states the case by itself.
\<close>

theorem bitmap_refines_bools:
  assumes "bitmap_rel b xs" "run_steps bools_step xs ops = Some (rs, ys)"
  shows "\<exists>b'. run_steps bitmap_step b ops = Some (rs, b') \<and> bitmap_rel b' ys \<and>
    (\<forall>start v. start \<le> length ys \<longrightarrow> bitmap_scan_and_flip b' start 0 v = Some (start, b'))"
proof -
  from bitmap_bools.run_sim [OF assms] obtain b' where b': "run_steps bitmap_step b ops = Some (rs, b')" "bitmap_rel b' ys"
    by blast
  then have "bitmap_ok b'" "bit_cnt b' = length ys" by (auto simp: bitmap_rel_def)
  then show ?thesis using b' bitmap_scan_and_flip_zero [of b'] by auto
qed

theorem bitmap_refines_bools_witness:
  "\<exists>b'. run_steps bitmap_step ex_bitmap [BSetMultiple 30 4 True, BFlip 31, BTest 33, BCount 30 5 True] = Some ([0, 0, 1, 3], b')
     \<and> bitmap_rel b' ((replicate 40 False)[30 := True, 32 := True, 33 := True])
     \<and> bitmap_scan_and_flip b' 31 0 True = Some (31, b')"
proof -
  have "run_steps bools_step (replicate 40 False) [BSetMultiple 30 4 True, BFlip 31, BTest 33, BCount 30 5 True]
      = Some ([0, 0, 1, 3], (replicate 40 False)[30 := True, 32 := True, 33 := True])"
    by code_simp
  from bitmap_refines_bools [OF ex_bitmap_rel this] show ?thesis
    by (elim exE conjE, intro exI conjI) (assumption, assumption, drule spec [of _ 31], simp)
qed

text \<open>
  C16. \<^verbatim>\<open>bitmap_scan\<close> returns the first index at or after \<^verbatim>\<open>start\<close>
  where \<^verbatim>\<open>cnt\<close> consecutive bits all have the wanted value, and
  \<^verbatim>\<open>BITMAP_ERROR\<close> exactly when there is no such index.
\<close>

theorem bitmap_scan_first:
  assumes "bitmap_ok b" "start \<le> bit_cnt b"
  shows "\<exists>idx. bitmap_scan b start cnt v = Some idx
    \<and> (if idx = BITMAP_ERROR then \<forall>i \<ge> start. \<not> bit_group b cnt v i
       else start \<le> idx \<and> bit_group b cnt v idx \<and> (\<forall>i. start \<le> i \<and> i < idx \<longrightarrow> \<not> bit_group b cnt v i))"
proof -
  have seg: "((\<not> v) \<notin> set (segment i cnt (bits_of b))) = (\<forall>k < cnt. bits_of b ! (i + k) = v)"
    if "i + cnt \<le> bit_cnt b" for i
    using that by (auto simp: in_set_conv_nth)
  show ?thesis
  proof (cases "find_run start cnt v (bits_of b)")
    case None
    then have "\<not> bit_group b cnt v i" if "start \<le> i" for i
      using find_run_NoneD [OF None that] seg [of i] unfolding bit_group_def bits_of_length by blast
    then show ?thesis using None bitmap_scan_bits [OF assms(1,2)] by simp
  next
    case (Some j)
    note fr = find_run_SomeD [OF Some]
    have "j \<noteq> BITMAP_ERROR" using fr(2) bitmap_ok_small [OF assms(1)] by (simp add: BITMAP_ERROR_def)
    moreover have "\<forall>i. start \<le> i \<and> i < j \<longrightarrow> \<not> bit_group b cnt v i"
      using fr(4) seg unfolding bit_group_def by blast
    moreover have "bit_group b cnt v j" using fr(2,3) seg [of j] by (simp add: bit_group_def)
    ultimately show ?thesis using bitmap_scan_bits [OF assms(1,2)] Some fr(1) by simp
  qed
qed

theorem bitmap_scan_first_witness:
  "\<exists>idx. bitmap_scan ex_bitmap 35 5 False = Some idx
    \<and> (if idx = BITMAP_ERROR then \<forall>i \<ge> 35. \<not> bit_group ex_bitmap 5 False i
       else 35 \<le> idx \<and> bit_group ex_bitmap 5 False idx \<and> (\<forall>i. 35 \<le> i \<and> i < idx \<longrightarrow> \<not> bit_group ex_bitmap 5 False i))"
proof (rule bitmap_scan_first)
  show "bitmap_ok ex_bitmap" using ex_bitmap_rel by (simp add: bitmap_rel_def)
  show "35 \<le> bit_cnt ex_bitmap" by (simp add: ex_bitmap_def)
qed

end
