(* ===== verification/Kernel_Hash.thy ===== *)
theory Kernel_Hash
  imports List_Refine
begin

text \<open>
  The chained hash table of \<^verbatim>\<open>lib/kernel/hash.c\<close>. The buckets are lists, used through
  the operations of \<^verbatim>\<open>list.c\<close>; by the refinement of those operations to HOL lists
  (theory \<^verbatim>\<open>List_Refine\<close>) a bucket is the HOL list of its elements here. The
  hash and comparison functions, with their auxiliary data, are fields of the table, as in the
  source. Memory allocation of a bucket array succeeds or fails by an argument. The table is
  shown to be a map from equivalence classes of elements to elements, for every hash function
  that respects the comparison, and its iterator to visit each element once.
\<close>

section \<open>Data\<close>

record 'e hash =
  h_elem_cnt :: nat
  bucket_cnt :: nat
  buckets :: "'e list list"
  hash_fn :: "'e \<Rightarrow> u32"
  less_fn :: "'e \<Rightarrow> 'e \<Rightarrow> bool"

text \<open>
  An iterator: the current bucket's number and the position in that bucket, counted from the
  bucket's head element at 0; a null element pointer is \<^term>\<open>None\<close>.
\<close>

record hash_iterator =
  it_bucket :: nat
  it_elem :: "nat option"

section \<open>Operations\<close>

definition find_bucket :: "'e hash \<Rightarrow> 'e \<Rightarrow> nat" where
  "find_bucket h e = unat (hash_fn h e) AND size_sub (bucket_cnt h) 1"

definition find_elem :: "'e hash \<Rightarrow> nat \<Rightarrow> 'e \<Rightarrow> 'e option option" where
  "find_elem h bucket e = do {
     kassert (bucket < length (buckets h));
     Some (find (\<lambda>hi. \<not> less_fn h hi e \<and> \<not> less_fn h e hi) (buckets h ! bucket))
   }"

definition turn_off_least_1bit :: "nat \<Rightarrow> nat" where
  "turn_off_least_1bit x = x AND size_sub x 1"

definition is_power_of_2 :: "nat \<Rightarrow> bool" where
  "is_power_of_2 x \<longleftrightarrow> x \<noteq> 0 \<and> turn_off_least_1bit x = 0"

partial_function (option) round_power_loop :: "nat \<Rightarrow> nat option" where
  "round_power_loop x =
     (if is_power_of_2 x then Some x else round_power_loop (turn_off_least_1bit x))"

definition hash_insert_front :: "'e hash \<Rightarrow> nat \<Rightarrow> 'e \<Rightarrow> 'e hash option" where
  "hash_insert_front h bucket e = do {
     kassert (bucket < length (buckets h));
     Some (h\<lparr>buckets := (buckets h)[bucket := e # buckets h ! bucket]\<rparr>)
   }"

text \<open>The loops that move every element of the old buckets to the front of its new bucket.\<close>

fun rehash_bucket :: "'e hash \<Rightarrow> 'e list \<Rightarrow> 'e hash option" where
  "rehash_bucket h [] = Some h"
| "rehash_bucket h (e # es) = do {
     h \<leftarrow> hash_insert_front h (find_bucket h e) e;
     rehash_bucket h es
   }"

fun rehash_loop :: "'e hash \<Rightarrow> 'e list list \<Rightarrow> 'e hash option" where
  "rehash_loop h [] = Some h"
| "rehash_loop h (b # bs) = do { h \<leftarrow> rehash_bucket h b; rehash_loop h bs }"

definition rehash :: "bool \<Rightarrow> 'e hash \<Rightarrow> 'e hash option" where
  "rehash mem h = do {
     let n0 = h_elem_cnt h div 2;
     let n1 = (if n0 < 4 then 4 else n0);
     new_bucket_cnt \<leftarrow> round_power_loop n1;
     if new_bucket_cnt = bucket_cnt h then Some h
     else if \<not> mem then Some h
     else rehash_loop (h\<lparr>buckets := replicate new_bucket_cnt [], bucket_cnt := new_bucket_cnt\<rparr>) (buckets h)
   }"

definition insert_elem :: "'e hash \<Rightarrow> nat \<Rightarrow> 'e \<Rightarrow> 'e hash option" where
  "insert_elem h bucket e = hash_insert_front (h\<lparr>h_elem_cnt := size_add (h_elem_cnt h) 1\<rparr>) bucket e"

definition remove_elem :: "'e hash \<Rightarrow> 'e \<Rightarrow> 'e hash" where
  "remove_elem h e = h\<lparr>h_elem_cnt := size_sub (h_elem_cnt h) 1, buckets := map (remove1 e) (buckets h)\<rparr>"

text \<open>
  \<^verbatim>\<open>hash_clear\<close> returns the elements in the order in which the destructor is
  called on them; \<open>d\<close> says whether there is a destructor.
\<close>

definition hash_clear :: "'e hash \<Rightarrow> bool \<Rightarrow> 'e list \<times> 'e hash" where
  "hash_clear h d =
     (if d then concat (take (bucket_cnt h) (buckets h)) else [],
      h\<lparr>buckets := map (\<lambda>_. []) (buckets h), h_elem_cnt := 0\<rparr>)"

definition hash_init :: "bool \<Rightarrow> ('e \<Rightarrow> u32) \<Rightarrow> ('e \<Rightarrow> 'e \<Rightarrow> bool) \<Rightarrow> 'e hash option" where
  "hash_init mem f lt =
     (if mem then Some (snd (hash_clear
        \<lparr>h_elem_cnt = 0, bucket_cnt = 4, buckets = replicate 4 [], hash_fn = f, less_fn = lt\<rparr> False))
      else None)"

definition hash_destroy :: "'e hash \<Rightarrow> bool \<Rightarrow> 'e list" where
  "hash_destroy h d = (if d then fst (hash_clear h True) else [])"

definition hash_insert :: "bool \<Rightarrow> 'e hash \<Rightarrow> 'e \<Rightarrow> ('e option \<times> 'e hash) option" where
  "hash_insert mem h new = do {
     let bucket = find_bucket h new;
     old \<leftarrow> find_elem h bucket new;
     h \<leftarrow> (if old = None then insert_elem h bucket new else Some h);
     h \<leftarrow> rehash mem h;
     Some (old, h)
   }"

definition hash_replace :: "bool \<Rightarrow> 'e hash \<Rightarrow> 'e \<Rightarrow> ('e option \<times> 'e hash) option" where
  "hash_replace mem h new = do {
     let bucket = find_bucket h new;
     old \<leftarrow> find_elem h bucket new;
     let h = (case old of Some e \<Rightarrow> remove_elem h e | None \<Rightarrow> h);
     h \<leftarrow> insert_elem h bucket new;
     h \<leftarrow> rehash mem h;
     Some (old, h)
   }"

definition hash_find :: "'e hash \<Rightarrow> 'e \<Rightarrow> 'e option option" where
  "hash_find h e = find_elem h (find_bucket h e) e"

definition hash_delete :: "bool \<Rightarrow> 'e hash \<Rightarrow> 'e \<Rightarrow> ('e option \<times> 'e hash) option" where
  "hash_delete mem h e = do {
     found \<leftarrow> find_elem h (find_bucket h e) e;
     case found of
       None \<Rightarrow> Some (None, h)
     | Some f \<Rightarrow> do { h \<leftarrow> rehash mem (remove_elem h f); Some (Some f, h) }
   }"

text \<open>\<^verbatim>\<open>hash_apply\<close>: the elements in the order in which the action is called on them.\<close>

definition hash_apply :: "'e hash \<Rightarrow> 'e list" where
  "hash_apply h = concat (take (bucket_cnt h) (buckets h))"

definition hash_first :: "'e hash \<Rightarrow> hash_iterator" where
  "hash_first h = \<lparr>it_bucket = 0, it_elem = Some 0\<rparr>"

text \<open>The loop of \<^verbatim>\<open>hash_next\<close>: skip the buckets whose end has been reached.\<close>

function hash_next_loop :: "'e hash \<Rightarrow> nat \<Rightarrow> nat \<Rightarrow> hash_iterator" where
  "hash_next_loop h b pos =
     (if pos = Suc (length (buckets h ! b)) then
        if Suc b \<ge> bucket_cnt h then \<lparr>it_bucket = Suc b, it_elem = None\<rparr>
        else hash_next_loop h (Suc b) 1
      else \<lparr>it_bucket = b, it_elem = Some pos\<rparr>)"
  by pat_completeness auto
termination by (relation "measure (\<lambda>(h, b, pos). bucket_cnt h - b)") auto

declare hash_next_loop.simps [simp del]

definition hash_cur :: "'e hash \<Rightarrow> hash_iterator \<Rightarrow> 'e option" where
  "hash_cur h i = (case it_elem i of None \<Rightarrow> None | Some p \<Rightarrow> Some (buckets h ! it_bucket i ! (p - 1)))"

definition hash_next :: "'e hash \<Rightarrow> hash_iterator \<Rightarrow> ('e option \<times> hash_iterator) option" where
  "hash_next h i =
     (case it_elem i of
        None \<Rightarrow> None
      | Some p \<Rightarrow> do {
          kassert (it_bucket i < length (buckets h) \<and> p \<le> length (buckets h ! it_bucket i));
          let i = hash_next_loop h (it_bucket i) (p + 1);
          Some (hash_cur h i, i)
        })"

definition hash_size :: "'e hash \<Rightarrow> nat" where
  "hash_size h = h_elem_cnt h"

definition hash_empty :: "'e hash \<Rightarrow> bool" where
  "hash_empty h \<longleftrightarrow> h_elem_cnt h = 0"

text \<open>The Fowler-Noll-Vo sample hash functions.\<close>

definition FNV_32_PRIME :: u32 where
  "FNV_32_PRIME = 16777619"

definition FNV_32_BASIS :: u32 where
  "FNV_32_BASIS = 2166136261"

definition hash_bytes :: "byte list \<Rightarrow> u32" where
  "hash_bytes buf = fold (\<lambda>b h. (h * FNV_32_PRIME) XOR ucast b) buf FNV_32_BASIS"

text \<open>\<^verbatim>\<open>hash_string\<close>: the bytes up to the first null byte.\<close>

definition hash_string :: "byte list \<Rightarrow> u32" where
  "hash_string s = fold (\<lambda>b h. (h * FNV_32_PRIME) XOR ucast b) (takeWhile (\<lambda>b. b \<noteq> 0) s) FNV_32_BASIS"

definition hash_int :: "u32 \<Rightarrow> u32" where
  "hash_int i = hash_bytes [ucast i, ucast (drop_bit 8 i), ucast (drop_bit 16 i), ucast (drop_bit 24 i)]"

section \<open>Specification\<close>

definition elems :: "'e hash \<Rightarrow> 'e list" where
  "elems h = concat (buckets h)"

text \<open>The table as a map: the stored element that is equivalent to a given one.\<close>

definition hmap :: "'e hash \<Rightarrow> 'e \<Rightarrow> 'e option" where
  "hmap h e = find (\<lambda>x. eqv (less_fn h) x e) (elems h)"

definition hash_ok :: "'e hash \<Rightarrow> bool" where
  "hash_ok h \<longleftrightarrow>
     strict_weak (less_fn h) \<and> (\<forall>x y. eqv (less_fn h) x y \<longrightarrow> hash_fn h x = hash_fn h y)
     \<and> (\<exists>k. 2 \<le> k \<and> k < 32 \<and> bucket_cnt h = 2 ^ k) \<and> length (buckets h) = bucket_cnt h
     \<and> (\<forall>i < bucket_cnt h. \<forall>e \<in> set (buckets h ! i). find_bucket h e = i)
     \<and> distinct (elems h)
     \<and> (\<forall>x \<in> set (elems h). \<forall>y \<in> set (elems h). eqv (less_fn h) x y \<longrightarrow> x = y)
     \<and> h_elem_cnt h = length (elems h) \<and> length (elems h) < 2 ^ 32 - 1"

datatype 'e hash_op = HInsert bool 'e | HReplace bool 'e | HFind 'e | HDelete bool 'e

fun hash_step :: "'e hash \<Rightarrow> 'e hash_op \<Rightarrow> ('e option \<times> 'e hash) option" where
  "hash_step h (HInsert mem e) = hash_insert mem h e"
| "hash_step h (HReplace mem e) = hash_replace mem h e"
| "hash_step h (HFind e) = do { r \<leftarrow> hash_find h e; Some (r, h) }"
| "hash_step h (HDelete mem e) = hash_delete mem h e"

text \<open>
  The specification: a map that is constant on equivalence classes, and the number of stored
  elements, which has to fit the counter.
\<close>

fun hmap_step :: "('e \<Rightarrow> 'e \<Rightarrow> bool) \<Rightarrow> ('e \<Rightarrow> 'e option) \<times> nat \<Rightarrow> 'e hash_op \<Rightarrow>
    ('e option \<times> ('e \<Rightarrow> 'e option) \<times> nat) option" where
  "hmap_step lt (m, n) (HInsert mem e) =
     (if m e = None then
        if Suc n < 2 ^ 32 - 1 then Some (None, (\<lambda>x. if eqv lt e x then Some e else m x), Suc n) else None
      else Some (m e, m, n))"
| "hmap_step lt (m, n) (HReplace mem e) =
     (if m e = None then
        if Suc n < 2 ^ 32 - 1 then Some (None, (\<lambda>x. if eqv lt e x then Some e else m x), Suc n) else None
      else Some (m e, (\<lambda>x. if eqv lt e x then Some e else m x), n))"
| "hmap_step lt (m, n) (HFind e) = Some (m e, m, n)"
| "hmap_step lt (m, n) (HDelete mem e) =
     (if m e = None then Some (None, m, n)
      else Some (m e, (\<lambda>x. if eqv lt e x then None else m x), n - 1))"

definition hash_rel :: "('e \<Rightarrow> 'e \<Rightarrow> bool) \<Rightarrow> 'e hash \<Rightarrow> ('e \<Rightarrow> 'e option) \<times> nat \<Rightarrow> bool" where
  "hash_rel lt h mn \<longleftrightarrow> hash_ok h \<and> less_fn h = lt \<and> hmap h = fst mn \<and> hash_size h = snd mn"

text \<open>The two halves of the invariant: where elements are, and which elements there are.\<close>

definition placed :: "'e hash \<Rightarrow> bool" where
  "placed h \<longleftrightarrow> (\<exists>k. 2 \<le> k \<and> k < 32 \<and> bucket_cnt h = 2 ^ k) \<and> length (buckets h) = bucket_cnt h
     \<and> (\<forall>i < bucket_cnt h. \<forall>e \<in> set (buckets h ! i). find_bucket h e = i)"

definition unique_elems :: "'e hash \<Rightarrow> bool" where
  "unique_elems h \<longleftrightarrow> strict_weak (less_fn h) \<and> (\<forall>x y. eqv (less_fn h) x y \<longrightarrow> hash_fn h x = hash_fn h y)
     \<and> distinct (elems h)
     \<and> (\<forall>x \<in> set (elems h). \<forall>y \<in> set (elems h). eqv (less_fn h) x y \<longrightarrow> x = y)
     \<and> h_elem_cnt h = length (elems h) \<and> length (elems h) < 2 ^ 32 - 1"

text \<open>The iteration idiom that the comment of \<^verbatim>\<open>hash_first\<close> gives.\<close>

partial_function (option) hash_iterate :: "'e hash \<Rightarrow> hash_iterator \<Rightarrow> 'e list option" where
  "hash_iterate h i = do {
     (r, i) \<leftarrow> hash_next h i;
     case r of None \<Rightarrow> Some [] | Some e \<Rightarrow> do { es \<leftarrow> hash_iterate h i; Some (e # es) }
   }"

section \<open>Lemmas\<close>

lemma eqv_refl: "strict_weak lt \<Longrightarrow> eqv lt x x"
  by (simp add: eqv_def strict_weak_irrefl)

lemma eqv_sym: "eqv lt x y \<longleftrightarrow> eqv lt y x"
  unfolding eqv_def by blast

lemma eqv_trans: "strict_weak lt \<Longrightarrow> eqv lt x y \<Longrightarrow> eqv lt y z \<Longrightarrow> eqv lt x z"
  using strict_weak_ntrans [of lt x y z] strict_weak_ntrans [of lt z y x] by (simp add: eqv_def)

subsection \<open>Rounding the number of buckets\<close>

lemma and_le_nat: "(x :: nat) AND y \<le> y"
  unfolding and_nat_def using AND_upper2 [of "int y" "int x"] by (simp add: nat_le_iff)

lemma exp_le_bit:
  fixes z :: nat
  shows "bit z k \<Longrightarrow> 2 ^ k \<le> z"
  by (rule ccontr) (simp add: bit_iff_odd)

lemma bit_top: "2 ^ k \<le> (y :: nat) \<Longrightarrow> y < 2 ^ Suc k \<Longrightarrow> bit y k"
proof -
  assume "2 ^ k \<le> y" "y < 2 ^ Suc k"
  then have "y div 2 ^ k = 1" by (intro div_nat_eqI) simp_all
  then show "bit y k" by (simp add: bit_iff_odd)
qed

lemma exp_and_pred: "(2 :: nat) ^ k AND (2 ^ k - 1) = 0"
  unfolding mask_eq_exp_minus_1 [symmetric]
  by (rule bit_eqI) (auto simp: bit_and_iff bit_exp_iff bit_mask_iff)

lemma turn_off_least_1bit_bounds:
  assumes "2 ^ k \<le> x" "x < 2 ^ Suc k" "x < 2 ^ 32"
  shows "x = 2 ^ k \<and> is_power_of_2 x
    \<or> \<not> is_power_of_2 x \<and> 2 ^ k \<le> turn_off_least_1bit x \<and> turn_off_least_1bit x < x"
proof -
  have "0 < x" using assms(1) by (cases "x = 0") simp_all
  then have s: "turn_off_least_1bit x = x AND (x - 1)"
    using assms(3) by (simp add: turn_off_least_1bit_def)
  show ?thesis
  proof (cases "x = 2 ^ k")
    case True
    then show ?thesis using \<open>0 < x\<close> s exp_and_pred [of k] by (simp add: is_power_of_2_def)
  next
    case False
    then have "bit x k" "bit (x - 1) k" using assms bit_top [of k x] bit_top [of k "x - 1"] by simp_all
    then have "bit (turn_off_least_1bit x) k" unfolding s by (simp add: bit_and_iff)
    then have "2 ^ k \<le> turn_off_least_1bit x" by (rule exp_le_bit)
    moreover have "turn_off_least_1bit x < x" using and_le_nat [of x "x - 1"] \<open>0 < x\<close> unfolding s by simp
    moreover have "\<not> is_power_of_2 x" using calculation(1) by (auto simp: is_power_of_2_def)
    ultimately show ?thesis by blast
  qed
qed

lemma round_power_loop_correct:
  "2 ^ k \<le> x \<Longrightarrow> x < 2 ^ Suc k \<Longrightarrow> x < 2 ^ 32 \<Longrightarrow> round_power_loop x = Some (2 ^ k)"
proof (induction x rule: less_induct)
  case (less x)
  show ?case using turn_off_least_1bit_bounds [OF less.prems] less.IH [of "turn_off_least_1bit x"] less.prems
    by (auto simp: round_power_loop.simps [of x])
qed

lemma ex_top_bit: "0 < (x :: nat) \<Longrightarrow> \<exists>k. 2 ^ k \<le> x \<and> x < 2 ^ Suc k"
proof (induction x rule: less_induct)
  case (less x)
  show ?case
  proof (cases "x = 1")
    case True
    then show ?thesis by (intro exI [of _ 0]) simp
  next
    case False
    then have "x div 2 < x" "0 < x div 2" using less.prems by auto
    from less.IH [OF this] obtain k where "2 ^ k \<le> x div 2" "x div 2 < 2 ^ Suc k" by blast
    then show ?thesis by (intro exI [of _ "Suc k"]) auto
  qed
qed

subsection \<open>Buckets\<close>

lemma find_bucket_less:
  assumes "bucket_cnt h = 2 ^ k" "k < 32"
  shows "find_bucket h e < bucket_cnt h"
proof -
  have "(2 :: nat) ^ k < 2 ^ 32" using assms(2) by (intro power_strict_increasing) simp_all
  then have "find_bucket h e = unat (hash_fn h e) AND (2 ^ k - 1)"
    unfolding find_bucket_def assms(1) by (subst size_sub_small) simp_all
  then show ?thesis 
    using and_le_nat [of "unat (hash_fn h e)" "2 ^ k - 1"] assms(1) zero_less_power [of "2 :: nat" k]
    by linarith
qed

lemma mset_concat_update:
  "i < length xs \<Longrightarrow> mset (concat (xs[i := e # xs ! i])) = add_mset e (mset (concat xs))"
  by (induction xs arbitrary: i) (auto split: nat.splits)

lemma hash_insert_front_placed:
  assumes "placed h"
  shows "\<exists>h'. hash_insert_front h (find_bucket h e) e = Some h' \<and> placed h'
     \<and> h_elem_cnt h' = h_elem_cnt h \<and> hash_fn h' = hash_fn h \<and> less_fn h' = less_fn h
     \<and> mset (elems h') = add_mset e (mset (elems h))"
proof -
  have b: "find_bucket h e < length (buckets h)" using assms find_bucket_less [of h] by (auto simp: placed_def)
  let ?h = "h\<lparr>buckets := (buckets h)[find_bucket h e := e # buckets h ! find_bucket h e]\<rparr>"
  have fb: "find_bucket ?h = find_bucket h" by (rule ext) (simp add: find_bucket_def)
  have "placed ?h" using assms b unfolding placed_def fb by (auto simp: nth_list_update)
  then show ?thesis using b mset_concat_update [OF b] by (simp add: hash_insert_front_def elems_def)
qed

lemma rehash_bucket_placed:
  "placed h \<Longrightarrow> \<exists>h'. rehash_bucket h es = Some h' \<and> placed h'
     \<and> h_elem_cnt h' = h_elem_cnt h \<and> hash_fn h' = hash_fn h \<and> less_fn h' = less_fn h
     \<and> mset (elems h') = mset es + mset (elems h)"
proof (induction es arbitrary: h)
  case (Cons e es)
  from hash_insert_front_placed [OF Cons.prems, of e] obtain h1 where
    h1: "hash_insert_front h (find_bucket h e) e = Some h1" "placed h1" "h_elem_cnt h1 = h_elem_cnt h"
      "hash_fn h1 = hash_fn h" "less_fn h1 = less_fn h" "mset (elems h1) = add_mset e (mset (elems h))" by blast
  from Cons.IH [OF h1(2)] show ?case using h1 by auto
qed auto

lemma rehash_loop_placed:
  "placed h \<Longrightarrow> \<exists>h'. rehash_loop h bs = Some h' \<and> placed h'
     \<and> h_elem_cnt h' = h_elem_cnt h \<and> hash_fn h' = hash_fn h \<and> less_fn h' = less_fn h
     \<and> mset (elems h') = mset (concat bs) + mset (elems h)"
proof (induction bs arbitrary: h)
  case (Cons b bs)
  from rehash_bucket_placed [OF Cons.prems, of b] obtain h1 where
    h1: "rehash_bucket h b = Some h1" "placed h1" "h_elem_cnt h1 = h_elem_cnt h"
      "hash_fn h1 = hash_fn h" "less_fn h1 = less_fn h" "mset (elems h1) = mset b + mset (elems h)" by blast
  from Cons.IH [OF h1(2)] show ?case using h1 by auto
qed auto

lemma rehash_placed:
  assumes "placed h" "h_elem_cnt h < 2 ^ 32"
  shows "\<exists>h'. rehash mem h = Some h' \<and> placed h'
     \<and> h_elem_cnt h' = h_elem_cnt h \<and> hash_fn h' = hash_fn h \<and> less_fn h' = less_fn h
     \<and> mset (elems h') = mset (elems h)"
proof -
  define n where "n = (if h_elem_cnt h div 2 < 4 then 4 else h_elem_cnt h div 2)"
  have n: "4 \<le> n" "n < 2 ^ 32" 
    using assms(2) by (auto simp: n_def intro: le_less_trans [OF div_le_dividend])
  obtain k where k: "2 ^ k \<le> n" "n < 2 ^ Suc k" using ex_top_bit [of n] n(1) by auto
  have r: "round_power_loop n = Some (2 ^ k)" by (rule round_power_loop_correct [OF k n(2)])
  have "(2 :: nat) ^ k < 2 ^ 32" using k(1) n(2) by (rule le_less_trans)
  then have "k < 32" by (rule power_less_imp_less_exp [rotated]) simp
  moreover have "(2 :: nat) ^ 2 < 2 ^ Suc k" using n(1) k(2) by simp
  then have "2 < Suc k" by (rule power_less_imp_less_exp [rotated]) simp
  ultimately have "placed (h\<lparr>buckets := replicate (2 ^ k) [], bucket_cnt := 2 ^ k\<rparr>)"
    by (auto simp: placed_def)
  from rehash_loop_placed [OF this, of "buckets h"] show ?thesis
    using assms(1) r by (auto simp: rehash_def n_def [symmetric] Let_def elems_def)
qed
subsection \<open>The table as a map\<close>

lemma hash_ok_alt: "hash_ok h \<longleftrightarrow> placed h \<and> unique_elems h"
  unfolding hash_ok_def placed_def unique_elems_def by blast

lemma hmap_Some:
  assumes "hash_ok h"
  shows "hmap h e = Some x \<longleftrightarrow> x \<in> set (elems h) \<and> eqv (less_fn h) x e"
proof
  assume "hmap h e = Some x"
  then show "x \<in> set (elems h) \<and> eqv (less_fn h) x e"
    by (auto simp: hmap_def find_Some_iff)
next
  assume x: "x \<in> set (elems h) \<and> eqv (less_fn h) x e"
  then obtain y where y: "hmap h e = Some y"
    using find_None_iff [of "\<lambda>x. eqv (less_fn h) x e" "elems h"] by (cases "hmap h e") (auto simp: hmap_def)
  then have "y \<in> set (elems h)" "eqv (less_fn h) y e" by (auto simp: hmap_def find_Some_iff)
  moreover have "strict_weak (less_fn h)" using assms by (simp add: hash_ok_def)
  then have "eqv (less_fn h) x y" using eqv_trans x eqv_sym calculation(2) by metis
  ultimately show "hmap h e = Some x" using assms x y by (auto simp: hash_ok_def)
qed

lemma hmap_eqI:
  assumes "hash_ok h" "\<And>x. (m e = Some x) = (x \<in> set (elems h) \<and> eqv (less_fn h) x e)"
  shows "hmap h e = m e"
  using assms hmap_Some [OF assms(1), of e] by (cases "hmap h e"; cases "m e") auto

lemma in_elems: "x \<in> set (elems h) \<longleftrightarrow> (\<exists>i < length (buckets h). x \<in> set (buckets h ! i))"
  by (simp add: elems_def) (metis in_set_conv_nth)

lemma find_elem_hmap:
  assumes ok: "hash_ok h"
  shows "find_elem h (find_bucket h e) e = Some (hmap h e)"
proof -
  have pl: "placed h" and lt: "find_bucket h e < length (buckets h)"
    using ok find_bucket_less [of h] by (auto simp: hash_ok_alt placed_def)
  let ?f = "find (\<lambda>x. eqv (less_fn h) x e) (buckets h ! find_bucket h e)"
  have "hmap h e = ?f"
  proof (rule hmap_eqI [OF ok, where m = "\<lambda>e. find (\<lambda>x. eqv (less_fn h) x e) (buckets h ! find_bucket h e)"])
    fix x
    have same: "find_bucket h x = find_bucket h e" if "eqv (less_fn h) x e"
      using ok that by (auto simp: hash_ok_def find_bucket_def)
    show "(?f = Some x) = (x \<in> set (elems h) \<and> eqv (less_fn h) x e)"
    proof
      assume "?f = Some x"
      then show "x \<in> set (elems h) \<and> eqv (less_fn h) x e"
        using lt by (auto simp: find_Some_iff in_elems)
    next
      assume x: "x \<in> set (elems h) \<and> eqv (less_fn h) x e"
      then have xb: "x \<in> set (buckets h ! find_bucket h e)"
        using pl same by (auto simp: in_elems placed_def)
      then obtain y where y: "?f = Some y"
        using find_None_iff [of "\<lambda>x. eqv (less_fn h) x e" "buckets h ! find_bucket h e"] x by (cases ?f) auto
      then have ye: "y \<in> set (elems h)" "eqv (less_fn h) y e" using lt by (auto simp: find_Some_iff in_elems)
      then show "?f = Some x" using hmap_Some [OF ok] x y by (metis option.inject)
    qed
  qed
  then show ?thesis using lt by (simp add: find_elem_def eqv_def)
qed

lemma concat_remove1:
  "distinct (concat bs) \<Longrightarrow> concat (map (remove1 x) bs) = removeAll x (concat bs)"
  by (induction bs) (auto simp: distinct_remove1_removeAll)

lemma remove_elem_ok:
  assumes "hash_ok h" "x \<in> set (elems h)"
  shows "placed (remove_elem h x)" "unique_elems (remove_elem h x)"
    "set (elems (remove_elem h x)) = set (elems h) - {x}"
    "less_fn (remove_elem h x) = less_fn h" "hash_fn (remove_elem h x) = hash_fn h"
    "h_elem_cnt (remove_elem h x) = h_elem_cnt h - 1"
proof -
  have d: "distinct (elems h)" and cnt: "h_elem_cnt h = length (elems h)" "length (elems h) < 2 ^ 32 - 1"
    using assms(1) by (auto simp: hash_ok_def)
  have el: "elems (remove_elem h x) = removeAll x (elems h)"
    using d concat_remove1 [of "buckets h" x] by (simp add: elems_def remove_elem_def)
  have len: "length (removeAll x (elems h)) = length (elems h) - 1"
    using d assms(2) length_remove1 [of x "elems h"] distinct_remove1_removeAll [OF d, of x] by simp
  have c1: "size_sub (h_elem_cnt h) 1 = h_elem_cnt h - 1"
    using cnt assms(2) by (intro size_sub_small) (cases "elems h", auto)
  show "set (elems (remove_elem h x)) = set (elems h) - {x}" using el by auto
  show "less_fn (remove_elem h x) = less_fn h" "hash_fn (remove_elem h x) = hash_fn h"
    "h_elem_cnt (remove_elem h x) = h_elem_cnt h - 1" using c1 by (simp_all add: remove_elem_def)
  have fb: "find_bucket (remove_elem h x) = find_bucket h"
    by (rule ext) (simp add: find_bucket_def remove_elem_def)
  show "placed (remove_elem h x)"
    using assms(1) unfolding hash_ok_alt placed_def fb
    by (auto simp: remove_elem_def dest: notin_set_remove1 set_remove1_subset [THEN subsetD])
  show "unique_elems (remove_elem h x)"
    using assms(1) len c1 cnt unfolding unique_elems_def el hash_ok_def
    by (auto simp: remove_elem_def distinct_removeAll)
qed

lemma insert_elem_ok:
  assumes "placed h" "unique_elems h" "\<And>x. x \<in> set (elems h) \<Longrightarrow> \<not> eqv (less_fn h) x e"
    "Suc (length (elems h)) < 2 ^ 32 - 1"
  shows "\<exists>h'. insert_elem h (find_bucket h e) e = Some h' \<and> placed h' \<and> unique_elems h'
    \<and> set (elems h') = insert e (set (elems h)) \<and> less_fn h' = less_fn h \<and> hash_fn h' = hash_fn h
    \<and> h_elem_cnt h' = Suc (h_elem_cnt h)"
proof -
  let ?h = "h\<lparr>h_elem_cnt := size_add (h_elem_cnt h) 1\<rparr>"
  have fb: "find_bucket ?h = find_bucket h" by (rule ext) (simp add: find_bucket_def)
  have pl: "placed ?h" using assms(1) unfolding placed_def fb by simp
  from hash_insert_front_placed [OF this, of e] obtain h' where
    h': "hash_insert_front ?h (find_bucket h e) e = Some h'" "placed h'" "h_elem_cnt h' = size_add (h_elem_cnt h) 1"
      "hash_fn h' = hash_fn h" "less_fn h' = less_fn h" "mset (elems h') = add_mset e (mset (elems h))"
    unfolding fb by (auto simp: elems_def)
  have set: "set (elems h') = insert e (set (elems h))" using h'(6) by (metis set_mset_add_mset_insert set_mset_mset)
  have len: "length (elems h') = Suc (length (elems h))" using h'(6) by (metis size_mset size_add_mset)
  have ne: "e \<notin> set (elems h)" using assms(2,3) eqv_refl by (metis unique_elems_def)
  have dist: "distinct (elems h')"
  proof -
    have "distinct (e # elems h)" using assms(2) ne by (simp add: unique_elems_def)
    moreover have "mset (elems h') = mset (e # elems h)" using h'(6) by simp
    ultimately show ?thesis using mset_eq_imp_distinct_iff by blast
  qed
  have c: "size_add (h_elem_cnt h) 1 = Suc (h_elem_cnt h)"
    using assms(2,4) by (simp add: unique_elems_def)
  have "unique_elems h'"
    using assms(2,3,4) dist len c h'(3) ne eqv_sym [of "less_fn h"] unfolding unique_elems_def set h'(4,5) by auto
  then show ?thesis using h' set c by (auto simp: insert_elem_def)
qed

lemma rehash_ok:
  assumes "placed h" "unique_elems h"
  shows "\<exists>h'. rehash mem h = Some h' \<and> hash_ok h' \<and> set (elems h') = set (elems h)
    \<and> less_fn h' = less_fn h \<and> h_elem_cnt h' = h_elem_cnt h"
proof -
  have "h_elem_cnt h < 2 ^ 32" using assms(2) by (simp add: unique_elems_def)
  from rehash_placed [OF assms(1) this, of mem] obtain h' where
    h': "rehash mem h = Some h'" "placed h'" "h_elem_cnt h' = h_elem_cnt h" "hash_fn h' = hash_fn h"
      "less_fn h' = less_fn h" "mset (elems h') = mset (elems h)" by blast
  have "set (elems h') = set (elems h)" "length (elems h') = length (elems h)"
    "distinct (elems h') = distinct (elems h)"
    using mset_eq_setD [OF h'(6)] mset_eq_length [OF h'(6)] mset_eq_imp_distinct_iff [OF h'(6)] by auto
  then show ?thesis using h' assms(2) unfolding hash_ok_alt unique_elems_def by auto
qed

lemma hmap_ins:
  assumes "hash_ok h" "hash_ok h'" "less_fn h' = less_fn h" "set (elems h') = insert e S"
    "\<And>x. x \<in> S \<longleftrightarrow> x \<in> set (elems h) \<and> \<not> eqv (less_fn h) x e"
  shows "hmap h' = (\<lambda>x. if eqv (less_fn h) e x then Some e else hmap h x)"
proof
  fix z
  have sw: "strict_weak (less_fn h)" using assms(1) by (simp add: hash_ok_def)
  show "hmap h' z = (if eqv (less_fn h) e z then Some e else hmap h z)"
  proof (rule hmap_eqI [OF assms(2), where m = "\<lambda>z. if eqv (less_fn h) e z then Some e else hmap h z"])
    fix x
    show "((if eqv (less_fn h) e z then Some e else hmap h z) = Some x) =
        (x \<in> set (elems h') \<and> eqv (less_fn h') x z)"
      unfolding assms(3,4) using hmap_Some [OF assms(1), of z x] assms(5) [of x]
        eqv_trans [OF sw, of x e z] eqv_trans [OF sw, of e x z] eqv_sym [of "less_fn h" x e] eqv_trans [OF sw, of x z e] eqv_sym [of "less_fn h" z e]
      by auto
  qed
qed

lemma hmap_del:
  assumes "hash_ok h" "hash_ok h'" "less_fn h' = less_fn h"
    "\<And>x. x \<in> set (elems h') \<longleftrightarrow> x \<in> set (elems h) \<and> \<not> eqv (less_fn h) x e"
  shows "hmap h' = (\<lambda>x. if eqv (less_fn h) e x then None else hmap h x)"
proof
  fix z
  have sw: "strict_weak (less_fn h)" using assms(1) by (simp add: hash_ok_def)
  show "hmap h' z = (if eqv (less_fn h) e z then None else hmap h z)"
  proof (rule hmap_eqI [OF assms(2), where m = "\<lambda>z. if eqv (less_fn h) e z then None else hmap h z"])
    fix x
    show "((if eqv (less_fn h) e z then None else hmap h z) = Some x) =
        (x \<in> set (elems h') \<and> eqv (less_fn h') x z)"
      unfolding assms(3) using hmap_Some [OF assms(1), of z x] assms(4) [of x]
        eqv_trans [OF sw, of x e z] eqv_trans [OF sw, of e x z] eqv_sym [of "less_fn h" x e] eqv_trans [OF sw, of x z e] eqv_sym [of "less_fn h" z e]
      by auto
  qed
qed

lemma hmap_None:
  assumes "hash_ok h"
  shows "hmap h e = None \<longleftrightarrow> (\<forall>x \<in> set (elems h). \<not> eqv (less_fn h) x e)"
  by (auto simp: hmap_def find_None_iff)

lemma hmap_same_set:
  assumes "hash_ok h" "hash_ok h'" "less_fn h' = less_fn h" "set (elems h') = set (elems h)"
  shows "hmap h' = hmap h"
  by (rule ext, rule hmap_eqI [OF assms(2)]) (simp add: hmap_Some [OF assms(1)] assms(3,4))

lemma eqv_stored:
  assumes "hash_ok h" "hmap h e = Some f" "x \<in> set (elems h)"
  shows "eqv (less_fn h) x e \<longleftrightarrow> x = f"
  using assms hmap_Some [OF assms(1), of e x] by auto

lemma insert_new_ok:
  assumes ok: "hash_ok h" and none: "hmap h e = None" and lim: "Suc (hash_size h) < 2 ^ 32 - 1"
  shows "\<exists>h1 h'. insert_elem h (find_bucket h e) e = Some h1 \<and> rehash mem h1 = Some h' \<and> hash_ok h'
    \<and> less_fn h' = less_fn h \<and> hmap h' = (\<lambda>x. if eqv (less_fn h) e x then Some e else hmap h x)
    \<and> hash_size h' = Suc (hash_size h)"
proof -
  have pu: "placed h" "unique_elems h" using ok by (simp_all add: hash_ok_alt)
  have fresh: "\<not> eqv (less_fn h) x e" if "x \<in> set (elems h)" for x
    using none that hmap_None [OF ok] by blast
  have "Suc (length (elems h)) < 2 ^ 32 - 1" using lim ok by (simp add: hash_ok_def hash_size_def)
  from insert_elem_ok [OF pu fresh this] obtain h1 where
    h1: "insert_elem h (find_bucket h e) e = Some h1" "placed h1" "unique_elems h1"
      "set (elems h1) = insert e (set (elems h))" "less_fn h1 = less_fn h" "h_elem_cnt h1 = Suc (h_elem_cnt h)" by blast
  from rehash_ok [OF h1(2,3), of mem] obtain h' where
    h': "rehash mem h1 = Some h'" "hash_ok h'" "set (elems h') = set (elems h1)" "less_fn h' = less_fn h1"
      "h_elem_cnt h' = h_elem_cnt h1" by blast
  have "hmap h' = (\<lambda>x. if eqv (less_fn h) e x then Some e else hmap h x)"
    by (rule hmap_ins [OF ok h'(2), where S = "set (elems h)"]) (use h1 h' fresh in auto)
  then show ?thesis using h1 h' by (auto simp: hash_size_def)
qed

lemma delete_ok:
  assumes ok: "hash_ok h" and f: "hmap h e = Some f"
  shows "\<exists>h'. rehash mem (remove_elem h f) = Some h' \<and> hash_ok h' \<and> less_fn h' = less_fn h
    \<and> hmap h' = (\<lambda>x. if eqv (less_fn h) e x then None else hmap h x) \<and> hash_size h' = hash_size h - 1"
proof -
  have fe: "f \<in> set (elems h)" using f hmap_Some [OF ok] by blast
  note r = remove_elem_ok [OF ok fe]
  from rehash_ok [OF r(1,2), of mem] obtain h' where
    h': "rehash mem (remove_elem h f) = Some h'" "hash_ok h'" "set (elems h') = set (elems h) - {f}"
      "less_fn h' = less_fn h" "h_elem_cnt h' = h_elem_cnt h - 1" using r(3-6) by auto
  have "hmap h' = (\<lambda>x. if eqv (less_fn h) e x then None else hmap h x)"
    by (rule hmap_del [OF ok h'(2,4)]) (use h'(3) eqv_stored [OF ok f] in auto)
  then show ?thesis using h' by (auto simp: hash_size_def)
qed

lemma replace_ok:
  assumes ok: "hash_ok h" and f: "hmap h e = Some f"
  shows "\<exists>h1 h'. insert_elem (remove_elem h f) (find_bucket h e) e = Some h1 \<and> rehash mem h1 = Some h' \<and> hash_ok h'
    \<and> less_fn h' = less_fn h \<and> hmap h' = (\<lambda>x. if eqv (less_fn h) e x then Some e else hmap h x)
    \<and> hash_size h' = hash_size h"
proof -
  have fe: "f \<in> set (elems h)" using f hmap_Some [OF ok] by blast
  note r = remove_elem_ok [OF ok fe]
  have S: "x \<in> set (elems h) - {f} \<longleftrightarrow> x \<in> set (elems h) \<and> \<not> eqv (less_fn h) x e" for x
    using eqv_stored [OF ok f] by auto
  have fb: "find_bucket (remove_elem h f) = find_bucket h"
    by (rule ext) (simp add: find_bucket_def remove_elem_def)
  have cnt: "h_elem_cnt h = length (elems h)" "length (elems h) < 2 ^ 32 - 1" "0 < length (elems h)"
    using ok fe by (auto simp: hash_ok_def)
  have "h_elem_cnt (remove_elem h f) = length (elems (remove_elem h f))" using r(2) by (simp add: unique_elems_def)
  then have "Suc (length (elems (remove_elem h f))) < 2 ^ 32 - 1" using cnt r(6) by simp
  from insert_elem_ok [OF r(1,2) _ this, of e] obtain h1 where
    h1: "insert_elem (remove_elem h f) (find_bucket h e) e = Some h1" "placed h1" "unique_elems h1"
      "set (elems h1) = insert e (set (elems h) - {f})" "less_fn h1 = less_fn h" "h_elem_cnt h1 = h_elem_cnt h"
    using S cnt r(3-6) unfolding fb by auto
  from rehash_ok [OF h1(2,3), of mem] obtain h' where
    h': "rehash mem h1 = Some h'" "hash_ok h'" "set (elems h') = set (elems h1)" "less_fn h' = less_fn h1"
      "h_elem_cnt h' = h_elem_cnt h1" by blast
  have "hmap h' = (\<lambda>x. if eqv (less_fn h) e x then Some e else hmap h x)"
    by (rule hmap_ins [OF ok h'(2), where S = "set (elems h) - {f}"]) (use h1 h' S in auto)
  then show ?thesis using h1 h' by (auto simp: hash_size_def)
qed

lemma hash_insert_ok:
  assumes ok: "hash_ok h" and lim: "hmap h e = None \<Longrightarrow> Suc (hash_size h) < 2 ^ 32 - 1"
  shows "\<exists>h'. hash_insert mem h e = Some (hmap h e, h') \<and> hash_ok h' \<and> less_fn h' = less_fn h
    \<and> (case hmap h e of
         None \<Rightarrow> hmap h' = (\<lambda>x. if eqv (less_fn h) e x then Some e else hmap h x) \<and> hash_size h' = Suc (hash_size h)
       | Some _ \<Rightarrow> hmap h' = hmap h \<and> hash_size h' = hash_size h)"
proof (cases "hmap h e")
  case None
  then show ?thesis using insert_new_ok [OF ok None lim [OF None], of mem] find_elem_hmap [OF ok, of e]
    by (auto simp: hash_insert_def Let_def)
next
  case (Some f)
  have pu: "placed h" "unique_elems h" using ok by (simp_all add: hash_ok_alt)
  from rehash_ok [OF this, of mem] obtain h' where
    h': "rehash mem h = Some h'" "hash_ok h'" "set (elems h') = set (elems h)" "less_fn h' = less_fn h"
      "h_elem_cnt h' = h_elem_cnt h" by blast
  then show ?thesis using Some find_elem_hmap [OF ok, of e] hmap_same_set [OF ok h'(2,4,3)]
    by (auto simp: hash_insert_def Let_def hash_size_def)
qed

lemma hash_sim:
  assumes r: "hash_rel lt h mn" and a: "hmap_step lt mn op = Some (res, mn')"
  shows "\<exists>h'. hash_step h op = Some (res, h') \<and> hash_rel lt h' mn'"
proof -
  obtain m n where mn: "mn = (m, n)" by fastforce
  have ok: "hash_ok h" and lt: "lt = less_fn h" and m: "m = hmap h" and n: "n = hash_size h"
    using r mn by (auto simp: hash_rel_def)
  show ?thesis
  proof (cases op)
    case (HInsert mem e)
    then show ?thesis using a hash_insert_ok [OF ok, of e mem]
      by (auto simp: mn m n lt hash_rel_def split: option.splits if_splits)
  next
    case (HReplace mem e)
    then show ?thesis
      using a insert_new_ok [OF ok, of e mem] replace_ok [OF ok, of e _ mem] find_elem_hmap [OF ok, of e]
      by (auto simp: mn m n lt hash_rel_def hash_replace_def Let_def split: option.splits if_splits)
  next
    case (HFind e)
    then show ?thesis using a find_elem_hmap [OF ok, of e] r by (auto simp: mn m n lt hash_find_def)
  next
    case (HDelete mem e)
    then show ?thesis using a delete_ok [OF ok, of e _ mem] find_elem_hmap [OF ok, of e] ok
      by (auto simp: mn m n lt hash_rel_def hash_delete_def split: option.splits if_splits)
  qed
qed

interpretation hash_table: simulation "hash_rel lt" hash_step "hmap_step lt" for lt
  by unfold_locales (rule hash_sim)

lemma hash_init_rel:
  assumes "strict_weak lt" "\<And>x y. eqv lt x y \<Longrightarrow> f x = f y"
  shows "\<exists>h. hash_init True f lt = Some h \<and> hash_rel lt h (Map.empty, 0)"
proof -
  have "bucket_cnt h = 4 \<Longrightarrow> \<exists>k \<ge> 2. k < 32 \<and> bucket_cnt h = 2 ^ k" for h :: "'b hash"
    by (intro exI [of _ 2]) simp
  then show ?thesis using assms
    by (auto simp: hash_init_def hash_clear_def hash_rel_def hash_ok_def elems_def hmap_def hash_size_def)
qed

subsection \<open>Iteration\<close>

lemma hash_next_loop_skip:
  assumes "length (buckets h) = bucket_cnt h" "b < bucket_cnt h" "concat (drop (Suc b) (buckets h)) \<noteq> []"
  shows "\<exists>b'. hash_next_loop h b (Suc (length (buckets h ! b))) = \<lparr>it_bucket = b', it_elem = Some 1\<rparr>
    \<and> b' < bucket_cnt h \<and> buckets h ! b' \<noteq> [] \<and> concat (drop (Suc b) (buckets h)) = concat (drop b' (buckets h))"
  using assms(2,3)
proof (induction "bucket_cnt h - b" arbitrary: b)
  case (Suc n)
  have b: "Suc b < bucket_cnt h"
    using Suc.prems(2) assms(1) by (cases "Suc b < bucket_cnt h") auto
  then have dr: "drop (Suc b) (buckets h) = buckets h ! Suc b # drop (Suc (Suc b)) (buckets h)"
    using assms(1) by (simp add: Cons_nth_drop_Suc)
  show ?case
  proof (cases "buckets h ! Suc b = []")
    case True
    then have "concat (drop (Suc b) (buckets h)) = concat (drop (Suc (Suc b)) (buckets h))" using dr by simp
    moreover from this have "\<exists>b'. hash_next_loop h (Suc b) (Suc (length (buckets h ! Suc b))) = \<lparr>it_bucket = b', it_elem = Some 1\<rparr>
      \<and> b' < bucket_cnt h \<and> buckets h ! b' \<noteq> []
      \<and> concat (drop (Suc (Suc b)) (buckets h)) = concat (drop b' (buckets h))"
      using Suc b by (intro Suc.hyps(1)) auto
    ultimately show ?thesis using b True by (auto simp: hash_next_loop.simps [of h b])
  next
    case False
    then show ?thesis
      using b by (auto simp: hash_next_loop.simps [of h b] hash_next_loop.simps [of h "Suc b"])
  qed
qed simp

lemma hash_next_loop_end:
  assumes "length (buckets h) = bucket_cnt h" "b < bucket_cnt h" "concat (drop (Suc b) (buckets h)) = []"
  shows "it_elem (hash_next_loop h b (Suc (length (buckets h ! b)))) = None"
  using assms(2,3)
proof (induction "bucket_cnt h - b" arbitrary: b)
  case (Suc n)
  show ?case
  proof (cases "Suc b < bucket_cnt h")
    case True
    then have "drop (Suc b) (buckets h) = buckets h ! Suc b # drop (Suc (Suc b)) (buckets h)"
      using assms(1) by (simp add: Cons_nth_drop_Suc)
    then have e: "buckets h ! Suc b = []" "concat (drop (Suc (Suc b)) (buckets h)) = []"
      using Suc.prems(2) by auto
    have "it_elem (hash_next_loop h (Suc b) (Suc (length (buckets h ! Suc b)))) = None"
      by (rule Suc.hyps(1)) (use Suc.hyps(2) True e in auto)
    then show ?thesis using True e by (simp add: hash_next_loop.simps [of h b])
  next
    case False
    then show ?thesis by (simp add: hash_next_loop.simps [of h b])
  qed
qed simp

lemma hash_iterate_from:
  assumes len: "length (buckets h) = bucket_cnt h" and "b < bucket_cnt h" "p \<le> length (buckets h ! b)"
  shows "hash_iterate h \<lparr>it_bucket = b, it_elem = Some p\<rparr>
    = Some (drop p (buckets h ! b) @ concat (drop (Suc b) (buckets h)))"
  using assms(2,3)
proof (induction "length (drop p (buckets h ! b) @ concat (drop (Suc b) (buckets h)))" arbitrary: b p
    rule: less_induct)
  case less
  show ?case
  proof (cases "p = length (buckets h ! b)")
    case False
    then have p: "p < length (buckets h ! b)" using less.prems by simp
    then have dr: "drop p (buckets h ! b) = buckets h ! b ! p # drop (Suc p) (buckets h ! b)"
      by (simp add: Cons_nth_drop_Suc)
    have "hash_iterate h \<lparr>it_bucket = b, it_elem = Some (Suc p)\<rparr>
        = Some (drop (Suc p) (buckets h ! b) @ concat (drop (Suc b) (buckets h)))"
      using less.prems p by (intro less.hyps) auto
    then show ?thesis using len less.prems p dr
      by (simp add: hash_iterate.simps [of h "\<lparr>it_bucket = b, it_elem = Some p\<rparr>"] hash_next_def hash_next_loop.simps [of h b] hash_cur_def)
  next
    case True
    note p = this
    show ?thesis
    proof (cases "concat (drop (Suc b) (buckets h)) = []")
      case True
      then show ?thesis using hash_next_loop_end [OF len less.prems(1) True] p less.prems len
        by (simp add: hash_iterate.simps [of h "\<lparr>it_bucket = b, it_elem = Some (length (buckets h ! b))\<rparr>"]
            hash_next_def Let_def hash_cur_def del: concat_eq_Nil_conv)
    next
      case False
      from hash_next_loop_skip [OF len less.prems(1) False] obtain b' where
        b': "hash_next_loop h b (Suc (length (buckets h ! b))) = \<lparr>it_bucket = b', it_elem = Some 1\<rparr>"
          "b' < bucket_cnt h" "buckets h ! b' \<noteq> []" "concat (drop (Suc b) (buckets h)) = concat (drop b' (buckets h))"
        by blast
      have dr: "drop b' (buckets h) = buckets h ! b' # drop (Suc b') (buckets h)"
        using b'(2) len by (simp add: Cons_nth_drop_Suc)
      obtain x xs where x: "buckets h ! b' = x # xs" using b'(3) by (cases "buckets h ! b'") auto
      have "hash_iterate h \<lparr>it_bucket = b', it_elem = Some 1\<rparr>
          = Some (drop 1 (buckets h ! b') @ concat (drop (Suc b') (buckets h)))"
        using b'(2,4) dr x p by (intro less.hyps) (auto simp del: length_concat)
      then show ?thesis using len less.prems p b' dr x
        by (simp add: hash_iterate.simps [of h "\<lparr>it_bucket = b, it_elem = Some (length (buckets h ! b))\<rparr>"]
            hash_next_def hash_cur_def)
    qed
  qed
qed

section \<open>Properties\<close>

text \<open>
  C6. The hash table refines a map on equivalence classes of elements: for every sequence of
  insertions, replacements, lookups and deletions, whatever the outcomes of the bucket-array
  allocations, the table returns what the map returns, its element counter is the number of
  stored elements, and its invariant holds: a power-of-two number of buckets, every element in
  the bucket that its hash selects, no two equivalent elements.
\<close>

theorem hash_refines_map:
  assumes "hash_rel lt h mn" "run_steps (hmap_step lt) mn ops = Some (rs, mn')"
  shows "\<exists>h'. run_steps hash_step h ops = Some (rs, h') \<and> hash_rel lt h' mn'"
  using hash_table.run_sim [OF assms] .

theorem hash_refines_map_witness:
  "\<exists>h h'. hash_init True (\<lambda>p :: nat \<times> nat. of_nat (fst p)) (\<lambda>p q. fst p < fst q) = Some h
     \<and> run_steps hash_step h [HInsert True (1, 10), HReplace False (1, 11), HDelete True (2, 0), HFind (1, 0)]
         = Some ([None, Some (1, 10), None, Some (1, 11)], h') \<and> hash_size h' = 1"
proof -
  let ?lt = "\<lambda>p q :: nat \<times> nat. fst p < fst q"
  have "strict_weak ?lt" by (auto simp: strict_weak_def)
  moreover have "eqv ?lt x y \<Longrightarrow> (of_nat (fst x) :: u32) = of_nat (fst y)" for x y :: "nat \<times> nat"
    by (metis eqv_def linorder_neqE_nat)
  ultimately obtain h where h: "hash_init True (\<lambda>p. of_nat (fst p)) ?lt = Some h" "hash_rel ?lt h (Map.empty, 0)"
    using hash_init_rel [of ?lt "\<lambda>p. of_nat (fst p)"] by blast
  have "\<exists>m. run_steps (hmap_step ?lt) (Map.empty, 0) [HInsert True (1, 10), HReplace False (1, 11), HDelete True (2, 0), HFind (1, 0)]
      = Some ([None, Some (1, 10), None, Some (1, 11)], m, 1)"
    by (simp add: eqv_def)
  then obtain m where "run_steps (hmap_step ?lt) (Map.empty, 0) [HInsert True (1, 10), HReplace False (1, 11), HDelete True (2, 0), HFind (1, 0)]
      = Some ([None, Some (1, 10), None, Some (1, 11)], m, 1)" by blast
  from hash_refines_map [OF h(2) this] show ?thesis using h(1) by (auto simp: hash_rel_def)
qed

text \<open>
  C17. Iterating over a table with \<^verbatim>\<open>hash_first\<close> and \<^verbatim>\<open>hash_next\<close> terminates and visits every
  stored element exactly once, in the order in which \<^verbatim>\<open>hash_apply\<close> calls its action.
\<close>

theorem hash_iterate_all:
  assumes "hash_ok h"
  shows "hash_iterate h (hash_first h) = Some (hash_apply h) \<and> distinct (hash_apply h)
    \<and> length (hash_apply h) = hash_size h \<and> (\<forall>e. e \<in> set (hash_apply h) \<longleftrightarrow> hmap h e = Some e)"
proof -
  have len: "length (buckets h) = bucket_cnt h" and pos: "0 < bucket_cnt h" using assms by (auto simp: hash_ok_def)
  have ap: "hash_apply h = elems h" using len by (simp add: hash_apply_def elems_def)
  have "buckets h = buckets h ! 0 # drop (Suc 0) (buckets h)"
    using len pos Cons_nth_drop_Suc [of 0 "buckets h"] by simp
  then have "elems h = buckets h ! 0 @ concat (drop (Suc 0) (buckets h))"
    unfolding elems_def by (metis concat.simps(2))
  then have "hash_iterate h (hash_first h) = Some (elems h)"
    using hash_iterate_from [OF len pos, of 0] by (simp add: hash_first_def)
  moreover have "e \<in> set (elems h) \<longleftrightarrow> hmap h e = Some e" for e
    using hmap_Some [OF assms] eqv_refl [of "less_fn h"] assms by (auto simp: hash_ok_def)
  moreover have "distinct (elems h)" "hash_size h = length (elems h)"
    using assms by (auto simp: hash_ok_def hash_size_def)
  ultimately show ?thesis unfolding ap by simp
qed

theorem hash_iterate_all_witness:
  "\<exists>h. hash_init True (\<lambda>n :: nat. of_nat n) (\<lambda>a b. a < b) = Some h
     \<and> hash_iterate h (hash_first h) = Some (hash_apply h) \<and> length (hash_apply h) = 0"
proof -
  have "strict_weak (\<lambda>(a :: nat) b. a < b)" by (auto simp: strict_weak_def)
  moreover have "eqv (\<lambda>(a :: nat) b. a < b) x y \<Longrightarrow> (of_nat x :: u32) = of_nat y" for x y :: nat
    by (metis eqv_def linorder_neqE_nat)
  ultimately obtain h where h: "hash_init True (\<lambda>n :: nat. of_nat n) (\<lambda>a b. a < b) = Some h"
    "hash_rel (\<lambda>a b. a < b) h (Map.empty, 0)"
    using hash_init_rel [of "\<lambda>(a :: nat) b. a < b" "\<lambda>n. of_nat n"] by blast
  then have "hash_ok h" "hash_size h = 0" by (simp_all add: hash_rel_def)
  from hash_iterate_all [OF this(1)] this(2) h(1) show ?thesis by auto
qed

end
