(* ===== verification/Vaddr.thy ===== *)
theory Vaddr
  imports Prelude
begin

text \<open>
  Virtual addresses and memory: the address macros of \<^verbatim>\<open>threads/vaddr.h\<close>, the page
  table entry format of \<^verbatim>\<open>threads/pte.h\<close>, and memory as a map from 32-bit addresses to
  bytes with the block operations and the little-endian word accesses that the kernel code
  makes. Addresses are 32-bit words, so that pointer arithmetic wraps as on the machine.
\<close>

type_synonym addr = u32
type_synonym memory = "addr \<Rightarrow> byte"

section \<open>Virtual addresses\<close>

definition BITMASK :: "nat \<Rightarrow> nat \<Rightarrow> u32" where
  "BITMASK shift cnt = push_bit shift (push_bit cnt 1 - 1)"

abbreviation PGBITS :: nat where
  "PGBITS \<equiv> 12"

abbreviation PGSIZE :: nat where
  "PGSIZE \<equiv> 4096"

definition PGMASK :: u32 where
  "PGMASK = BITMASK 0 PGBITS"

definition PHYS_BASE :: addr where
  "PHYS_BASE = 0xc0000000"

definition pg_ofs :: "addr \<Rightarrow> u32" where
  "pg_ofs va = va AND PGMASK"

definition pg_no :: "addr \<Rightarrow> u32" where
  "pg_no va = drop_bit PGBITS va"

definition pg_round_up :: "addr \<Rightarrow> addr" where
  "pg_round_up va = (va + of_nat PGSIZE - 1) AND NOT PGMASK"

definition pg_round_down :: "addr \<Rightarrow> addr" where
  "pg_round_down va = va AND NOT PGMASK"

definition is_user_vaddr :: "addr \<Rightarrow> bool" where
  "is_user_vaddr va \<longleftrightarrow> va < PHYS_BASE"

definition is_kernel_vaddr :: "addr \<Rightarrow> bool" where
  "is_kernel_vaddr va \<longleftrightarrow> va \<ge> PHYS_BASE"

definition ptov :: "u32 \<Rightarrow> addr option" where
  "ptov paddr = do {
     kassert (paddr < PHYS_BASE);
     Some (paddr + PHYS_BASE)
   }"

definition vtop :: "addr \<Rightarrow> u32 option" where
  "vtop va = do {
     kassert (is_kernel_vaddr va);
     Some (va - PHYS_BASE)
   }"

section \<open>Page table entries\<close>

abbreviation PTSHIFT :: nat where
  "PTSHIFT \<equiv> PGBITS"

abbreviation PDSHIFT :: nat where
  "PDSHIFT \<equiv> 22"

definition PTMASK :: u32 where
  "PTMASK = BITMASK PTSHIFT 10"

definition PTE_ADDR :: u32 where
  "PTE_ADDR = 0xfffff000"

definition PTE_P :: u32 where
  "PTE_P = 0x1"

definition PTE_W :: u32 where
  "PTE_W = 0x2"

definition PTE_U :: u32 where
  "PTE_U = 0x4"

definition PTE_A :: u32 where
  "PTE_A = 0x20"

definition PTE_D :: u32 where
  "PTE_D = 0x40"

definition pt_no :: "addr \<Rightarrow> u32" where
  "pt_no va = drop_bit PTSHIFT (va AND PTMASK)"

definition pd_no :: "addr \<Rightarrow> u32" where
  "pd_no va = drop_bit PDSHIFT va"

definition pde_create :: "addr \<Rightarrow> u32 option" where
  "pde_create pt = do {
     kassert (pg_ofs pt = 0);
     p \<leftarrow> vtop pt;
     Some (p OR PTE_U OR PTE_P OR PTE_W)
   }"

definition pde_get_pt :: "u32 \<Rightarrow> addr option" where
  "pde_get_pt pde = do {
     kassert (pde AND PTE_P \<noteq> 0);
     ptov (pde AND PTE_ADDR)
   }"

definition pte_create_kernel :: "addr \<Rightarrow> bool \<Rightarrow> u32 option" where
  "pte_create_kernel page writable = do {
     kassert (pg_ofs page = 0);
     p \<leftarrow> vtop page;
     Some (p OR PTE_P OR (if writable then PTE_W else 0))
   }"

definition pte_create_user :: "addr \<Rightarrow> bool \<Rightarrow> u32 option" where
  "pte_create_user page writable = do {
     pte \<leftarrow> pte_create_kernel page writable;
     Some (pte OR PTE_U)
   }"

definition pte_get_page :: "u32 \<Rightarrow> addr option" where
  "pte_get_page pte = ptov (pte AND PTE_ADDR)"

section \<open>Memory\<close>

text \<open>\<^verbatim>\<open>memset\<close> and \<^verbatim>\<open>memcpy\<close> of disjoint blocks, as maps.\<close>

definition mem_fill :: "memory \<Rightarrow> addr \<Rightarrow> byte \<Rightarrow> nat \<Rightarrow> memory" where
  "mem_fill m a v n = (\<lambda>x. if unat (x - a) < n then v else m x)"

definition mem_copy :: "memory \<Rightarrow> addr \<Rightarrow> addr \<Rightarrow> nat \<Rightarrow> memory" where
  "mem_copy m dst src n = (\<lambda>x. if unat (x - dst) < n then m (src + (x - dst)) else m x)"

definition load_word :: "memory \<Rightarrow> addr \<Rightarrow> u32" where
  "load_word m a = ucast (m a) OR push_bit 8 (ucast (m (a + 1))) OR push_bit 16 (ucast (m (a + 2)))
     OR push_bit 24 (ucast (m (a + 3)))"

definition store_word :: "memory \<Rightarrow> addr \<Rightarrow> u32 \<Rightarrow> memory" where
  "store_word m a w = m(a := ucast w, a + 1 := ucast (drop_bit 8 w), a + 2 := ucast (drop_bit 16 w),
     a + 3 := ucast (drop_bit 24 w))"

section \<open>Lemmas\<close>

lemma BITMASK_mask: "cnt < 32 \<Longrightarrow> BITMASK s cnt = push_bit s (mask cnt)"
  by (simp add: BITMASK_def mask_eq_exp_minus_1 push_bit_of_1)

lemma unat_pg_ofs: "unat (pg_ofs va) = unat va mod PGSIZE"
proof -
  have "pg_ofs va = take_bit 12 va"
    by (simp add: pg_ofs_def PGMASK_def BITMASK_mask take_bit_eq_mask)
  then show ?thesis by (simp add: take_bit_eq_mod unat_mod)
qed

lemma unat_pg_no: "unat (pg_no va) = unat va div PGSIZE"
  by (simp add: pg_no_def drop_bit_eq_div unat_div)

lemma unat_pd_no: "unat (pd_no va) = unat va div 2 ^ 22"
  by (simp add: pd_no_def drop_bit_eq_div unat_div)

lemma unat_pt_no: "unat (pt_no va) = unat va div PGSIZE mod 1024"
proof -
  have "pt_no va = take_bit 10 (drop_bit 12 va)"
    unfolding pt_no_def PTMASK_def BITMASK_mask [of 10, simplified]
    by (rule bit_word_eqI) (auto simp: bit_simps)
  then show ?thesis by (simp add: take_bit_eq_mod drop_bit_eq_div unat_div unat_mod)
qed

lemma pg_round_down_eq: "pg_round_down va = va - pg_ofs va"
proof -
  have "(va AND NOT PGMASK) AND (va AND PGMASK) = 0" by (rule bit_word_eqI) (auto simp: bit_simps)
  then have "(va AND NOT PGMASK) + (va AND PGMASK) = (va AND NOT PGMASK) OR (va AND PGMASK)"
    by (rule disjunctive_add_eq_or)
  also have "\<dots> = va" by (rule bit_word_eqI) (auto simp: bit_simps)
  finally show ?thesis unfolding pg_round_down_def pg_ofs_def by (metis add_diff_cancel_right')
qed

lemma unat_pg_round_down: "unat (pg_round_down va) = unat va - unat va mod PGSIZE"
proof -
  have "pg_ofs va \<le> va" by (simp add: pg_ofs_def word_and_le2)
  then show ?thesis by (simp add: pg_round_down_eq unat_sub unat_pg_ofs)
qed

lemma pg_ofs_0_iff: "pg_ofs va = 0 \<longleftrightarrow> unat va mod PGSIZE = 0"
  using unat_pg_ofs [of va] by (metis unat_eq_zero)

lemma pg_ofs_round_down [simp]: "pg_ofs (pg_round_down va) = 0"
  by (simp add: pg_ofs_0_iff unat_pg_round_down minus_mod_eq_mult_div)

lemma ptov_vtop: "vtop va = Some p \<Longrightarrow> p < PHYS_BASE \<Longrightarrow> ptov p = Some va"
  by (auto simp: vtop_def ptov_def split: if_splits)

end
