(* ===== verification/Palloc.thy ===== *)
theory Palloc
  imports Kernel_Bitmap Vaddr
begin

text \<open>
  The page allocator of \<^verbatim>\<open>threads/palloc.c\<close>: a kernel and a user pool, each a bitmap of
  pages in use and a base address. Each call is one step; the pool lock only makes the scan
  atomic and is not part of the state. The records are extensible, so that the components that
  live in the same memory (page directories, frames) extend them.
\<close>

section \<open>Data\<close>

definition PAL_ASSERT :: nat where
  "PAL_ASSERT = 1"

definition PAL_ZERO :: nat where
  "PAL_ZERO = 2"

definition PAL_USER :: nat where
  "PAL_USER = 4"

record pool =
  used_map :: bitmap
  pool_base :: addr

record palloc_state =
  kernel_pool :: pool
  user_pool :: pool
  mem :: memory

section \<open>Operations\<close>

text \<open>\<^verbatim>\<open>flags & FLAG\<close> as a condition.\<close>

definition has_flag :: "nat \<Rightarrow> nat \<Rightarrow> bool" where
  "has_flag flags f \<longleftrightarrow> flags AND f \<noteq> 0"

definition get_pool :: "bool \<Rightarrow> 'a palloc_state_scheme \<Rightarrow> pool" where
  "get_pool user s = (if user then user_pool s else kernel_pool s)"

definition set_used_map :: "bool \<Rightarrow> bitmap \<Rightarrow> 'a palloc_state_scheme \<Rightarrow> 'a palloc_state_scheme" where
  "set_used_map user b s =
     (if user then s\<lparr>user_pool := (user_pool s)\<lparr>used_map := b\<rparr>\<rparr>
      else s\<lparr>kernel_pool := (kernel_pool s)\<lparr>used_map := b\<rparr>\<rparr>)"

definition page_from_pool :: "pool \<Rightarrow> addr \<Rightarrow> bool" where
  "page_from_pool p page =
     (let page_no = pg_no page;
          start_page = pg_no (pool_base p);
          end_page = start_page + of_nat (bitmap_size (used_map p))
      in page_no \<ge> start_page \<and> page_no < end_page)"

text \<open>\<open>raw\<close> is the old contents of the storage in which the bitmap is placed.\<close>

definition init_pool :: "elem_type list \<Rightarrow> addr \<Rightarrow> nat \<Rightarrow> pool option" where
  "init_pool raw base page_cnt = do {
     let bm_pages = DIV_ROUND_UP (bitmap_buf_size page_cnt) PGSIZE;
     kassert (bm_pages \<le> page_cnt);
     let page_cnt = page_cnt - bm_pages;
     b \<leftarrow> bitmap_create_in_buf page_cnt raw (size_mul bm_pages PGSIZE);
     Some \<lparr>used_map = b, pool_base = base + of_nat (size_mul bm_pages PGSIZE)\<rparr>
   }"

definition palloc_init ::
    "elem_type list \<Rightarrow> elem_type list \<Rightarrow> nat \<Rightarrow> nat \<Rightarrow> (pool \<times> pool) option" where
  "palloc_init kraw uraw init_ram_pages user_page_limit = do {
     free_start \<leftarrow> ptov (1024 * 1024);
     free_end \<leftarrow> ptov (of_nat (size_mul init_ram_pages PGSIZE));
     let free_pages = unat (free_end - free_start) div PGSIZE;
     let user_pages = free_pages div 2;
     let user_pages = (if user_pages > user_page_limit then user_page_limit else user_pages);
     let kernel_pages = free_pages - user_pages;
     k \<leftarrow> init_pool kraw free_start kernel_pages;
     u \<leftarrow> init_pool uraw (free_start + of_nat (size_mul kernel_pages PGSIZE)) user_pages;
     Some (k, u)
   }"

definition palloc_get_multiple ::
    "nat \<Rightarrow> nat \<Rightarrow> 'a palloc_state_scheme \<Rightarrow> (addr \<times> 'a palloc_state_scheme) option" where
  "palloc_get_multiple flags page_cnt s = do {
     let user = has_flag flags PAL_USER;
     if page_cnt = 0 then Some (0, s)
     else do {
       (page_idx, b) \<leftarrow> bitmap_scan_and_flip (used_map (get_pool user s)) 0 page_cnt False;
       let s = set_used_map user b s;
       let pages = (if page_idx \<noteq> BITMAP_ERROR
         then pool_base (get_pool user s) + of_nat (size_mul PGSIZE page_idx) else 0);
       if pages \<noteq> 0 then
         Some (pages, if has_flag flags PAL_ZERO
           then s\<lparr>mem := mem_fill (mem s) pages 0 (size_mul PGSIZE page_cnt)\<rparr> else s)
       else if has_flag flags PAL_ASSERT then None
       else Some (pages, s)
     }
   }"

definition palloc_get_page :: "nat \<Rightarrow> 'a palloc_state_scheme \<Rightarrow> (addr \<times> 'a palloc_state_scheme) option" where
  "palloc_get_page flags s = palloc_get_multiple flags 1 s"

definition palloc_free_multiple ::
    "addr \<Rightarrow> nat \<Rightarrow> 'a palloc_state_scheme \<Rightarrow> 'a palloc_state_scheme option" where
  "palloc_free_multiple pages page_cnt s = do {
     kassert (pg_ofs pages = 0);
     if pages = 0 \<or> page_cnt = 0 then Some s
     else do {
       user \<leftarrow> (if page_from_pool (kernel_pool s) pages then Some False
               else if page_from_pool (user_pool s) pages then Some True
               else None);
       let page_idx = unat (pg_no pages - pg_no (pool_base (get_pool user s)));
       let s = s\<lparr>mem := mem_fill (mem s) pages 0xcc (size_mul PGSIZE page_cnt)\<rparr>;
       full \<leftarrow> bitmap_all (used_map (get_pool user s)) page_idx page_cnt;
       kassert full;
       b \<leftarrow> bitmap_set_multiple (used_map (get_pool user s)) page_idx page_cnt False;
       Some (set_used_map user b s)
     }
   }"

definition palloc_free_page :: "addr \<Rightarrow> 'a palloc_state_scheme \<Rightarrow> 'a palloc_state_scheme option" where
  "palloc_free_page page s = palloc_free_multiple page 1 s"

section \<open>Invariant and interface\<close>

definition pool_ok :: "pool \<Rightarrow> bool" where
  "pool_ok p \<longleftrightarrow> bitmap_ok (used_map p) \<and> pg_ofs (pool_base p) = 0 \<and> 0 < unat (pool_base p)
     \<and> unat (pool_base p) + PGSIZE * bit_cnt (used_map p) \<le> 2 ^ 32"

definition palloc_ok :: "'a palloc_state_scheme \<Rightarrow> bool" where
  "palloc_ok s \<longleftrightarrow> pool_ok (kernel_pool s) \<and> pool_ok (user_pool s)
     \<and> unat (pool_base (kernel_pool s)) + PGSIZE * bit_cnt (used_map (kernel_pool s)) \<le> unat (pool_base (user_pool s))"

text \<open>The address of a pool's \<open>i\<close>-th page, and the pages of a pool that are in use.\<close>

definition page_addr :: "pool \<Rightarrow> nat \<Rightarrow> addr" where
  "page_addr p i = pool_base p + of_nat (PGSIZE * i)"

definition pool_used :: "bool \<Rightarrow> 'a palloc_state_scheme \<Rightarrow> nat set" where
  "pool_used user s = bitmap_used (used_map (get_pool user s))"

definition pool_pages :: "bool \<Rightarrow> 'a palloc_state_scheme \<Rightarrow> nat" where
  "pool_pages user s = bit_cnt (used_map (get_pool user s))"

text \<open>A client's view of one pool: runs of page numbers.\<close>

definition pool_take :: "bool \<Rightarrow> 'a palloc_state_scheme \<Rightarrow> nat \<Rightarrow> (nat option \<times> 'a palloc_state_scheme) option" where
  "pool_take user s n = do {
     (p, s) \<leftarrow> palloc_get_multiple (if user then PAL_USER else 0) n s;
     Some (if p = 0 then None else Some (unat (pg_no p - pg_no (pool_base (get_pool user s)))), s)
   }"

definition pool_give :: "bool \<Rightarrow> 'a palloc_state_scheme \<Rightarrow> nat \<Rightarrow> nat \<Rightarrow> 'a palloc_state_scheme option" where
  "pool_give user s i n = palloc_free_multiple (page_addr (get_pool user s) i) n s"

section \<open>Lemmas\<close>

lemma unat_of_nat_small: "n < 2 ^ 32 \<Longrightarrow> unat (of_nat n :: u32) = n"
  by (simp add: unat_of_nat)

lemma unat_add_of_nat: "unat (a + of_nat j :: u32) = (unat a + j mod 2 ^ 32) mod 2 ^ 32"
  by (simp add: unat_word_ariths(1) unat_of_nat)

lemma page_addr_aligned:
  assumes "pg_ofs (pool_base p) = 0"
  shows "pg_ofs (page_addr p i) = 0"
proof -
  have "unat (page_addr p i) = (unat (pool_base p) + PGSIZE * i mod 2 ^ 32) mod 2 ^ 32"
    unfolding page_addr_def by (rule unat_add_of_nat)
  then have "unat (page_addr p i) mod PGSIZE = (unat (pool_base p) + PGSIZE * i) mod PGSIZE"
    by (simp add: mod_mod_cancel mod_add_right_eq)
  then show ?thesis using assms by (simp add: pg_ofs_0_iff)
qed

lemma page_addr_unat:
  assumes "pool_ok p" "i < bit_cnt (used_map p)"
  shows "unat (page_addr p i) = unat (pool_base p) + PGSIZE * i"
proof -
  have lt: "unat (pool_base p) + PGSIZE * i < 2 ^ 32" using assms by (simp add: pool_ok_def)
  then have "unat (of_nat (PGSIZE * i) :: u32) = PGSIZE * i" by (intro unat_of_nat_small) simp
  then show ?thesis using lt unat_add_lem [of "pool_base p" "of_nat (PGSIZE * i)"]
    by (simp add: page_addr_def)
qed

lemma page_addr_props:
  assumes "pool_ok p" "i < bit_cnt (used_map p)"
  shows "page_addr p i \<noteq> 0" "pg_ofs (page_addr p i) = 0"
    "unat (pg_no (page_addr p i)) = unat (pg_no (pool_base p)) + i"
    "unat (pg_no (page_addr p i) - pg_no (pool_base p)) = i"
proof -
  note u = page_addr_unat [OF assms]
  show "page_addr p i \<noteq> 0" using u assms(1) by (auto simp: pool_ok_def)
  have al: "unat (pool_base p) mod PGSIZE = 0" using assms(1) by (simp add: pool_ok_def pg_ofs_0_iff)
  then show "pg_ofs (page_addr p i) = 0" by (simp add: pg_ofs_0_iff u)
  show n: "unat (pg_no (page_addr p i)) = unat (pg_no (pool_base p)) + i" using al by (simp add: unat_pg_no u)
  then have "pg_no (pool_base p) \<le> pg_no (page_addr p i)" by (simp add: word_le_nat_alt)
  then show "unat (pg_no (page_addr p i) - pg_no (pool_base p)) = i" using n by (simp add: unat_sub)
qed

lemma page_from_pool_iff:
  assumes "pool_ok p"
  shows "page_from_pool p a \<longleftrightarrow> unat (pool_base p) div PGSIZE \<le> unat a div PGSIZE
    \<and> unat a div PGSIZE < unat (pool_base p) div PGSIZE + bit_cnt (used_map p)"
proof -
  let ?n = "bit_cnt (used_map p)"
  have b: "unat (pool_base p) + PGSIZE * ?n \<le> 2 ^ 32" using assms by (simp add: pool_ok_def)
  then have "unat (pool_base p) div PGSIZE + ?n \<le> 2 ^ 32 div PGSIZE"
    by (metis add.commute div_le_mono div_mult_self4 zero_neq_numeral)
  then have lt: "unat (pg_no (pool_base p)) + ?n < 2 ^ 32" by (simp add: unat_pg_no)
  then have "unat (of_nat ?n :: u32) = ?n" by (intro unat_of_nat_small) simp
  then have "unat (pg_no (pool_base p) + of_nat ?n) = unat (pool_base p) div PGSIZE + ?n"
    using lt unat_add_lem [of "pg_no (pool_base p)" "of_nat ?n :: u32"] by (simp add: unat_pg_no)
  then show ?thesis
    by (simp add: page_from_pool_def Let_def bitmap_size_def word_le_nat_alt word_less_nat_alt unat_pg_no)
qed

lemma page_from_pool_own: 
  assumes "pool_ok p" "i < bit_cnt (used_map p)"
  shows "page_from_pool p (page_addr p i)"
proof -
  have "unat (page_addr p i) div PGSIZE = unat (pool_base p) div PGSIZE + i"
    using page_addr_props(3) [OF assms] by (simp add: unat_pg_no)
  then show ?thesis using assms(2) by (simp add: page_from_pool_iff [OF assms(1)])
qed

lemma page_from_pool_other:
  assumes "palloc_ok s" "i < bit_cnt (used_map (user_pool s))"
  shows "\<not> page_from_pool (kernel_pool s) (page_addr (user_pool s) i)"
proof -
  let ?k = "kernel_pool s" and ?u = "user_pool s"
  have ok: "pool_ok ?k" "pool_ok ?u"
    and sep: "unat (pool_base ?k) + PGSIZE * bit_cnt (used_map ?k) \<le> unat (pool_base ?u)"
    using assms(1) by (auto simp: palloc_ok_def)
  have "unat (pool_base ?k) div PGSIZE + bit_cnt (used_map ?k) \<le> unat (pool_base ?u) div PGSIZE"
    using div_le_mono [OF sep, of PGSIZE] by simp
  then show ?thesis using page_addr_props(3) [OF ok(2) assms(2)]
    by (simp add: page_from_pool_iff [OF ok(1)] unat_pg_no)
qed

lemma pool_simps [simp]:
  "get_pool user (s\<lparr>mem := m\<rparr>) = get_pool user s"
  "mem (set_used_map user b s) = mem s"
  "used_map (get_pool user (set_used_map user b s)) = b"
  "pool_base (get_pool user' (set_used_map user b s)) = pool_base (get_pool user' s)"
  "get_pool (\<not> user) (set_used_map user b s) = get_pool (\<not> user) s"
  by (auto simp: get_pool_def set_used_map_def)

lemma palloc_ok_alt:
  "palloc_ok s \<longleftrightarrow> (\<forall>user. pool_ok (get_pool user s)) \<and>
     unat (pool_base (get_pool False s)) + PGSIZE * bit_cnt (used_map (get_pool False s)) \<le> unat (pool_base (get_pool True s))"
  by (simp add: palloc_ok_def get_pool_def all_bool_eq conj_commute)

lemma palloc_ok_mem [simp]: "palloc_ok (s\<lparr>mem := m\<rparr>) = palloc_ok s"
  by (simp add: palloc_ok_alt)

lemma palloc_ok_set_used_map:
  assumes "palloc_ok s" "bitmap_ok b" "bit_cnt b = bit_cnt (used_map (get_pool user s))"
  shows "palloc_ok (set_used_map user b s)"
  using assms by (cases user) (auto simp: palloc_ok_def pool_ok_def get_pool_def set_used_map_def)

text \<open>
  Allocation, in terms of the pages in use: either there is no run of free pages, or the result
  is the address of a run that was free.
\<close>

lemma palloc_get_multiple_cases:
  assumes ok: "palloc_ok s" and n: "0 < n" and user: "user = has_flag flags PAL_USER"
  obtains (full) "palloc_get_multiple flags n s = (if has_flag flags PAL_ASSERT then None else Some (0, s))"
      "find_run 0 n False (bits_of (used_map (get_pool user s))) = None"
    | (got) i b where "palloc_get_multiple flags n s = Some (page_addr (get_pool user s) i,
         if has_flag flags PAL_ZERO
         then (set_used_map user b s)\<lparr>mem := mem_fill (mem s) (page_addr (get_pool user s) i) 0 (PGSIZE * n)\<rparr>
         else set_used_map user b s)"
      "i + n \<le> pool_pages user s" "run (i, n) \<inter> pool_used user s = {}"
      "bitmap_ok b" "bit_cnt b = pool_pages user s" "bitmap_used b = pool_used user s \<union> run (i, n)"
proof -
  let ?p = "get_pool user s"
  have pk: "pool_ok ?p" and bk: "bitmap_ok (used_map ?p)"
    using ok by (auto simp: palloc_ok_alt pool_ok_def)
  note sf = bitmap_scan_and_flip_bits [OF bk, of 0 n False]
  show ?thesis
  proof (cases "find_run 0 n False (bits_of (used_map ?p))")
    case None
    from sf None obtain b1 where b1: "bitmap_scan_and_flip (used_map ?p) 0 n False = Some (BITMAP_ERROR, b1)" by auto
    then have "b1 = used_map ?p" using bitmap_scan_bits [OF bk, of 0 n False] None
      by (auto simp: bitmap_scan_and_flip_def)
    then have "set_used_map user b1 s = s" by (auto simp: set_used_map_def get_pool_def)
    then have "palloc_get_multiple flags n s = (if has_flag flags PAL_ASSERT then None else Some (0, s))"
      using n b1 by (simp add: palloc_get_multiple_def user [symmetric] Let_def)
    then show ?thesis by (rule full [OF _ None])
  next
    case (Some i)
    from sf Some obtain b where b: "bitmap_scan_and_flip (used_map ?p) 0 n False = Some (i, b)" "bitmap_ok b"
      "bit_cnt b = bit_cnt (used_map ?p)" by auto
    have le: "i + n \<le> bit_cnt (used_map ?p)" using find_run_SomeD(2) [OF Some] by simp
    then have i: "i < bit_cnt (used_map ?p)" "i \<noteq> BITMAP_ERROR"
      using n bitmap_ok_small [OF bk] by (simp_all add: BITMAP_ERROR_def)
    then have tk: "bitmap_take (used_map ?p) n = Some (Some i, b)" using b(1) by (simp add: bitmap_take_def)
    have "PGSIZE * bit_cnt (used_map ?p) < 2 ^ 32" using pk by (simp add: pool_ok_def)
    then have sz: "size_mul PGSIZE i = PGSIZE * i" "size_mul PGSIZE n = PGSIZE * n"
      using le by (auto intro!: size_mul_small)
    show ?thesis
    proof (rule got [OF _ _ _ b(2)])
      show "palloc_get_multiple flags n s = Some (page_addr (get_pool user s) i,
         if has_flag flags PAL_ZERO
         then (set_used_map user b s)\<lparr>mem := mem_fill (mem s) (page_addr (get_pool user s) i) 0 (PGSIZE * n)\<rparr>
         else set_used_map user b s)"
        using n b(1) i(2) page_addr_props(1) [OF pk i(1)]
        by (simp add: palloc_get_multiple_def user [symmetric] Let_def sz page_addr_def)
    qed (use bitmap_slots.alloc_some [OF bk tk] b(3) in \<open>simp_all add: pool_used_def pool_pages_def\<close>)
  qed
qed

lemma palloc_free_multiple_ok:
  assumes ok: "palloc_ok s" and le: "i + n \<le> pool_pages user s" and n: "0 < n" and sub: "run (i, n) \<subseteq> pool_used user s"
  shows "\<exists>b. palloc_free_multiple (page_addr (get_pool user s) i) n s
      = Some (set_used_map user b (s\<lparr>mem := mem_fill (mem s) (page_addr (get_pool user s) i) 0xcc (PGSIZE * n)\<rparr>))
    \<and> bitmap_ok b \<and> bit_cnt b = pool_pages user s \<and> bitmap_used b = pool_used user s - run (i, n)"
proof -
  let ?p = "get_pool user s"
  have pk: "pool_ok ?p" and bk: "bitmap_ok (used_map ?p)"
    using ok by (auto simp: palloc_ok_alt pool_ok_def)
  have i: "i < bit_cnt (used_map ?p)" and le': "i + n \<le> bit_cnt (used_map ?p)" using le n by (auto simp: pool_pages_def)
  note pp = page_addr_props [OF pk i]
  have who: "(if page_from_pool (kernel_pool s) (page_addr ?p i) then Some False
      else if page_from_pool (user_pool s) (page_addr ?p i) then Some True else None) = Some user"
    using page_from_pool_own [OF pk i] page_from_pool_other [OF ok, of i] i by (cases user) (auto simp: get_pool_def)
  have "PGSIZE * bit_cnt (used_map ?p) < 2 ^ 32" using pk by (simp add: pool_ok_def)
  then have sz: "size_mul PGSIZE n = PGSIZE * n" using le' by (auto intro!: size_mul_small)
  have "False \<notin> set (segment i n (bits_of (used_map ?p)))"
  proof -
    have "bits_of (used_map ?p) ! (i + k)" if "k < n" for k
    proof -
      have "i + k \<in> run (i, n)" using that by (simp add: run_def)
      then show ?thesis using sub by (auto simp: pool_used_def bitmap_used_def simp del: bits_of_nth)
    qed
    then show ?thesis using le' by (auto simp: in_set_conv_nth simp del: bits_of_nth)
  qed
  then have "bitmap_all (used_map ?p) i n = Some True"
    using bitmap_contains_bits [OF bk le'] by (simp add: bitmap_all_def)
  moreover obtain b where "bitmap_give (used_map ?p) i n = Some b" "bitmap_ok b" "bit_cnt b = bit_cnt (used_map ?p)"
      "bitmap_used b = bitmap_used (used_map ?p) - run (i, n)"
    using bitmap_slots.release_run [OF bk le'] sub by (auto simp: pool_used_def)
  ultimately show ?thesis using pp n who
    by (auto simp: palloc_free_multiple_def Let_def sz bitmap_give_def pool_pages_def pool_used_def)
qed

lemma pool_used_upd [simp]:
  "pool_used user (set_used_map user b s) = bitmap_used b" "pool_used user (s\<lparr>mem := m\<rparr>) = pool_used user s"
  "pool_pages user (set_used_map user b s) = bit_cnt b" "pool_pages user (s\<lparr>mem := m\<rparr>) = pool_pages user s"
  by (simp_all add: pool_used_def pool_pages_def)

lemma pool_take_cases:
  assumes ok: "palloc_ok s"
  obtains (none) "pool_take user s n = Some (None, s)"
    | (some) i s' where "pool_take user s n = Some (Some i, s')" "palloc_ok s'" "pool_pages user s' = pool_pages user s"
       "i + n \<le> pool_pages user s" "run (i, n) \<inter> pool_used user s = {}" "pool_used user s' = pool_used user s \<union> run (i, n)"
proof (cases "n = 0")
  case True
  then show ?thesis using none by (simp add: pool_take_def palloc_get_multiple_def)
next
  case False
  then have n: "0 < n" by simp
  let ?f = "if user then PAL_USER else 0"
  have u: "user = has_flag ?f PAL_USER" and fl: "\<not> has_flag ?f PAL_ASSERT" "\<not> has_flag ?f PAL_ZERO"
    by (auto simp: has_flag_def PAL_USER_def PAL_ASSERT_def PAL_ZERO_def)
  show ?thesis
  proof (cases rule: palloc_get_multiple_cases [OF ok n u, case_names full got])
    case full
    then show ?thesis using none fl by (simp add: pool_take_def)
  next
    case (got i b)
    have pk: "pool_ok (get_pool user s)" using ok by (simp add: palloc_ok_alt)
    have i: "i < bit_cnt (used_map (get_pool user s))" using got(2) n by (simp add: pool_pages_def)
    have "pool_take user s n = Some (Some i, set_used_map user b s)"
      using got(1) fl page_addr_props [OF pk i] by (simp add: pool_take_def)
    then show ?thesis using some got palloc_ok_set_used_map [OF ok got(4)] by (simp add: pool_pages_def)
  qed
qed

interpretation palloc_slots: slots palloc_ok "pool_used user" "pool_pages user" "pool_take user" "pool_give user"
  for user
proof
  fix s :: "'a palloc_state_scheme" and n assume ok: "palloc_ok s"
  show "\<exists>r s'. pool_take user s n = Some (r, s') \<and> palloc_ok s' \<and> pool_pages user s' = pool_pages user s"
    by (cases rule: pool_take_cases [OF ok, of user n]) (use ok in auto)
next
  fix s s' :: "'a palloc_state_scheme" and n assume ok: "palloc_ok s" and t: "pool_take user s n = Some (None, s')"
  show "pool_used user s' = pool_used user s"
    by (cases rule: pool_take_cases [OF ok, of user n]) (use t in auto)
next
  fix s s' :: "'a palloc_state_scheme" and n i assume ok: "palloc_ok s" and t: "pool_take user s n = Some (Some i, s')"
  show "i + n \<le> pool_pages user s \<and> run (i, n) \<inter> pool_used user s = {} \<and> pool_used user s' = pool_used user s \<union> run (i, n)"
    by (cases rule: pool_take_cases [OF ok, of user n]) (use t in auto)
next
  fix s :: "'a palloc_state_scheme" and i n
  assume a: "palloc_ok s" "i + n \<le> pool_pages user s" "run (i, n) \<subseteq> pool_used user s"
  show "\<exists>s'. pool_give user s i n = Some s' \<and> palloc_ok s' \<and> pool_pages user s' = pool_pages user s
      \<and> pool_used user s' = pool_used user s - run (i, n)"
  proof (cases "n = 0")
    case True
    have "pg_ofs (page_addr (get_pool user s) i) = 0"
      using a(1) by (intro page_addr_aligned) (auto simp: palloc_ok_alt pool_ok_def)
    then show ?thesis using a(1) True by (simp add: pool_give_def palloc_free_multiple_def run_def)
  next
    case False
    then show ?thesis using palloc_free_multiple_ok [OF a(1,2) _ a(3)] palloc_ok_set_used_map [of "s\<lparr>mem := m\<rparr>" for m]
      a(1) by (auto simp: pool_give_def pool_pages_def)
  qed
qed

lemma no_free_run:
  assumes "find_run 0 n False (bits_of b) = None" "i + n \<le> bit_cnt b"
  shows "run (i, n) \<inter> bitmap_used b \<noteq> {}"
proof -
  have "True \<in> set (segment i n (bits_of b))" using find_run_NoneD [OF assms(1)] assms(2) by simp
  then obtain k where "k < n" "bits_of b ! (i + k)"
    using assms(2) by (auto simp: in_set_conv_nth simp del: bits_of_nth)
  then have "i + k \<in> run (i, n) \<inter> bitmap_used b" using assms(2) by (simp add: run_def bitmap_used_def del: bits_of_nth)
  then show ?thesis by blast
qed

lemma pool_used_other: "pool_used (\<not> user) (set_used_map user b s) = pool_used (\<not> user) s"
  by (simp add: pool_used_def)

lemma init_pool_ok:
  assumes "9 \<le> n" "n < 2 ^ 18" "unat base mod PGSIZE = 0" "0 < unat base" "unat base + PGSIZE * n < 2 ^ 32"
    "length raw = elem_cnt (n - DIV_ROUND_UP (bitmap_buf_size n) PGSIZE)"
  shows "\<exists>p. init_pool raw base n = Some p \<and> pool_ok p \<and> bitmap_used (used_map p) = {}
    \<and> unat base \<le> unat (pool_base p) \<and> unat (pool_base p) + PGSIZE * bit_cnt (used_map p) = unat base + PGSIZE * n"
proof -
  let ?bm = "DIV_ROUND_UP (bitmap_buf_size n) PGSIZE"
  have ec: "elem_cnt m = (m + 31) div 32" if "m < 2 ^ 18" for m
    using that by (simp add: elem_cnt_def DIV_ROUND_UP_small)
  have bs: "bitmap_buf_size m = 8 + 4 * ((m + 31) div 32)" if "m < 2 ^ 18" for m
  proof -
    have "(m + 31) div 32 \<le> 2 ^ 14" using that by simp
    then show ?thesis using ec [OF that] by (simp add: bitmap_buf_size_def byte_cnt_def)
  qed
  have "bitmap_buf_size n \<le> 8 + 4 * 2 ^ 13" using bs [OF assms(2)] assms(2) by simp
  moreover have dr: "?bm = (bitmap_buf_size n + 4095) div 4096"
    using calculation by (subst DIV_ROUND_UP_small) simp_all
  ultimately have bm: "?bm \<le> 9" "bitmap_buf_size n \<le> ?bm * PGSIZE" by simp_all
  let ?m = "n - ?bm"
  have "bitmap_buf_size ?m \<le> bitmap_buf_size n" using bs [of ?m] bs [of n] assms(2) by (simp add: div_le_mono)
  then have le: "bitmap_buf_size ?m \<le> size_mul ?bm PGSIZE" using bm by (subst size_mul_small) simp_all
  have "bitmap_ok \<lparr>bit_cnt = ?m, bits = raw\<rparr>" using assms(2,6) by (simp add: bitmap_ok_def)
  from bitmap_set_all_bits [OF this, of False] obtain b where
    b: "bitmap_set_all \<lparr>bit_cnt = ?m, bits = raw\<rparr> False = Some b" "bitmap_ok b" "bit_cnt b = ?m"
      "bits_of b = replicate ?m False" by auto
  let ?p = "\<lparr>used_map = b, pool_base = base + of_nat (size_mul ?bm PGSIZE)\<rparr>"
  have sz: "size_mul ?bm PGSIZE = PGSIZE * ?bm" using bm by (subst size_mul_small) simp_all
  have "PGSIZE * ?bm \<le> PGSIZE * n" using bm(1) assms(1) by simp
  then have pb: "unat (pool_base ?p) = unat base + PGSIZE * ?bm"
    using assms(5) unat_add_of_nat [of base "PGSIZE * ?bm"] unfolding sz by simp
  have "pool_ok ?p" using b(2,3) assms(1,3,4,5) bm(1) pb
    by (simp add: pool_ok_def pg_ofs_0_iff) 
  moreover have "init_pool raw base n = Some ?p"
    using b(1) le bm(1) assms(1) by (simp add: init_pool_def Let_def bitmap_create_in_buf_def)
  ultimately show ?thesis using pb b(3,4) bm(1) assms(1)
    by (auto simp: bitmap_used_def algebra_simps simp del: bits_of_nth)
qed

section \<open>Properties\<close>

text \<open>An allocator with two pools of 40 free pages.\<close>

definition ex_palloc :: palloc_state where
  "ex_palloc = \<lparr>kernel_pool = \<lparr>used_map = ex_bitmap, pool_base = 0xc0100000\<rparr>,
     user_pool = \<lparr>used_map = ex_bitmap, pool_base = 0xc0200000\<rparr>, mem = (\<lambda>_. 7)\<rparr>"

lemma ex_palloc_ok: "palloc_ok ex_palloc"
proof -
  have "bitmap_ok ex_bitmap" "bit_cnt ex_bitmap = 40" using ex_bitmap_rel by (simp_all add: bitmap_rel_def ex_bitmap_def)
  then show ?thesis by (simp add: ex_palloc_def palloc_ok_def pool_ok_def pg_ofs_0_iff)
qed

text \<open>
  C10. \<^verbatim>\<open>palloc_get_multiple\<close> on a well-formed allocator, without
  \<^verbatim>\<open>PAL_ASSERT\<close>: it returns a null pointer and changes nothing exactly when the pool has no run of
  that many free pages; otherwise it returns the page-aligned address of a run inside the
  selected pool none of whose pages was in use, marks exactly those pages, leaves the other pool
  alone, fills them with zeros under \<^verbatim>\<open>PAL_ZERO\<close>, and changes no other memory.
\<close>

theorem palloc_get_multiple_contract:
  assumes "palloc_ok s" "0 < n" "\<not> has_flag flags PAL_ASSERT" "user = has_flag flags PAL_USER"
  shows "\<exists>p s'. palloc_get_multiple flags n s = Some (p, s') \<and> palloc_ok s' \<and>
    (if p = 0 then s' = s \<and> (\<forall>i. i + n \<le> pool_pages user s \<longrightarrow> run (i, n) \<inter> pool_used user s \<noteq> {})
     else \<exists>i. p = page_addr (get_pool user s) i \<and> pg_ofs p = 0 \<and> i + n \<le> pool_pages user s
       \<and> run (i, n) \<inter> pool_used user s = {} \<and> pool_used user s' = pool_used user s \<union> run (i, n)
       \<and> pool_used (\<not> user) s' = pool_used (\<not> user) s
       \<and> (has_flag flags PAL_ZERO \<longrightarrow> (\<forall>a. unat (a - p) < PGSIZE * n \<longrightarrow> mem s' a = 0))
       \<and> (\<forall>a. unat (a - p) \<ge> PGSIZE * n \<longrightarrow> mem s' a = mem s a))"
proof (cases rule: palloc_get_multiple_cases [OF assms(1,2,4), case_names full got])
  case full
  then show ?thesis using assms(1,3) no_free_run by (auto simp: pool_pages_def pool_used_def)
next
  case (got i b)
  have pk: "pool_ok (get_pool user s)" and i: "i < bit_cnt (used_map (get_pool user s))"
    using assms(1,2) got(2) by (auto simp: palloc_ok_alt pool_pages_def)
  have "palloc_ok (set_used_map user b s)"
    using palloc_ok_set_used_map [OF assms(1) got(4)] got(5) by (simp add: pool_pages_def)
  then show ?thesis using got page_addr_props(1,2) [OF pk i] pool_used_other [of user b s]
    by (auto simp: mem_fill_def pool_used_other)
qed

theorem palloc_get_multiple_contract_witness:
  "\<exists>p s'. palloc_get_multiple PAL_ZERO 1 ex_palloc = Some (p, s') \<and> palloc_ok s'"
proof -
  have "\<not> has_flag PAL_ZERO PAL_ASSERT" "False = has_flag PAL_ZERO PAL_USER"
    by (simp_all add: has_flag_def PAL_ZERO_def PAL_ASSERT_def PAL_USER_def)
  from palloc_get_multiple_contract [OF ex_palloc_ok zero_less_one this] show ?thesis
    by (elim exE conjE, intro exI conjI) simp_all
qed

text \<open>
  C9. Over every sequence of allocations from a pool and releases of what was allocated, no
  call stops the kernel, the groups of pages that are live at the same time are pairwise
  disjoint, and exactly their pages are in use besides those in use before.
\<close>

theorem palloc_live_disjoint:
  assumes "palloc_ok s"
  shows "\<exists>rs s' live. run_steps (client_step (pool_take user) (pool_give user)) (s, []) ops = Some (rs, s', live)
    \<and> palloc_ok s' \<and> runs_disjoint live \<and> pool_used user s' = pool_used user s \<union> (\<Union>r \<in> set live. run r)
    \<and> (\<forall>r \<in> set live. run r \<inter> pool_used user s = {})"
  by (rule palloc_slots.live_runs_disjoint [OF assms])

theorem palloc_live_disjoint_witness:
  "\<exists>rs s' live. run_steps (client_step (pool_take True) (pool_give True)) (ex_palloc, [])
      [Alloc 3, Alloc 2, Release 1, Alloc 1] = Some (rs, s', live) \<and> palloc_ok s' \<and> runs_disjoint live"
  using palloc_live_disjoint [OF ex_palloc_ok, of True "[Alloc 3, Alloc 2, Release 1, Alloc 1]"]
  by (elim exE conjE, intro exI conjI)

text \<open>
  C12. \<^verbatim>\<open>palloc_init\<close> establishes the allocator's invariant: with between 274 and \<open>2 ^ 18\<close> pages of RAM
  and a user page limit of at least 9, it divides the memory between 1 MB and the end of RAM into two
  page-aligned, disjoint pools of free pages that end exactly at the end of RAM.
\<close>

theorem palloc_init_ok:
  assumes "274 \<le> r" "r < 2 ^ 18" "9 \<le> lim" "up = min ((r - 256) div 2) lim" "kp = r - 256 - up"
    "length kraw = elem_cnt (kp - DIV_ROUND_UP (bitmap_buf_size kp) PGSIZE)"
    "length uraw = elem_cnt (up - DIV_ROUND_UP (bitmap_buf_size up) PGSIZE)"
  shows "\<exists>k u. palloc_init kraw uraw r lim = Some (k, u) \<and> palloc_ok \<lparr>kernel_pool = k, user_pool = u, mem = m\<rparr>
    \<and> bitmap_used (used_map k) = {} \<and> bitmap_used (used_map u) = {} \<and> 0xc0100000 \<le> unat (pool_base k)
    \<and> unat (pool_base u) + PGSIZE * bit_cnt (used_map u) = 0xc0000000 + PGSIZE * r"
proof -
  have "9 \<le> up" "up \<le> (r - 256) div 2" using assms(1,3,4) by auto
  then have up: "9 \<le> up" "up < 2 ^ 18" and kp: "9 \<le> kp" "kp < 2 ^ 18" "kp + up = r - 256"
      "kp < 261888" "kp + up < 261888"
    using assms(1,2,5) by auto
  let ?b = "0xc0100000 :: addr"
  have b: "unat ?b = 0xc0100000" by simp
  obtain k where k: "init_pool kraw ?b kp = Some k" "pool_ok k" "bitmap_used (used_map k) = {}"
    "unat ?b \<le> unat (pool_base k)" "unat (pool_base k) + PGSIZE * bit_cnt (used_map k) = unat ?b + PGSIZE * kp"
    using init_pool_ok [OF kp(1,2) _ _ _ assms(6), of ?b] kp(4) unfolding b by auto
  have sz: "size_mul kp PGSIZE = PGSIZE * kp" "size_mul r PGSIZE = PGSIZE * r" using kp assms(2) by (simp_all add: size_mul_def)
  have ub: "unat (?b + of_nat (PGSIZE * kp)) = unat ?b + PGSIZE * kp"
    using unat_add_of_nat [of ?b "PGSIZE * kp"] kp(3) assms(2) unfolding b by simp
  obtain u where u: "init_pool uraw (?b + of_nat (PGSIZE * kp)) up = Some u" "pool_ok u" "bitmap_used (used_map u) = {}"
    "unat ?b + PGSIZE * kp \<le> unat (pool_base u)"
    "unat (pool_base u) + PGSIZE * bit_cnt (used_map u) = unat ?b + PGSIZE * kp + PGSIZE * up"
    using init_pool_ok [OF up(1,2) _ _ _ assms(7), of "?b + of_nat (PGSIZE * kp)"] kp(5) unfolding ub b by auto
  have fs: "ptov (1024 * 1024) = Some ?b" by (simp add: ptov_def PHYS_BASE_def)
  have ur: "unat (of_nat (PGSIZE * r) :: u32) = PGSIZE * r" using assms(2) by (intro unat_of_nat_small) simp
  have fe: "ptov (of_nat (PGSIZE * r)) = Some (of_nat (PGSIZE * r) + 0xc0000000)"
    using assms(2) ur by (simp add: ptov_def PHYS_BASE_def word_less_nat_alt)
  have fp: "unat (of_nat (PGSIZE * r) + 0xc0000000 - ?b) = PGSIZE * (r - 256)"
  proof -
    have "of_nat (PGSIZE * r) + 0xc0000000 - ?b = of_nat (PGSIZE * r) - 0x100000" by simp
    moreover have "(0x100000 :: u32) \<le> of_nat (PGSIZE * r)" using assms(1) ur by (simp add: word_le_nat_alt)
    ultimately show ?thesis using ur by (simp add: unat_sub right_diff_distrib')
  qed
  have lim: "(if lim < PGSIZE * (r - 256) div PGSIZE div 2 then lim else PGSIZE * (r - 256) div PGSIZE div 2) = up"
    using assms(4) by (auto simp: min_def)
  have kp': "PGSIZE * (r - 256) div PGSIZE - up = kp" using assms(5) by simp
  have "palloc_init kraw uraw r lim = Some (k, u)"
    by (simp only: palloc_init_def sz fs fe fp Let_def Option.bind.simps lim kp' k(1) u(1))
  moreover have "palloc_ok \<lparr>kernel_pool = k, user_pool = u, mem = m\<rparr>"
    using k(2,5) u(2,4) by (simp add: palloc_ok_def)
  moreover have "unat (pool_base u) + PGSIZE * bit_cnt (used_map u) = 0xc0000000 + PGSIZE * r"
    using u(5) kp(3) assms(1) unfolding b by simp
  ultimately show ?thesis using k(3,4) u(3) unfolding b by blast
qed

theorem palloc_init_ok_witness:
  "\<exists>k u. palloc_init (replicate (elem_cnt (384 - DIV_ROUND_UP (bitmap_buf_size 384) PGSIZE)) 5)
       (replicate (elem_cnt (384 - DIV_ROUND_UP (bitmap_buf_size 384) PGSIZE)) 6) 1024 1000 = Some (k, u)
     \<and> palloc_ok \<lparr>kernel_pool = k, user_pool = u, mem = (\<lambda>_. 0)\<rparr>"
proof -
  have "384 = min ((1024 - 256) div 2) (1000 :: nat)" "384 = 1024 - 256 - (384 :: nat)" by simp_all
  from palloc_init_ok [OF _ _ _ this, of "replicate (elem_cnt (384 - DIV_ROUND_UP (bitmap_buf_size 384) PGSIZE)) 5"
      "replicate (elem_cnt (384 - DIV_ROUND_UP (bitmap_buf_size 384) PGSIZE)) 6" "\<lambda>_. 0"]
  show ?thesis by (simp only: length_replicate) auto
qed

end
