(* ===== verification/Pagedir.thy ===== *)
theory Pagedir
  imports Palloc
begin

text \<open>
  Two-level page directories, \<^verbatim>\<open>userprog/pagedir.c\<close>. Directories and page tables are pages
  of the kernel pool, read and written as 32-bit words in memory. The processor's page directory
  base register and its translation buffer are part of the state: loading the register empties
  the buffer. A page directory is shown to be a partial map from user pages to frames, which
  mapping, unmapping and the accessed and dirty bits change at one page only.
\<close>

section \<open>Data\<close>

record pd_state = palloc_state +
  cr3 :: u32
  tlb :: "addr \<rightharpoonup> u32"
  init_page_dir :: addr
  init_ram_pages :: nat

section \<open>Operations\<close>

definition pagedir_create :: "'a pd_state_scheme \<Rightarrow> (addr \<times> 'a pd_state_scheme) option" where
  "pagedir_create s = do {
     (pd, s) \<leftarrow> palloc_get_page 0 s;
     Some (pd, if pd \<noteq> 0 then s\<lparr>mem := mem_copy (mem s) pd (init_page_dir s) PGSIZE\<rparr> else s)
   }"

text \<open>The loops of \<^verbatim>\<open>pagedir_destroy\<close> over the entries of a page table and of the directory.\<close>

function destroy_ptes :: "addr \<Rightarrow> nat \<Rightarrow> 'a pd_state_scheme \<Rightarrow> 'a pd_state_scheme option" where
  "destroy_ptes pt i s =
     (if i < PGSIZE div 4 then do {
        let pte = load_word (mem s) (pt + of_nat (4 * i));
        s \<leftarrow> (if pte AND PTE_P \<noteq> 0 then do {
               page \<leftarrow> pte_get_page pte;
               palloc_free_page page s
             } else Some s);
        destroy_ptes pt (i + 1) s
      } else Some s)"
  by pat_completeness auto
termination by (relation "measure (\<lambda>(pt, i, s). PGSIZE div 4 - i)") auto

function destroy_pdes :: "addr \<Rightarrow> nat \<Rightarrow> 'a pd_state_scheme \<Rightarrow> 'a pd_state_scheme option" where
  "destroy_pdes pd i s =
     (if i < unat (pd_no PHYS_BASE) then do {
        let pde = load_word (mem s) (pd + of_nat (4 * i));
        s \<leftarrow> (if pde AND PTE_P \<noteq> 0 then do {
               pt \<leftarrow> pde_get_pt pde;
               s \<leftarrow> destroy_ptes pt 0 s;
               palloc_free_page pt s
             } else Some s);
        destroy_pdes pd (i + 1) s
      } else Some s)"
  by pat_completeness auto
termination by (relation "measure (\<lambda>(pd, i, s). unat (pd_no PHYS_BASE) - i)") auto

declare destroy_ptes.simps [simp del] destroy_pdes.simps [simp del]

definition pagedir_destroy :: "addr \<Rightarrow> 'a pd_state_scheme \<Rightarrow> 'a pd_state_scheme option" where
  "pagedir_destroy pd s =
     (if pd = 0 then Some s
      else do {
        kassert (pd \<noteq> init_page_dir s);
        s \<leftarrow> destroy_pdes pd 0 s;
        palloc_free_page pd s
      })"

text \<open>\<^verbatim>\<open>lookup_page\<close>: the address of the page table entry, 0 for a null pointer.\<close>

definition lookup_page ::
    "addr \<Rightarrow> addr \<Rightarrow> bool \<Rightarrow> 'a pd_state_scheme \<Rightarrow> (addr \<times> 'a pd_state_scheme) option" where
  "lookup_page pd vaddr create s = do {
     kassert (pd \<noteq> 0);
     kassert (\<not> create \<or> is_user_vaddr vaddr);
     let pde = pd + 4 * pd_no vaddr;
     (ok, s) \<leftarrow>
       (if load_word (mem s) pde = 0 then
          if create then do {
            (pt, s) \<leftarrow> palloc_get_page PAL_ZERO s;
            if pt = 0 then Some (False, s)
            else do {
              e \<leftarrow> pde_create pt;
              Some (True, s\<lparr>mem := store_word (mem s) pde e\<rparr>)
            }
          } else Some (False, s)
        else Some (True, s));
     if ok then do {
       pt \<leftarrow> pde_get_pt (load_word (mem s) pde);
       Some (pt + 4 * pt_no vaddr, s)
     } else Some (0, s)
   }"

definition pagedir_set_page ::
    "addr \<Rightarrow> addr \<Rightarrow> addr \<Rightarrow> bool \<Rightarrow> 'a pd_state_scheme \<Rightarrow> (bool \<times> 'a pd_state_scheme) option" where
  "pagedir_set_page pd upage kpage writable s = do {
     kassert (pg_ofs upage = 0);
     kassert (pg_ofs kpage = 0);
     kassert (is_user_vaddr upage);
     p \<leftarrow> vtop kpage;
     kassert (unat (drop_bit PTSHIFT p) < init_ram_pages s);
     kassert (pd \<noteq> init_page_dir s);
     (pte, s) \<leftarrow> lookup_page pd upage True s;
     if pte \<noteq> 0 then do {
       kassert (load_word (mem s) pte AND PTE_P = 0);
       e \<leftarrow> pte_create_user kpage writable;
       Some (True, s\<lparr>mem := store_word (mem s) pte e\<rparr>)
     } else Some (False, s)
   }"

definition pagedir_get_page :: "addr \<Rightarrow> addr \<Rightarrow> 'a pd_state_scheme \<Rightarrow> addr option" where
  "pagedir_get_page pd uaddr s = do {
     kassert (is_user_vaddr uaddr);
     (pte, s) \<leftarrow> lookup_page pd uaddr False s;
     if pte \<noteq> 0 \<and> load_word (mem s) pte AND PTE_P \<noteq> 0 then do {
       page \<leftarrow> pte_get_page (load_word (mem s) pte);
       Some (page + pg_ofs uaddr)
     } else Some 0
   }"

definition pagedir_activate :: "addr \<Rightarrow> 'a pd_state_scheme \<Rightarrow> 'a pd_state_scheme option" where
  "pagedir_activate pd s = do {
     let pd = (if pd = 0 then init_page_dir s else pd);
     p \<leftarrow> vtop pd;
     Some (s\<lparr>cr3 := p, tlb := Map.empty\<rparr>)
   }"

definition active_pd :: "'a pd_state_scheme \<Rightarrow> addr option" where
  "active_pd s = ptov (cr3 s)"

definition invalidate_pagedir :: "addr \<Rightarrow> 'a pd_state_scheme \<Rightarrow> 'a pd_state_scheme option" where
  "invalidate_pagedir pd s = do {
     a \<leftarrow> active_pd s;
     if a = pd then pagedir_activate pd s else Some s
   }"

definition pagedir_clear_page :: "addr \<Rightarrow> addr \<Rightarrow> 'a pd_state_scheme \<Rightarrow> 'a pd_state_scheme option" where
  "pagedir_clear_page pd upage s = do {
     kassert (pg_ofs upage = 0);
     kassert (is_user_vaddr upage);
     (pte, s) \<leftarrow> lookup_page pd upage False s;
     if pte \<noteq> 0 \<and> load_word (mem s) pte AND PTE_P \<noteq> 0 then
       invalidate_pagedir pd (s\<lparr>mem := store_word (mem s) pte (load_word (mem s) pte AND NOT PTE_P)\<rparr>)
     else Some s
   }"

definition pagedir_is_dirty :: "addr \<Rightarrow> addr \<Rightarrow> 'a pd_state_scheme \<Rightarrow> bool option" where
  "pagedir_is_dirty pd vpage s = do {
     (pte, s) \<leftarrow> lookup_page pd vpage False s;
     Some (pte \<noteq> 0 \<and> load_word (mem s) pte AND PTE_D \<noteq> 0)
   }"

definition pagedir_set_dirty :: "addr \<Rightarrow> addr \<Rightarrow> bool \<Rightarrow> 'a pd_state_scheme \<Rightarrow> 'a pd_state_scheme option" where
  "pagedir_set_dirty pd vpage dirty s = do {
     (pte, s) \<leftarrow> lookup_page pd vpage False s;
     if pte \<noteq> 0 then
       if dirty then Some (s\<lparr>mem := store_word (mem s) pte (load_word (mem s) pte OR PTE_D)\<rparr>)
       else invalidate_pagedir pd (s\<lparr>mem := store_word (mem s) pte (load_word (mem s) pte AND NOT PTE_D)\<rparr>)
     else Some s
   }"

definition pagedir_is_accessed :: "addr \<Rightarrow> addr \<Rightarrow> 'a pd_state_scheme \<Rightarrow> bool option" where
  "pagedir_is_accessed pd vpage s = do {
     (pte, s) \<leftarrow> lookup_page pd vpage False s;
     Some (pte \<noteq> 0 \<and> load_word (mem s) pte AND PTE_A \<noteq> 0)
   }"

definition pagedir_set_accessed :: "addr \<Rightarrow> addr \<Rightarrow> bool \<Rightarrow> 'a pd_state_scheme \<Rightarrow> 'a pd_state_scheme option" where
  "pagedir_set_accessed pd vpage accessed s = do {
     (pte, s) \<leftarrow> lookup_page pd vpage False s;
     if pte \<noteq> 0 then
       if accessed then Some (s\<lparr>mem := store_word (mem s) pte (load_word (mem s) pte OR PTE_A)\<rparr>)
       else invalidate_pagedir pd (s\<lparr>mem := store_word (mem s) pte (load_word (mem s) pte AND NOT PTE_A)\<rparr>)
     else Some s
   }"

section \<open>Invariant\<close>

text \<open>A page of the kernel pool that is in use.\<close>

definition kpage_used :: "'a palloc_state_scheme \<Rightarrow> addr \<Rightarrow> bool" where
  "kpage_used s a \<longleftrightarrow> (\<exists>i \<in> pool_used False s. a = page_addr (kernel_pool s) i)"

definition pde_of :: "'a pd_state_scheme \<Rightarrow> addr \<Rightarrow> nat \<Rightarrow> u32" where
  "pde_of s pd i = load_word (mem s) (pd + of_nat (4 * i))"

text \<open>
  A directory whose user part is well formed: it and its page tables are distinct pages of the
  kernel pool.
\<close>

definition pd_ok :: "'a pd_state_scheme \<Rightarrow> addr \<Rightarrow> bool" where
  "pd_ok s pd \<longleftrightarrow> palloc_ok s \<and> PHYS_BASE \<le> pool_base (kernel_pool s) \<and> kpage_used s pd \<and> pd \<noteq> init_page_dir s
     \<and> (\<forall>i < 768. pde_of s pd i \<noteq> 0 \<longrightarrow> (\<exists>t. pde_get_pt (pde_of s pd i) = Some t \<and> kpage_used s t \<and> t \<noteq> pd
          \<and> (\<forall>j < 768. j \<noteq> i \<longrightarrow> pde_of s pd j \<noteq> 0 \<longrightarrow> pde_get_pt (pde_of s pd j) \<noteq> Some t)))"

abbreviation pdi :: "addr \<Rightarrow> nat" where
  "pdi va \<equiv> unat (pd_no va)"

abbreviation pti :: "addr \<Rightarrow> nat" where
  "pti va \<equiv> unat (pt_no va)"

text \<open>The page table for a directory slot, and the page table entry for an address.\<close>

definition pt_of :: "'a pd_state_scheme \<Rightarrow> addr \<Rightarrow> nat \<Rightarrow> addr option" where
  "pt_of s pd i = (if pde_of s pd i = 0 then None else pde_get_pt (pde_of s pd i))"

definition pte_at :: "'a pd_state_scheme \<Rightarrow> addr \<Rightarrow> addr \<Rightarrow> u32 option" where
  "pte_at s pd va = (case pt_of s pd (pdi va) of
     None \<Rightarrow> None | Some t \<Rightarrow> Some (load_word (mem s) (t + of_nat (4 * pti va))))"

definition mapped :: "'a pd_state_scheme \<Rightarrow> addr \<Rightarrow> addr \<Rightarrow> bool" where
  "mapped s pd va \<longleftrightarrow> (\<exists>e. pte_at s pd va = Some e \<and> e AND PTE_P \<noteq> 0)"

section \<open>Lemmas\<close>

subsection \<open>Words in pages\<close>

lemma unat_lt32: "unat (a :: u32) < 2 ^ 32"
  using unsigned_less [of a] by simp

lemma unat_aligned_add:
  assumes "unat (a :: u32) mod 4 = 0"
  shows "unat (a + 1) = unat a + 1" "unat (a + 2) = unat a + 2" "unat (a + 3) = unat a + 3"
proof -
  obtain q where q: "unat a = 4 * q" using assms by (metis mod_0_imp_dvd dvdE)
  have "q < 1073741824" using unat_lt32 [of a] q by simp
  then have "unat a + 3 < 2 ^ 32" using q by simp
  then show "unat (a + 1) = unat a + 1" "unat (a + 2) = unat a + 2" "unat (a + 3) = unat a + 3"
    using unat_add_lem [of a 1] unat_add_lem [of a 2] unat_add_lem [of a 3] by simp_all
qed

lemma load_store_same [simp]: "load_word (store_word m a w) a = w"
proof (rule bit_word_eqI)
  fix n assume "n < LENGTH(32)"
  then have n: "n < 32" by simp
  have "(1 :: u32) \<noteq> 2" "(1 :: u32) \<noteq> 3" "(2 :: u32) \<noteq> 3" by simp_all
  then have "load_word (store_word m a w) a = ucast (ucast w :: byte) OR push_bit 8 (ucast (ucast (drop_bit 8 w) :: byte))
      OR push_bit 16 (ucast (ucast (drop_bit 16 w) :: byte)) OR push_bit 24 (ucast (ucast (drop_bit 24 w) :: byte))"
    by (simp add: load_word_def store_word_def)
  then show "bit (load_word (store_word m a w) a) n = bit w n"
    using n by (cases "n < 24"; cases "n < 16") (auto simp: bit_simps)
qed

lemma load_store_other:
  assumes "unat a mod 4 = 0" "unat b mod 4 = 0" "a \<noteq> b"
  shows "load_word (store_word m a w) b = load_word m b"
proof -
  note ua = unat_aligned_add [OF assms(1)] and ub = unat_aligned_add [OF assms(2)]
  have ne: "unat a \<noteq> unat b" using assms(3) by (simp add: word_unat_eq_iff)
  have "x \<noteq> y" if "x \<in> {b, b + 1, b + 2, b + 3}" "y \<in> {a, a + 1, a + 2, a + 3}" for x y
  proof
    assume "x = y"
    then have "unat x = unat y" by simp
    moreover have "unat x div 4 = unat b div 4" "unat y div 4 = unat a div 4"
      using that ua ub assms(1,2) by auto
    ultimately have "unat b div 4 = unat a div 4" by simp
    then show False using assms(1,2) ne by (metis mult_div_mod_eq)
  qed
  then have "store_word m a w x = m x" if "x \<in> {b, b + 1, b + 2, b + 3}" for x
    using that unfolding store_word_def by (metis fun_upd_other insertI1 insertI2)
  then show ?thesis by (simp add: load_word_def)
qed

text \<open>A page as a set of addresses, and the words in it.\<close>

lemma same_page_iff:
  assumes "pg_ofs p = 0"
  shows "unat (x - p) < PGSIZE \<longleftrightarrow> pg_no x = pg_no p"
proof -
  have al: "unat p mod PGSIZE = 0" using assms by (simp add: pg_ofs_0_iff)
  have pg: "pg_no x = pg_no p \<longleftrightarrow> unat x div PGSIZE = unat p div PGSIZE"
    by (metis unat_pg_no word_unat_eq_iff)
  obtain q where q: "unat p = PGSIZE * q" using al by (metis mod_0_imp_dvd dvdE)
  obtain d r where x: "unat x = PGSIZE * d + r" "r < PGSIZE" and d: "unat x div PGSIZE = d"
    by (metis mod_less_divisor mult_div_mod_eq zero_less_numeral)
  have qd: "unat p div PGSIZE = q" using q by simp
  have lt: "q < 1048576" using unat_lt32 [of p] q by simp
  show ?thesis
  proof (cases "unat p \<le> unat x")
    case True
    then have "unat (x - p) = unat x - unat p" by (simp add: unat_sub word_le_nat_alt)
    then show ?thesis unfolding pg d qd using True x q by auto
  next
    case False
    then have "unat (x - p) = unat x + 2 ^ 32 - unat p" using unat_sub_if' [of x p] by simp
    then show ?thesis unfolding pg d qd using False x q lt by auto
  qed
qed

lemma entry_addr:
  assumes "pg_ofs t = 0" "k < 1024"
  shows "unat (t + of_nat (4 * k)) = unat t + 4 * k" "pg_no (t + of_nat (4 * k)) = pg_no t"
    "unat (t + of_nat (4 * k)) mod 4 = 0"
proof -
  have al: "unat t mod PGSIZE = 0" using assms(1) by (simp add: pg_ofs_0_iff)
  obtain q where q: "unat t = PGSIZE * q" using al by (metis mod_0_imp_dvd dvdE)
  have "q < 1048576" using unat_lt32 [of t] q by simp
  then have lt: "unat t + 4 * k < 2 ^ 32" using q assms(2) by simp
  then show u: "unat (t + of_nat (4 * k)) = unat t + 4 * k"
    using unat_add_of_nat [of t "4 * k"] by simp
  have "unat (t + of_nat (4 * k)) div PGSIZE = unat t div PGSIZE"
    unfolding u using q assms(2) by simp
  then show "pg_no (t + of_nat (4 * k)) = pg_no t" by (metis unat_pg_no word_unat_eq_iff)
  have "unat t mod 4 = 0" using q by (simp add: mod_0_imp_dvd)
  then show "unat (t + of_nat (4 * k)) mod 4 = 0" unfolding u by simp
qed

lemma entry_inj:
  assumes "pg_ofs t = 0" "pg_ofs t' = 0" "k < 1024" "k' < 1024" "t + of_nat (4 * k) = t' + of_nat (4 * k')"
  shows "t = t' \<and> k = k'"
proof -
  have "pg_no t = pg_no t'" using entry_addr(2) [OF assms(1,3)] entry_addr(2) [OF assms(2,4)] assms(5) by metis
  then have "unat t div PGSIZE = unat t' div PGSIZE" by (metis unat_pg_no)
  moreover have "unat t mod PGSIZE = 0" "unat t' mod PGSIZE = 0" using assms(1,2) by (simp_all add: pg_ofs_0_iff)
  ultimately have "unat t = unat t'" by (metis div_mult_mod_eq)
  moreover have "unat t + 4 * k = unat t' + 4 * k'"
    using entry_addr(1) [OF assms(1,3)] entry_addr(1) [OF assms(2,4)] assms(5) by metis
  ultimately show ?thesis by (simp add: word_unat_eq_iff)
qed

lemma load_store_entry:
  assumes "pg_ofs t = 0" "pg_ofs t' = 0" "k < 1024" "k' < 1024"
  shows "load_word (store_word m (t + of_nat (4 * k)) w) (t' + of_nat (4 * k')) =
    (if t = t' \<and> k = k' then w else load_word m (t' + of_nat (4 * k')))"
proof (cases "t = t' \<and> k = k'")
  case False
  then have "t + of_nat (4 * k) \<noteq> t' + of_nat (4 * k')" using entry_inj [OF assms] by blast
  then show ?thesis using False load_store_other [OF entry_addr(3) [OF assms(1,3)] entry_addr(3) [OF assms(2,4)]]
    by (simp only: if_False simp_thms)
qed simp

lemma entry_bytes:
  assumes "pg_ofs t = 0" "k < 1024" "x \<in> {t + of_nat (4 * k), t + of_nat (4 * k) + 1, t + of_nat (4 * k) + 2, t + of_nat (4 * k) + 3}"
  shows "pg_no x = pg_no t"
proof -
  note e = entry_addr [OF assms(1,2)]
  have "unat x div 4 = unat (t + of_nat (4 * k)) div 4"
    using assms(3) unat_aligned_add [OF e(3)] e(3) by auto
  then have "unat x div 4 div 1024 = unat (t + of_nat (4 * k)) div 4 div 1024" by simp
  then have "unat x div PGSIZE = unat (t + of_nat (4 * k)) div PGSIZE" by (simp add: div_mult2_eq [symmetric])
  then have "pg_no x = pg_no (t + of_nat (4 * k))" by (metis unat_pg_no word_unat_eq_iff)
  then show ?thesis using e(2) by simp
qed

lemma load_fill_entry:
  assumes "pg_ofs p = 0" "pg_ofs t = 0" "k < 1024"
  shows "load_word (mem_fill m p 0 PGSIZE) (t + of_nat (4 * k)) =
    (if t = p then 0 else load_word m (t + of_nat (4 * k)))"
proof -
  let ?a = "t + of_nat (4 * k)"
  have tp: "pg_no t = pg_no p \<longleftrightarrow> t = p"
  proof
    assume "pg_no t = pg_no p"
    then have "unat t div PGSIZE = unat p div PGSIZE" by (metis unat_pg_no)
    then show "t = p" using assms(1,2) by (metis div_mult_mod_eq pg_ofs_0_iff word_unat_eq_iff)
  qed simp
  have f: "mem_fill m p 0 PGSIZE x = (if t = p then 0 else m x)" if "x \<in> {?a, ?a + 1, ?a + 2, ?a + 3}" for x
    unfolding mem_fill_def same_page_iff [OF assms(1)] using entry_bytes [OF assms(2,3) that] tp by simp
  show ?thesis
    unfolding load_word_def using f [of ?a] f [of "?a + 1"] f [of "?a + 2"] f [of "?a + 3"] by simp
qed
subsection \<open>Directories\<close>

lemma pti_less: "pti va < 1024"
  by (simp add: unat_pt_no)

lemma pdi_less: "is_user_vaddr va \<Longrightarrow> pdi va < 768"
  by (simp add: is_user_vaddr_def PHYS_BASE_def word_less_nat_alt unat_pd_no less_mult_imp_div_less)

lemma pd_index: "4 * pd_no va = of_nat (4 * pdi va)" "4 * pt_no va = of_nat (4 * pti va)"
  by simp_all

lemma same_page_index: "pg_no va = pg_no vb \<longleftrightarrow> pdi va = pdi vb \<and> pti va = pti vb"
proof -
  have "unat a div 4194304 = unat a div PGSIZE div 1024" for a :: addr by (simp add: div_mult2_eq [symmetric])
  then show ?thesis unfolding word_unat_eq_iff [of "pg_no va"] unat_pg_no unat_pd_no unat_pt_no
    by simp (metis div_mult_mod_eq)
qed

lemma kpage_used_props:
  assumes "palloc_ok s" "kpage_used s a"
  shows "pg_ofs a = 0" "a \<noteq> 0" "unat (pool_base (kernel_pool s)) \<le> unat a"
proof -
  obtain i where i: "i \<in> pool_used False s" "a = page_addr (kernel_pool s) i" using assms(2) by (auto simp: kpage_used_def)
  then have "i < bit_cnt (used_map (kernel_pool s))" by (simp add: pool_used_def bitmap_used_def get_pool_def)
  then show "pg_ofs a = 0" "a \<noteq> 0" "unat (pool_base (kernel_pool s)) \<le> unat a"
    using page_addr_props [of "kernel_pool s" i] page_addr_unat [of "kernel_pool s" i] assms(1) i(2)
    by (auto simp: palloc_ok_def)
qed

lemma pd_ok_pt:
  assumes "pd_ok s pd" "pt_of s pd i = Some t" "i < 768"
  shows "kpage_used s t" "pg_ofs t = 0" "t \<noteq> 0" "t \<noteq> pd" "\<And>j. j < 768 \<Longrightarrow> pt_of s pd j = Some t \<Longrightarrow> j = i"
proof -
  have e: "pde_of s pd i \<noteq> 0" "pde_get_pt (pde_of s pd i) = Some t" using assms(2) by (auto simp: pt_of_def split: if_splits)
  obtain t' where t': "pde_get_pt (pde_of s pd i) = Some t'" "kpage_used s t'" "t' \<noteq> pd"
      "\<And>j. j < 768 \<Longrightarrow> j \<noteq> i \<Longrightarrow> pde_of s pd j \<noteq> 0 \<Longrightarrow> pde_get_pt (pde_of s pd j) \<noteq> Some t'"
    using assms(1,3) e(1) unfolding pd_ok_def by blast
  then have [simp]: "t' = t" using e(2) by simp
  show "kpage_used s t" "t \<noteq> pd" using t' by simp_all
  then show "pg_ofs t = 0" "t \<noteq> 0" using kpage_used_props [of s t] assms(1) by (auto simp: pd_ok_def)
  show "j = i" if "j < 768" "pt_of s pd j = Some t" for j
    using t'(4) [OF that(1)] that(2) by (auto simp: pt_of_def split: if_splits)
qed

lemma pd_ok_pd: "pd_ok s pd \<Longrightarrow> pg_ofs pd = 0" "pd_ok s pd \<Longrightarrow> pd \<noteq> 0"
  using kpage_used_props [of s pd] by (auto simp: pd_ok_def)

lemma pt_of_None: "pd_ok s pd \<Longrightarrow> i < 768 \<Longrightarrow> pt_of s pd i = None \<longleftrightarrow> pde_of s pd i = 0"
  by (auto simp: pd_ok_def pt_of_def)

lemma entry_notNULL:
  assumes "pg_ofs t = 0" "t \<noteq> 0" "k < 1024"
  shows "t + of_nat (4 * k) \<noteq> 0"
proof -
  have "unat t \<noteq> 0" using assms(2) by (metis unat_eq_zero)
  then show ?thesis using entry_addr(1) [OF assms(1,3)] by (metis add_is_0 unat_0)
qed

lemma lookup_page_existing:
  assumes "pd_ok s pd" "is_user_vaddr va" "pt_of s pd (pdi va) = Some t"
  shows "lookup_page pd va create s = Some (t + of_nat (4 * pti va), s)"
  using assms pd_ok_pd [OF assms(1)] unfolding lookup_page_def pd_index
  by (auto simp: pt_of_def pde_of_def Let_def split: if_splits)

lemma lookup_page_missing:
  assumes "pd_ok s pd" "is_user_vaddr va" "pt_of s pd (pdi va) = None"
  shows "lookup_page pd va False s = Some (0, s)"
  using assms pd_ok_pd [OF assms(1)] pt_of_None [OF assms(1) pdi_less [OF assms(2)]] unfolding lookup_page_def pd_index
  by (auto simp: pde_of_def Let_def)

lemma pagedir_get_page_eq:
  assumes "pd_ok s pd" "is_user_vaddr va"
  shows "pagedir_get_page pd va s = (case pte_at s pd va of
     None \<Rightarrow> Some 0
   | Some e \<Rightarrow> if e AND PTE_P \<noteq> 0 then do { p \<leftarrow> pte_get_page e; Some (p + pg_ofs va) } else Some 0)"
proof (cases "pt_of s pd (pdi va)")
  case None
  then show ?thesis using assms lookup_page_missing [OF assms None] by (simp add: pagedir_get_page_def pte_at_def)
next
  case (Some t)
  note t = pd_ok_pt [OF assms(1) Some pdi_less [OF assms(2)]]
  show ?thesis
    using Some assms(2) lookup_page_existing [OF assms Some] entry_notNULL [OF t(2,3) pti_less]
    by (simp add: pagedir_get_page_def pte_at_def del: of_nat_mult of_nat_numeral)
qed

subsection \<open>Writing an entry\<close>

lemma write_pte:
  assumes ok: "pd_ok s pd" and va: "is_user_vaddr va" and t: "pt_of s pd (pdi va) = Some t"
    and s': "s' = s\<lparr>mem := store_word (mem s) (t + of_nat (4 * pti va)) w\<rparr>"
  shows "pd_ok s' pd" "\<And>vb. is_user_vaddr vb \<Longrightarrow> pte_at s' pd vb = (if pg_no vb = pg_no va then Some w else pte_at s pd vb)"
proof -
  note tt = pd_ok_pt [OF ok t pdi_less [OF va]]
  have ld: "load_word (mem s') (q + of_nat (4 * k)) =
      (if t = q \<and> pti va = k then w else load_word (mem s) (q + of_nat (4 * k)))" if "pg_ofs q = 0" "k < 1024" for q k
    unfolding s' using load_store_entry [OF tt(2) that(1) pti_less that(2)] by simp
  have pde: "pde_of s' pd i = pde_of s pd i" if "i < 768" for i
    using ld [OF pd_ok_pd(1) [OF ok], of i] tt(4) that by (simp add: pde_of_def)
  then have pt: "pt_of s' pd i = pt_of s pd i" if "i < 768" for i using that by (simp add: pt_of_def)
  have ku: "kpage_used s' = kpage_used s" by (rule ext) (simp add: kpage_used_def s')
  show "pd_ok s' pd" using ok pde unfolding pd_ok_def ku by (auto simp: s')
  fix vb assume vb: "is_user_vaddr vb"
  show "pte_at s' pd vb = (if pg_no vb = pg_no va then Some w else pte_at s pd vb)"
  proof (cases "pt_of s pd (pdi vb)")
    case None
    then show ?thesis using t pt [OF pdi_less [OF vb]] by (auto simp: pte_at_def same_page_index)
  next
    case (Some q)
    note qq = pd_ok_pt [OF ok Some pdi_less [OF vb]]
    have "t = q \<longleftrightarrow> pdi vb = pdi va" using Some t tt(5) [OF pdi_less [OF vb]] by auto
    then show ?thesis using Some pt [OF pdi_less [OF vb]] ld [OF qq(2) pti_less]
      by (auto simp: pte_at_def same_page_index)
  qed
qed

subsection \<open>Entry formats\<close>

lemma PTE_ADDR_mask: "PTE_ADDR = NOT PGMASK"
  by (simp add: PTE_ADDR_def PGMASK_def BITMASK_def)

lemma aligned_and_ADDR: "pg_ofs q = 0 \<Longrightarrow> q AND PTE_ADDR = q"
  using pg_round_down_eq [of q] by (simp add: PTE_ADDR_mask pg_round_down_def)

lemma PTE_P_bit: "w AND PTE_P \<noteq> 0 \<longleftrightarrow> bit w 0"
  using and_exp_eq_0_iff_not_bit [of w 0] by (simp add: PTE_P_def)

lemma aligned_low_bits:
  assumes "pg_ofs q = 0" "n < 12"
  shows "\<not> bit q n"
proof -
  have "\<not> bit (q AND mask 12) n" using assms(1) by (simp add: pg_ofs_def PGMASK_def BITMASK_mask)
  then show ?thesis using assms(2) by (simp add: bit_and_iff bit_mask_iff)
qed

lemma flag_bits: "w AND PTE_W \<noteq> 0 \<longleftrightarrow> bit w 1" "w AND PTE_U \<noteq> 0 \<longleftrightarrow> bit w 2"
  using and_exp_eq_0_iff_not_bit [of w 1] and_exp_eq_0_iff_not_bit [of w 2] by (simp_all add: PTE_W_def PTE_U_def)

lemma entry_fields:
  assumes "pg_ofs q = 0" "f AND PTE_ADDR = 0" "f AND PTE_P \<noteq> 0"
  shows "(q OR f) AND PTE_ADDR = q" "(q OR f) AND PTE_P \<noteq> 0"
proof -
  show "(q OR f) AND PTE_ADDR = q"
    using aligned_and_ADDR [OF assms(1)] assms(2) by (simp add: and.commute [of _ PTE_ADDR] bit.conj_disj_distrib)
  show "(q OR f) AND PTE_P \<noteq> 0" using assms(3) by (simp add: PTE_P_bit bit_or_iff)
qed

lemma vtop_aligned:
  assumes "pg_ofs p = 0" "PHYS_BASE \<le> p"
  shows "vtop p = Some (p - PHYS_BASE)" "pg_ofs (p - PHYS_BASE) = 0" "p - PHYS_BASE < PHYS_BASE"
proof -
  show "vtop p = Some (p - PHYS_BASE)" using assms(2) by (simp add: vtop_def is_kernel_vaddr_def)
  have u: "unat (p - PHYS_BASE) = unat p - unat PHYS_BASE" using assms(2) by (rule unat_sub)
  have b: "unat PHYS_BASE = PGSIZE * 786432" by (simp add: PHYS_BASE_def)
  have "unat p mod PGSIZE = 0" using assms(1) by (simp add: pg_ofs_0_iff)
  then show "pg_ofs (p - PHYS_BASE) = 0" unfolding pg_ofs_0_iff u b by (simp add: mod_eq_0_iff_dvd)
  show "p - PHYS_BASE < PHYS_BASE" unfolding word_less_nat_alt u using unat_lt32 [of p] by (simp add: PHYS_BASE_def)
qed

lemma pde_create_get:
  assumes "pg_ofs p = 0" "PHYS_BASE \<le> p"
  shows "\<exists>e. pde_create p = Some e \<and> e \<noteq> 0 \<and> pde_get_pt e = Some p"
proof -
  note v = vtop_aligned [OF assms]
  let ?f = "PTE_U OR PTE_P OR PTE_W"
  have "?f AND PTE_ADDR = 0" "?f AND PTE_P \<noteq> 0" by (simp_all add: PTE_U_def PTE_P_def PTE_W_def PTE_ADDR_def)
  note f = entry_fields [OF v(2) this]
  have "pde_create p = Some (p - PHYS_BASE OR ?f)" using assms(1) v(1) by (simp add: pde_create_def or.assoc)
  moreover have "pde_get_pt (p - PHYS_BASE OR ?f) = Some p"
    using f ptov_vtop [OF v(1,3)] by (simp add: pde_get_pt_def)
  ultimately show ?thesis using f(2) by auto
qed

lemma pte_create_user_get:
  assumes "pg_ofs p = 0" "PHYS_BASE \<le> p"
  shows "\<exists>e. pte_create_user p w = Some e \<and> e AND PTE_P \<noteq> 0 \<and> pte_get_page e = Some p \<and>
    (e AND PTE_W \<noteq> 0) = w \<and> e AND PTE_U \<noteq> 0"
proof -
  note v = vtop_aligned [OF assms]
  let ?f = "PTE_P OR (if w then PTE_W else 0) OR PTE_U"
  have "bit ?f 1 = w" "bit ?f 2" by (cases w; simp add: PTE_P_def PTE_W_def PTE_U_def)+
  then have wu: "((p - PHYS_BASE OR ?f) AND PTE_W \<noteq> 0) = w" "(p - PHYS_BASE OR ?f) AND PTE_U \<noteq> 0"
    using aligned_low_bits [OF v(2), of 1] by (simp_all only: flag_bits bit_or_iff) simp_all
  have "?f AND PTE_ADDR = 0" "?f AND PTE_P \<noteq> 0" by (simp_all add: PTE_U_def PTE_P_def PTE_W_def PTE_ADDR_def)
  note f = entry_fields [OF v(2) this]
  have "pte_create_user p w = Some (p - PHYS_BASE OR ?f)"
    using assms(1) v(1) by (simp add: pte_create_user_def pte_create_kernel_def or.assoc)
  moreover have "pte_get_page (p - PHYS_BASE OR ?f) = Some p"
    using f(1) ptov_vtop [OF v(1,3)] by (simp add: pte_get_page_def)
  ultimately show ?thesis using f(2) wu by blast
qed

subsection \<open>A new page table\<close>

lemma install_pt:
  assumes ok: "pd_ok s pd" and va: "is_user_vaddr va" and none: "pt_of s pd (pdi va) = None"
    and p: "pg_ofs p = 0" "\<not> kpage_used s p" and e: "e \<noteq> 0" "pde_get_pt e = Some p"
    and s2: "palloc_ok s2" "\<And>a. kpage_used s2 a \<longleftrightarrow> kpage_used s a \<or> a = p"
      "pool_base (kernel_pool s2) = pool_base (kernel_pool s)" "init_page_dir s2 = init_page_dir s"
      "mem s2 = store_word (mem_fill (mem s) p 0 PGSIZE) (pd + of_nat (4 * pdi va)) e"
  shows "pd_ok s2 pd" "pt_of s2 pd (pdi va) = Some p"
    "\<And>vb. is_user_vaddr vb \<Longrightarrow> pte_at s2 pd vb = (if pdi vb = pdi va then Some 0 else pte_at s pd vb)"
proof -
  have dl: "pdi va < 1024" using pdi_less [OF va] by simp
  have hd: "PHYS_BASE \<le> pool_base (kernel_pool s)" "kpage_used s pd" "pd \<noteq> init_page_dir s"
    using ok by (simp_all add: pd_ok_def)
  have ld: "load_word (mem s2) (q + of_nat (4 * k)) = (if pd = q \<and> pdi va = k then e
      else if q = p then 0 else load_word (mem s) (q + of_nat (4 * k)))" if "pg_ofs q = 0" "k < 1024" for q k
    unfolding s2(5) load_store_entry [OF pd_ok_pd(1) [OF ok] that(1) dl that(2)] load_fill_entry [OF p(1) that] ..
  have pdp: "pd \<noteq> p" using p(2) hd(2) by auto
  have pde: "pde_of s2 pd k = (if k = pdi va then e else pde_of s pd k)" if "k < 768" for k
    unfolding pde_of_def using ld [OF pd_ok_pd(1) [OF ok], of k] that pdp by auto
  then have pt: "pt_of s2 pd k = (if k = pdi va then Some p else pt_of s pd k)" if "k < 768" for k
    using that e by (simp add: pt_of_def)
  then show "pt_of s2 pd (pdi va) = Some p" using pdi_less [OF va] by simp
  have old: "pt_of s pd k \<noteq> Some p" if "k < 768" for k using pd_ok_pt(1) [OF ok _ that, of p] p(2) by auto
  have tab: "\<exists>t. pt_of s2 pd k = Some t \<and> kpage_used s2 t \<and> t \<noteq> pd
      \<and> (\<forall>j < 768. j \<noteq> k \<longrightarrow> pt_of s2 pd j \<noteq> Some t)" if k: "k < 768" "pde_of s2 pd k \<noteq> 0" for k
  proof (cases "k = pdi va")
    case True
    moreover have "pt_of s2 pd j \<noteq> Some p" if "j < 768" "j \<noteq> k" for j
      using pt [OF that(1)] old [OF that(1)] that(2) True by simp
    ultimately show ?thesis using pt [OF k(1)] s2(2) [of p] pdp by (intro exI [of _ p]) simp
  next
    case False
    then obtain t where t: "pt_of s pd k = Some t" using pde [OF k(1)] k(2) pt_of_None [OF ok k(1)] by auto
    note tt = pd_ok_pt [OF ok this k(1)]
    have "t \<noteq> p" using old [OF k(1)] t by auto
    moreover have "pt_of s2 pd j \<noteq> Some t" if "j < 768" "j \<noteq> k" for j
      using pt [OF that(1)] tt(5) [OF that(1)] that(2) \<open>t \<noteq> p\<close> by auto
    ultimately show ?thesis using pt [OF k(1)] False t tt(1,4) s2(2) [of t] by (intro exI [of _ t]) simp
  qed
  show "pd_ok s2 pd"
    unfolding pd_ok_def
  proof (intro conjI allI impI)
    fix k assume k: "k < 768" "pde_of s2 pd k \<noteq> 0"
    from tab [OF this] obtain t where t: "pt_of s2 pd k = Some t" "kpage_used s2 t" "t \<noteq> pd"
      "\<And>j. j < 768 \<Longrightarrow> j \<noteq> k \<Longrightarrow> pt_of s2 pd j \<noteq> Some t" by blast
    have "pde_get_pt (pde_of s2 pd j) \<noteq> Some t" if "j < 768" "j \<noteq> k" "pde_of s2 pd j \<noteq> 0" for j
      using t(4) [OF that(1,2)] that(3) by (simp add: pt_of_def)
    then show "\<exists>t. pde_get_pt (pde_of s2 pd k) = Some t \<and> kpage_used s2 t \<and> t \<noteq> pd
        \<and> (\<forall>j < 768. j \<noteq> k \<longrightarrow> pde_of s2 pd j \<noteq> 0 \<longrightarrow> pde_get_pt (pde_of s2 pd j) \<noteq> Some t)"
      using t(1-3) k(2) by (intro exI [of _ t]) (simp add: pt_of_def)
  qed (use s2(1,3,4) s2(2) [of pd] hd in simp_all)
  fix vb assume vb: "is_user_vaddr vb"
  show "pte_at s2 pd vb = (if pdi vb = pdi va then Some 0 else pte_at s pd vb)"
  proof (cases "pt_of s pd (pdi vb)")
    case None
    then show ?thesis using pt [OF pdi_less [OF vb]] ld [OF p(1) pti_less, of vb] pdp by (simp add: pte_at_def)
  next
    case (Some q)
    note qq = pd_ok_pt [OF ok Some pdi_less [OF vb]]
    have "pdi vb \<noteq> pdi va" "q \<noteq> p" using Some none old [OF pdi_less [OF vb]] by auto
    then show ?thesis using Some pt [OF pdi_less [OF vb]] ld [OF qq(2) pti_less, of vb] qq(4)
      by (simp add: pte_at_def)
  qed
qed

lemma kpage_fresh:
  assumes "pool_ok (kernel_pool s)" "i < bit_cnt (used_map (kernel_pool s))" "i \<notin> pool_used False s"
  shows "\<not> kpage_used s (page_addr (kernel_pool s) i)"
proof
  assume "kpage_used s (page_addr (kernel_pool s) i)"
  then obtain j where j: "j \<in> pool_used False s" "page_addr (kernel_pool s) i = page_addr (kernel_pool s) j"
    by (auto simp: kpage_used_def)
  then have "j < bit_cnt (used_map (kernel_pool s))" by (simp add: pool_used_def bitmap_used_def get_pool_def)
  then have "unat (pool_base (kernel_pool s)) + PGSIZE * i = unat (pool_base (kernel_pool s)) + PGSIZE * j"
    using page_addr_unat [OF assms(1,2)] page_addr_unat [OF assms(1), of j] j(2) by metis
  then have "i = j" by simp
  then show False using assms(3) j(1) by simp
qed

text \<open>Whether the kernel pool has a free page.\<close>

definition kernel_page_free :: "'a palloc_state_scheme \<Rightarrow> bool" where
  "kernel_page_free s \<longleftrightarrow> (\<exists>i < pool_pages False s. i \<notin> pool_used False s)"

lemma lookup_page_new:
  assumes ok: "pd_ok s pd" and va: "is_user_vaddr va" and none: "pt_of s pd (pdi va) = None"
  shows "lookup_page pd va True s = Some (0, s) \<and> \<not> kernel_page_free s \<or>
    (\<exists>t s'. kernel_page_free s \<and> lookup_page pd va True s = Some (t + of_nat (4 * pti va), s') \<and> pd_ok s' pd \<and> pt_of s' pd (pdi va) = Some t
       \<and> (\<forall>vb. is_user_vaddr vb \<longrightarrow> pte_at s' pd vb = (if pdi vb = pdi va then Some 0 else pte_at s pd vb)))"
proof -
  have pk: "palloc_ok s" and base: "PHYS_BASE \<le> pool_base (kernel_pool s)" using ok by (auto simp: pd_ok_def)
  have z: "load_word (mem s) (pd + of_nat (4 * pdi va)) = 0"
    using none pt_of_None [OF ok pdi_less [OF va]] by (simp add: pde_of_def)
  have u: "False = has_flag PAL_ZERO PAL_USER" "\<not> has_flag PAL_ZERO PAL_ASSERT" "has_flag PAL_ZERO PAL_ZERO"
    by (simp_all add: has_flag_def PAL_ZERO_def PAL_USER_def PAL_ASSERT_def)
  show ?thesis
  proof (cases rule: palloc_get_multiple_cases [OF pk zero_less_one u(1), case_names full got])
    case full
    have "\<not> kernel_page_free s"
      using no_free_run [OF full(2)] by (auto simp: kernel_page_free_def pool_pages_def pool_used_def run_def)
    then show ?thesis using full(1) z pd_ok_pd [OF ok] va u(2) unfolding lookup_page_def pd_index
      by (simp add: Let_def palloc_get_page_def)
  next
    case (got i b)
    define p where "p = page_addr (kernel_pool s) i"
    define s1 where "s1 = (set_used_map False b s)\<lparr>mem := mem_fill (mem s) p 0 PGSIZE\<rparr>"
    have i: "i < bit_cnt (used_map (kernel_pool s))" "i \<notin> pool_used False s"
      using got(2,3) by (auto simp: pool_pages_def get_pool_def run_def)
    have kp: "pool_ok (kernel_pool s)" using pk by (simp add: palloc_ok_def)
    have p: "p \<noteq> 0" "pg_ofs p = 0" "PHYS_BASE \<le> p"
      using page_addr_props(1,2) [OF kp i(1)] page_addr_unat [OF kp i(1)] base
      by (simp_all add: p_def word_le_nat_alt)
    have fresh: "\<not> kpage_used s p" unfolding p_def by (rule kpage_fresh [OF kp i])
    have al: "palloc_get_page PAL_ZERO s = Some (p, s1)"
      using got(1) u by (simp add: palloc_get_page_def p_def s1_def get_pool_def)
    obtain e where e: "pde_create p = Some e" "e \<noteq> 0" "pde_get_pt e = Some p" using pde_create_get [OF p(2,3)] by blast
    define s2 where "s2 = s1\<lparr>mem := store_word (mem s1) (pd + of_nat (4 * pdi va)) e\<rparr>"
    have lk: "lookup_page pd va True s = Some (p + of_nat (4 * pti va), s2)"
      unfolding lookup_page_def pd_index Let_def using z pd_ok_pd(2) [OF ok] va al e p(1)
      by (simp add: s2_def del: of_nat_mult)
    have ku: "kpage_used s2 a \<longleftrightarrow> kpage_used s a \<or> a = p" for a
    proof -
      have "kernel_pool s2 = (kernel_pool s)\<lparr>used_map := b\<rparr>" by (simp add: s2_def s1_def set_used_map_def)
      then have "page_addr (kernel_pool s2) = page_addr (kernel_pool s)" "pool_used False s2 = insert i (pool_used False s)"
        using got(6) by (auto simp: page_addr_def pool_used_def get_pool_def run_def)
      then show ?thesis by (auto simp: kpage_used_def p_def)
    qed
    have s2: "palloc_ok s2" "pool_base (kernel_pool s2) = pool_base (kernel_pool s)" "init_page_dir s2 = init_page_dir s"
      "mem s2 = store_word (mem_fill (mem s) p 0 PGSIZE) (pd + of_nat (4 * pdi va)) e"
      using palloc_ok_set_used_map [OF pk got(4), of False] got(5)
      by (simp_all add: s2_def s1_def pool_pages_def set_used_map_def)
    note ip = install_pt [OF ok va none p(2) fresh e(2,3) s2(1) ku s2(2-4)]
    have "kernel_page_free s" using i by (auto simp: kernel_page_free_def pool_pages_def get_pool_def)
    then show ?thesis using lk ip by blast
  qed
qed

lemma mapped_pte_at_cong: "pte_at s' pd va = pte_at s pd va \<Longrightarrow> mapped s' pd va = mapped s pd va"
  by (simp add: mapped_def)

lemma lookup_page_create:
  assumes ok: "pd_ok s pd" and va: "is_user_vaddr va" and unm: "\<not> mapped s pd va"
  shows "lookup_page pd va True s = Some (0, s) \<and> pt_of s pd (pdi va) = None \<and> \<not> kernel_page_free s \<or>
    (\<exists>t s'. (pt_of s pd (pdi va) \<noteq> None \<or> kernel_page_free s)
       \<and> lookup_page pd va True s = Some (t + of_nat (4 * pti va), s') \<and> pd_ok s' pd \<and> pt_of s' pd (pdi va) = Some t
       \<and> (\<exists>e. pte_at s' pd va = Some e \<and> e AND PTE_P = 0)
       \<and> (\<forall>vb. is_user_vaddr vb \<longrightarrow> pagedir_get_page pd vb s' = pagedir_get_page pd vb s
            \<and> mapped s' pd vb = mapped s pd vb))"
proof (cases "pt_of s pd (pdi va)")
  case (Some t)
  then have "\<exists>e. pte_at s pd va = Some e \<and> e AND PTE_P = 0" using unm by (auto simp: mapped_def pte_at_def)
  then show ?thesis using lookup_page_existing [OF ok va Some] ok Some by blast
next
  case None
  have unm_slot: "pte_at s pd vb = None" if "pdi vb = pdi va" for vb using None that by (simp add: pte_at_def)
  consider "lookup_page pd va True s = Some (0, s)" "\<not> kernel_page_free s"
    | t s' where "lookup_page pd va True s = Some (t + of_nat (4 * pti va), s')" "pd_ok s' pd" "pt_of s' pd (pdi va) = Some t"
       "\<And>vb. is_user_vaddr vb \<Longrightarrow> pte_at s' pd vb = (if pdi vb = pdi va then Some 0 else pte_at s pd vb)" "kernel_page_free s"
    using lookup_page_new [OF ok va None] by blast
  then show ?thesis
  proof cases
    case (2 t s')
    have "pagedir_get_page pd vb s' = pagedir_get_page pd vb s \<and> mapped s' pd vb = mapped s pd vb"
      if vb: "is_user_vaddr vb" for vb
      using 2(4) [OF vb] unm_slot [of vb] pagedir_get_page_eq [OF ok vb] pagedir_get_page_eq [OF 2(2) vb]
      by (simp add: mapped_def)
    moreover have "pte_at s' pd va = Some 0" using 2(4) [OF va] by simp
    ultimately show ?thesis using 2(1-3,5) by (intro disjI2 exI [of _ t] exI [of _ s']) simp
  qed (simp add: None)
qed

lemma invalidate_ok:
  assumes "cr3 s < PHYS_BASE" "PHYS_BASE \<le> pd"
  shows "\<exists>c t. invalidate_pagedir pd s = Some (s\<lparr>cr3 := c, tlb := t\<rparr>)
    \<and> (ptov (cr3 s) = Some pd \<longrightarrow> t = Map.empty) \<and> c = cr3 s"
proof -
  have a: "active_pd s = Some (cr3 s + PHYS_BASE)" using assms(1) by (simp add: active_pd_def ptov_def)
  have pn: "pd \<noteq> 0" using assms(2) by (auto simp: PHYS_BASE_def)
  show ?thesis
  proof (cases "cr3 s + PHYS_BASE = pd")
    case True
    then have "vtop pd = Some (cr3 s)" using assms(2) by (auto simp: vtop_def is_kernel_vaddr_def)
    then show ?thesis using a True pn by (auto simp: invalidate_pagedir_def pagedir_activate_def Let_def)
  next
    case False
    then have "invalidate_pagedir pd s = Some (s\<lparr>cr3 := cr3 s, tlb := tlb s\<rparr>)"
      using a by (simp add: invalidate_pagedir_def)
    then show ?thesis using False a unfolding active_pd_def by (intro exI [of _ "cr3 s"] exI [of _ "tlb s"]) simp
  qed
qed

lemma pd_ok_cr3: 
  "pd_ok (s\<lparr>cr3 := c, tlb := t\<rparr>) pd = pd_ok s pd" "pte_at (s\<lparr>cr3 := c, tlb := t\<rparr>) pd va = pte_at s pd va"
proof -
  have ku: "kpage_used (s\<lparr>cr3 := c, tlb := t\<rparr>) = kpage_used s" and pd: "pde_of (s\<lparr>cr3 := c, tlb := t\<rparr>) = pde_of s"
    by (rule ext, simp add: kpage_used_def pool_used_def get_pool_def pde_of_def fun_eq_iff)+
  show "pd_ok (s\<lparr>cr3 := c, tlb := t\<rparr>) pd = pd_ok s pd"
    unfolding pd_ok_def ku pd by (simp add: palloc_ok_def)
  show "pte_at (s\<lparr>cr3 := c, tlb := t\<rparr>) pd va = pte_at s pd va"
    unfolding pte_at_def pt_of_def pd by (simp split: option.splits)
qed

lemma pd_ok_base:
  assumes "pd_ok s pd"
  shows "PHYS_BASE \<le> pd"
  using assms kpage_used_props(3) [of s pd] by (auto simp: pd_ok_def word_le_nat_alt)

section \<open>Properties\<close>

text \<open>
  C8. \<^verbatim>\<open>pagedir_set_page\<close> on an unmapped user page returns, and reports success exactly when
  the page table for it exists or the kernel pool has a free page to make one. On success it
  maps exactly that page to the frame: \<^verbatim>\<open>pagedir_get_page\<close> then gives the frame's address plus
  the page offset for every address in the page, and what it gave before for every other user address,
  and the entry gives user mode access, to write only if asked. On failure no translation changes. The
  directory stays well formed: its page tables are distinct pages in use.
\<close>

theorem pagedir_set_page_correct:
  assumes ok: "pd_ok s pd" and up: "pg_ofs upage = 0" "is_user_vaddr upage" "\<not> mapped s pd upage"
    and kp: "pg_ofs kpage = 0" "PHYS_BASE \<le> kpage" "unat (drop_bit PTSHIFT (kpage - PHYS_BASE)) < init_ram_pages s"
  shows "\<exists>r s'. pagedir_set_page pd upage kpage writable s = Some (r, s') \<and> pd_ok s' pd \<and>
    r = (pt_of s pd (pdi upage) \<noteq> None \<or> kernel_page_free s) \<and>
    (r \<longrightarrow> (\<exists>e. pte_at s' pd upage = Some e \<and> (e AND PTE_W \<noteq> 0) = writable \<and> e AND PTE_U \<noteq> 0)) \<and>
    (\<forall>va. is_user_vaddr va \<longrightarrow>
       pagedir_get_page pd va s' = (if r \<and> pg_no va = pg_no upage then Some (kpage + pg_ofs va) else pagedir_get_page pd va s)
       \<and> mapped s' pd va = (r \<and> pg_no va = pg_no upage \<or> mapped s pd va))"
proof -
  have pre: "pagedir_set_page pd upage kpage writable s = do {
      (pte, s) \<leftarrow> lookup_page pd upage True s;
      if pte \<noteq> 0 then do {
        kassert (load_word (mem s) pte AND PTE_P = 0);
        e \<leftarrow> pte_create_user kpage writable;
        Some (True, s\<lparr>mem := store_word (mem s) pte e\<rparr>)
      } else Some (False, s) }"
    using up kp ok vtop_aligned(1) [OF kp(1,2)] by (simp add: pagedir_set_page_def pd_ok_def)
  consider "lookup_page pd upage True s = Some (0, s)" "\<not> (pt_of s pd (pdi upage) \<noteq> None \<or> kernel_page_free s)"
    | t s1 e where "lookup_page pd upage True s = Some (t + of_nat (4 * pti upage), s1)" "pd_ok s1 pd"
      "pt_of s1 pd (pdi upage) = Some t" "pte_at s1 pd upage = Some e" "e AND PTE_P = 0"
      "\<And>vb. is_user_vaddr vb \<Longrightarrow> pagedir_get_page pd vb s1 = pagedir_get_page pd vb s \<and> mapped s1 pd vb = mapped s pd vb"
      "pt_of s pd (pdi upage) \<noteq> None \<or> kernel_page_free s"
    using lookup_page_create [OF ok up(2,3)] by (elim disjE exE conjE) blast+
  then show ?thesis
  proof cases
    case 1
    then show ?thesis using ok pre by (intro exI [of _ False] exI [of _ s]) simp
  next
    case (2 t s1 e)
    obtain w where w: "pte_create_user kpage writable = Some w" "w AND PTE_P \<noteq> 0" "pte_get_page w = Some kpage"
        "(w AND PTE_W \<noteq> 0) = writable" "w AND PTE_U \<noteq> 0"
      using pte_create_user_get [OF kp(1,2)] by blast
    note tt = pd_ok_pt [OF 2(2,3) pdi_less [OF up(2)]]
    have e: "load_word (mem s1) (t + of_nat (4 * pti upage)) = e" using 2(3,4) by (simp add: pte_at_def)
    define s2 where "s2 = s1\<lparr>mem := store_word (mem s1) (t + of_nat (4 * pti upage)) w\<rparr>"
    have r: "pagedir_set_page pd upage kpage writable s = Some (True, s2)"
      using pre 2(1) e 2(5) w(1) entry_notNULL [OF tt(2,3) pti_less, of upage] by (simp add: s2_def del: of_nat_mult)
    note wp = write_pte [OF 2(2) up(2) 2(3) s2_def]
    have "pagedir_get_page pd va s2 = (if pg_no va = pg_no upage then Some (kpage + pg_ofs va) else pagedir_get_page pd va s)
       \<and> mapped s2 pd va = (pg_no va = pg_no upage \<or> mapped s pd va)" if va: "is_user_vaddr va" for va
      using pagedir_get_page_eq [OF wp(1) va] wp(2) [OF va] w(2,3) 2(6) [OF va] pagedir_get_page_eq [OF 2(2) va]
      by (simp add: mapped_def)
    moreover have "pte_at s2 pd upage = Some w" using wp(2) [OF up(2)] by simp
    ultimately show ?thesis using r wp(1) w(4,5) 2(7) by (intro exI [of _ True] exI [of _ s2]) simp
  qed
qed

text \<open>A directory with no mappings, in the first page of the kernel pool.\<close>

definition ex_pd :: pd_state where
  "ex_pd = \<lparr>kernel_pool = \<lparr>used_map = \<lparr>bit_cnt = 40, bits = [1, 0]\<rparr>, pool_base = 0xc0100000\<rparr>,
     user_pool = \<lparr>used_map = ex_bitmap, pool_base = 0xc0200000\<rparr>, mem = (\<lambda>_. 0),
     cr3 = 0x100000, tlb = Map.empty, init_page_dir = 0xc0000000, init_ram_pages = 1024\<rparr>"

lemma ex_pd_ok: "pd_ok ex_pd 0xc0100000"
proof -
  have b: "bitmap_ok ex_bitmap" "bit_cnt ex_bitmap = 40" using ex_bitmap_rel by (simp_all add: bitmap_rel_def ex_bitmap_def)
  have b1: "bitmap_ok \<lparr>bit_cnt = 40, bits = [1, 0]\<rparr>" by (simp add: bitmap_ok_def elem_cnt_def DIV_ROUND_UP_def)
  have "palloc_ok ex_pd" using b b1 by (simp add: ex_pd_def palloc_ok_def pool_ok_def pg_ofs_0_iff)
  moreover have "0 \<in> pool_used False ex_pd"
    by (simp add: pool_used_def get_pool_def ex_pd_def bitmap_used_def bit_at_def)
  then have "kpage_used ex_pd 0xc0100000"
    unfolding kpage_used_def by (rule bexI [rotated]) (simp add: page_addr_def ex_pd_def)
  moreover have "pde_of ex_pd 0xc0100000 i = 0" for i by (simp add: pde_of_def ex_pd_def load_word_def)
  ultimately show ?thesis by (simp add: pd_ok_def) (simp add: ex_pd_def PHYS_BASE_def)
qed

lemma ex_pd_unmapped: "\<not> mapped ex_pd 0xc0100000 va"
proof -
  have "pde_of ex_pd 0xc0100000 i = 0" for i by (simp add: pde_of_def ex_pd_def load_word_def)
  then show ?thesis by (simp add: mapped_def pte_at_def pt_of_def)
qed

lemma ex_pd_free: "kernel_page_free ex_pd"
  unfolding kernel_page_free_def
  by (rule exI [of _ 5]) (simp add: pool_pages_def pool_used_def get_pool_def ex_pd_def bitmap_used_def bit_at_def bit_simps)

theorem pagedir_set_page_correct_witness:
  "\<exists>s'. pagedir_set_page 0xc0100000 0x8048000 0xc0200000 True ex_pd = Some (True, s') \<and> pd_ok s' 0xc0100000
     \<and> pagedir_get_page 0xc0100000 0x8048123 s' = Some 0xc0200123"
proof -
  have "\<exists>r s'. pagedir_set_page 0xc0100000 0x8048000 0xc0200000 True ex_pd = Some (r, s') \<and> pd_ok s' 0xc0100000 \<and>
    r = (pt_of ex_pd 0xc0100000 (pdi 0x8048000) \<noteq> None \<or> kernel_page_free ex_pd) \<and>
    (r \<longrightarrow> (\<exists>e. pte_at s' 0xc0100000 0x8048000 = Some e \<and> (e AND PTE_W \<noteq> 0) = True \<and> e AND PTE_U \<noteq> 0)) \<and>
    (\<forall>va. is_user_vaddr va \<longrightarrow>
       pagedir_get_page 0xc0100000 va s' = (if r \<and> pg_no va = pg_no 0x8048000 then Some (0xc0200000 + pg_ofs va)
         else pagedir_get_page 0xc0100000 va ex_pd)
       \<and> mapped s' 0xc0100000 va = (r \<and> pg_no va = pg_no 0x8048000 \<or> mapped ex_pd 0xc0100000 va))"
    by (rule pagedir_set_page_correct [OF ex_pd_ok _ _ ex_pd_unmapped])
      (simp_all add: pg_ofs_0_iff is_user_vaddr_def PHYS_BASE_def ex_pd_def)
  then obtain s' where rs: "pagedir_set_page 0xc0100000 0x8048000 0xc0200000 True ex_pd = Some (True, s')" "pd_ok s' 0xc0100000"
    "\<forall>va. is_user_vaddr va \<longrightarrow>
       pagedir_get_page 0xc0100000 va s' = (if pg_no va = pg_no 0x8048000 then Some (0xc0200000 + pg_ofs va)
         else pagedir_get_page 0xc0100000 va ex_pd)" using ex_pd_free by auto
  have "is_user_vaddr 0x8048123" "pg_no 0x8048123 = pg_no 0x8048000" "pg_ofs 0x8048123 = 0x123"
    by (simp_all add: is_user_vaddr_def PHYS_BASE_def pg_no_def pg_ofs_def PGMASK_def BITMASK_def)
  then show ?thesis using rs by auto
qed

text \<open>
  C11. \<^verbatim>\<open>pagedir_clear_page\<close> returns, unmaps exactly the given page, and, when the directory
  is the active one and the page was mapped, leaves no cached translation behind.
\<close>

theorem pagedir_clear_page_correct:
  assumes ok: "pd_ok s pd" and up: "pg_ofs upage = 0" "is_user_vaddr upage" and c: "cr3 s < PHYS_BASE"
  shows "\<exists>s'. pagedir_clear_page pd upage s = Some s' \<and> pd_ok s' pd \<and>
    (\<forall>va. is_user_vaddr va \<longrightarrow>
       pagedir_get_page pd va s' = (if pg_no va = pg_no upage then Some 0 else pagedir_get_page pd va s)) \<and>
    (mapped s pd upage \<and> ptov (cr3 s) = Some pd \<longrightarrow> tlb s' = Map.empty)"
proof (cases "mapped s pd upage")
  case False
  have "pagedir_clear_page pd upage s = Some s"
  proof (cases "pt_of s pd (pdi upage)")
    case None
    then show ?thesis using lookup_page_missing [OF ok up(2) None] up by (simp add: pagedir_clear_page_def)
  next
    case (Some t)
    then have "load_word (mem s) (t + of_nat (4 * pti upage)) AND PTE_P = 0" using False by (simp add: mapped_def pte_at_def)
    then show ?thesis using lookup_page_existing [OF ok up(2) Some] up by (simp add: pagedir_clear_page_def del: of_nat_mult)
  qed
  moreover have "pagedir_get_page pd va s = Some 0" if "is_user_vaddr va" "pg_no va = pg_no upage" for va
  proof -
    have "pte_at s pd va = pte_at s pd upage" using that(2) by (simp add: same_page_index pte_at_def split: option.splits)
    then show ?thesis using False pagedir_get_page_eq [OF ok that(1)] by (auto simp: mapped_def split: option.splits)
  qed
  ultimately show ?thesis using ok False by auto
next
  case True
  then obtain t e where t: "pt_of s pd (pdi upage) = Some t" and e: "load_word (mem s) (t + of_nat (4 * pti upage)) = e"
    "e AND PTE_P \<noteq> 0" by (auto simp: mapped_def pte_at_def split: option.splits)
  note tt = pd_ok_pt [OF ok t pdi_less [OF up(2)]]
  define s1 where "s1 = s\<lparr>mem := store_word (mem s) (t + of_nat (4 * pti upage)) (e AND NOT PTE_P)\<rparr>"
  note wp = write_pte [OF ok up(2) t s1_def]
  have "cr3 s1 < PHYS_BASE" using c by (simp add: s1_def)
  from invalidate_ok [OF this pd_ok_base [OF ok]] obtain c' t' where inv: "invalidate_pagedir pd s1 = Some (s1\<lparr>cr3 := c', tlb := t'\<rparr>)"
    "ptov (cr3 s1) = Some pd \<longrightarrow> t' = Map.empty"
    by blast
  let ?s = "s1\<lparr>cr3 := c', tlb := t'\<rparr>"
  have r: "pagedir_clear_page pd upage s = Some ?s"
    using lookup_page_existing [OF ok up(2) t] up entry_notNULL [OF tt(2,3) pti_less, of upage] e inv(1)
    by (simp add: pagedir_clear_page_def s1_def del: of_nat_mult)
  have ok2: "pd_ok ?s pd" using wp(1) by (simp add: pd_ok_cr3)
  have "(e AND NOT PTE_P) AND PTE_P = 0" by (rule bit_word_eqI) (auto simp: bit_simps)
  then have "pagedir_get_page pd va ?s = (if pg_no va = pg_no upage then Some 0 else pagedir_get_page pd va s)"
    if va: "is_user_vaddr va" for va
    using pagedir_get_page_eq [OF ok2 va] pagedir_get_page_eq [OF ok va] wp(2) [OF va] by (simp add: pd_ok_cr3)
  then show ?thesis using r ok2 inv(2) by (intro exI [of _ ?s]) (simp add: s1_def)
qed

theorem pagedir_clear_page_correct_witness:
  "\<exists>s'. pagedir_clear_page 0xc0100000 0x8048000 ex_pd = Some s' \<and> pd_ok s' 0xc0100000"
proof -
  have "pg_ofs 0x8048000 = 0" "is_user_vaddr 0x8048000" "cr3 ex_pd < PHYS_BASE"
    by (simp_all add: pg_ofs_0_iff is_user_vaddr_def PHYS_BASE_def ex_pd_def)
  from pagedir_clear_page_correct [OF ex_pd_ok this] show ?thesis by blast
qed

end
