(* ===== verification/Malloc.thy ===== *)
theory Malloc
  imports Palloc
begin

text \<open>
  The block allocator of \<^verbatim>\<open>threads/malloc.c\<close> on top of the page allocator: seven
  descriptors of power-of-two block sizes, each with a list of free blocks, and an arena header
  at the start of every page or run of pages that blocks live in. Arena headers are kept in a
  map from page addresses; the magic number of a header that was never written, or was
  overwritten when its page was freed, does not match, so that a header outside the map fails
  the assertions that check it. Free lists are HOL lists of block addresses.
\<close>

section \<open>Data\<close>

record desc =
  desc_block_size :: nat
  blocks_per_arena :: nat
  free_list :: "addr list"

text \<open>The owning descriptor is an index into the descriptor table, \<^term>\<open>None\<close> for a big block.\<close>

record arena =
  a_desc :: "nat option"
  free_cnt :: nat

record malloc_state = palloc_state +
  descs :: "desc list"
  arenas :: "addr \<rightharpoonup> arena"

text \<open>\<^verbatim>\<open>sizeof (struct arena)\<close>.\<close>

abbreviation ARENA_SIZE :: nat where
  "ARENA_SIZE \<equiv> 12"

section \<open>Operations\<close>

function malloc_init_loop :: "nat \<Rightarrow> desc list \<Rightarrow> desc list option" where
  "malloc_init_loop block_size ds =
     (if 0 < block_size \<and> block_size < PGSIZE div 2 then do {
        let ds = ds @ [\<lparr>desc_block_size = block_size,
          blocks_per_arena = (PGSIZE - ARENA_SIZE) div block_size, free_list = []\<rparr>];
        kassert (length ds \<le> 10);
        malloc_init_loop (block_size * 2) ds
      } else Some ds)"
  by pat_completeness auto
termination by (relation "measure (\<lambda>(n, ds). PGSIZE - n)") auto

declare malloc_init_loop.simps [simp del]

definition malloc_init :: "desc list option" where
  "malloc_init = malloc_init_loop 16 []"

text \<open>The arena that a block is inside, with the assertions on its header.\<close>

definition block_to_arena :: "'a malloc_state_scheme \<Rightarrow> addr \<Rightarrow> (addr \<times> arena) option" where
  "block_to_arena s b = do {
     let a = pg_round_down b;
     kassert (a \<noteq> 0);
     ar \<leftarrow> arenas s a;
     (case a_desc ar of
        Some d \<Rightarrow> do {
          kassert (d < length (descs s));
          kassert (unat (pg_ofs b - of_nat ARENA_SIZE) mod desc_block_size (descs s ! d) = 0)
        }
      | None \<Rightarrow> kassert (pg_ofs b = of_nat ARENA_SIZE));
     Some (a, ar)
   }"

definition arena_to_block :: "'a malloc_state_scheme \<Rightarrow> addr \<Rightarrow> nat \<Rightarrow> addr option" where
  "arena_to_block s a idx = do {
     kassert (a \<noteq> 0);
     ar \<leftarrow> arenas s a;
     d \<leftarrow> a_desc ar;
     kassert (d < length (descs s));
     kassert (idx < blocks_per_arena (descs s ! d));
     Some (a + of_nat ARENA_SIZE + of_nat (idx * desc_block_size (descs s ! d)))
   }"

definition set_free_list :: "nat \<Rightarrow> addr list \<Rightarrow> 'a malloc_state_scheme \<Rightarrow> 'a malloc_state_scheme" where
  "set_free_list d bs s = s\<lparr>descs := (descs s)[d := (descs s ! d)\<lparr>free_list := bs\<rparr>]\<rparr>"

text \<open>The loops over the blocks of an arena: put all of them on the free list, take all of them off.\<close>

function arena_fill :: "addr \<Rightarrow> nat \<Rightarrow> nat \<Rightarrow> 'a malloc_state_scheme \<Rightarrow> 'a malloc_state_scheme option" where
  "arena_fill a d i s =
     (if i < blocks_per_arena (descs s ! d) then do {
        b \<leftarrow> arena_to_block s a i;
        arena_fill a d (i + 1) (set_free_list d (free_list (descs s ! d) @ [b]) s)
      } else Some s)"
  by pat_completeness auto
termination
proof (relation "measure (\<lambda>(a, d, i, s). blocks_per_arena (descs s ! d) - i)", goal_cases)
  case (2 a d i s b)
  then show ?case by (cases "d < length (descs s)") (auto simp: set_free_list_def list_update_beyond)
qed simp

function arena_drain :: "addr \<Rightarrow> nat \<Rightarrow> nat \<Rightarrow> 'a malloc_state_scheme \<Rightarrow> 'a malloc_state_scheme option" where
  "arena_drain a d i s =
     (if i < blocks_per_arena (descs s ! d) then do {
        b \<leftarrow> arena_to_block s a i;
        kassert (b \<in> set (free_list (descs s ! d)));
        arena_drain a d (i + 1) (set_free_list d (remove1 b (free_list (descs s ! d))) s)
      } else Some s)"
  by pat_completeness auto
termination
proof (relation "measure (\<lambda>(a, d, i, s). blocks_per_arena (descs s ! d) - i)", goal_cases)
  case (2 a d i s b u)
  then show ?case by (cases "d < length (descs s)") (auto simp: set_free_list_def list_update_beyond)
qed simp

declare arena_fill.simps [simp del] arena_drain.simps [simp del]

text \<open>The index of the smallest descriptor that satisfies a request.\<close>

definition find_desc :: "desc list \<Rightarrow> nat \<Rightarrow> nat" where
  "find_desc ds sz = length (takeWhile (\<lambda>d. desc_block_size d < sz) ds)"

definition malloc :: "nat \<Rightarrow> 'a malloc_state_scheme \<Rightarrow> (addr \<times> 'a malloc_state_scheme) option" where
  "malloc sz s =
     (if sz = 0 then Some (0, s)
      else
        let d = find_desc (descs s) sz in
        if d = length (descs s) then do {
          let page_cnt = DIV_ROUND_UP (size_add sz ARENA_SIZE) PGSIZE;
          (a, s) \<leftarrow> palloc_get_multiple 0 page_cnt s;
          if a = 0 then Some (0, s)
          else Some (a + of_nat ARENA_SIZE, s\<lparr>arenas := (arenas s)(a \<mapsto> \<lparr>a_desc = None, free_cnt = page_cnt\<rparr>)\<rparr>)
        } else do {
          (ok, s) \<leftarrow>
            (if free_list (descs s ! d) = [] then do {
               (a, s) \<leftarrow> palloc_get_page 0 s;
               if a = 0 then Some (False, s)
               else do {
                 s \<leftarrow> arena_fill a d 0 (s\<lparr>arenas := (arenas s)(a \<mapsto>
                   \<lparr>a_desc = Some d, free_cnt = blocks_per_arena (descs s ! d)\<rparr>)\<rparr>);
                 Some (True, s)
               }
             } else Some (True, s));
          if \<not> ok then Some (0, s)
          else do {
            kassert (free_list (descs s ! d) \<noteq> []);
            let b = hd (free_list (descs s ! d));
            let s = set_free_list d (tl (free_list (descs s ! d))) s;
            (a, ar) \<leftarrow> block_to_arena s b;
            Some (b, s\<lparr>arenas := (arenas s)(a \<mapsto> ar\<lparr>free_cnt := size_sub (free_cnt ar) 1\<rparr>)\<rparr>)
          }
        })"

definition calloc :: "nat \<Rightarrow> nat \<Rightarrow> 'a malloc_state_scheme \<Rightarrow> (addr \<times> 'a malloc_state_scheme) option" where
  "calloc a b s = do {
     let sz = size_mul a b;
     if sz < a \<or> sz < b then Some (0, s)
     else do {
       (p, s) \<leftarrow> malloc sz s;
       Some (p, if p \<noteq> 0 then s\<lparr>mem := mem_fill (mem s) p 0 sz\<rparr> else s)
     }
   }"

definition block_size :: "addr \<Rightarrow> 'a malloc_state_scheme \<Rightarrow> nat option" where
  "block_size block s = do {
     (a, ar) \<leftarrow> block_to_arena s block;
     case a_desc ar of
       Some d \<Rightarrow> Some (desc_block_size (descs s ! d))
     | None \<Rightarrow> Some (size_sub (size_mul PGSIZE (free_cnt ar)) (unat (pg_ofs block)))
   }"

text \<open>\<^verbatim>\<open>free\<close>; freeing pages overwrites the header at their start.\<close>

definition free :: "addr \<Rightarrow> 'a malloc_state_scheme \<Rightarrow> 'a malloc_state_scheme option" where
  "free p s =
     (if p = 0 then Some s
      else do {
        (a, ar) \<leftarrow> block_to_arena s p;
        case a_desc ar of
          Some d \<Rightarrow> do {
            let s = s\<lparr>mem := mem_fill (mem s) p 0xcc (desc_block_size (descs s ! d))\<rparr>;
            let s = set_free_list d (p # free_list (descs s ! d)) s;
            let cnt = size_add (free_cnt ar) 1;
            let s = s\<lparr>arenas := (arenas s)(a \<mapsto> ar\<lparr>free_cnt := cnt\<rparr>)\<rparr>;
            if cnt \<ge> blocks_per_arena (descs s ! d) then do {
              kassert (cnt = blocks_per_arena (descs s ! d));
              s \<leftarrow> arena_drain a d 0 s;
              s \<leftarrow> palloc_free_page a s;
              Some (s\<lparr>arenas := (arenas s)(a := None)\<rparr>)
            } else Some s
          }
        | None \<Rightarrow> do {
            s \<leftarrow> palloc_free_multiple a (free_cnt ar) s;
            Some (s\<lparr>arenas := (arenas s)(a := None)\<rparr>)
          }
      })"

definition realloc :: "addr \<Rightarrow> nat \<Rightarrow> 'a malloc_state_scheme \<Rightarrow> (addr \<times> 'a malloc_state_scheme) option" where
  "realloc old_block new_size s =
     (if new_size = 0 then do { s \<leftarrow> free old_block s; Some (0, s) }
      else do {
        (new_block, s) \<leftarrow> malloc new_size s;
        if old_block \<noteq> 0 \<and> new_block \<noteq> 0 then do {
          old_size \<leftarrow> block_size old_block s;
          let min_size = (if new_size < old_size then new_size else old_size);
          s \<leftarrow> free old_block (s\<lparr>mem := mem_copy (mem s) new_block old_block min_size\<rparr>);
          Some (new_block, s)
        } else Some (new_block, s)
      })"

end
