(* ===== verification/Interrupt.thy ===== *)
theory Interrupt
  imports Vaddr
begin

text \<open>
  The interrupt system of \<^verbatim>\<open>threads/interrupt.c\<close>: the interrupt flag, the interrupt
  descriptor table and its gates, the handler table, and the programming of the two interrupt
  controllers as a log of port writes. The dispatcher \<^verbatim>\<open>intr_handler\<close> is in theory
  \<open>Sched\<close>, since it ends in \<^verbatim>\<open>thread_yield\<close>.

  A handler is the address of its function; the null pointer is 0, as in the table of the code.
\<close>

section \<open>State\<close>

definition INTR_CNT :: nat where "INTR_CNT = 256"
definition PIC0_CTRL :: nat where "PIC0_CTRL = 0x20"
definition PIC0_DATA :: nat where "PIC0_DATA = 0x21"
definition PIC1_CTRL :: nat where "PIC1_CTRL = 0xa0"
definition PIC1_DATA :: nat where "PIC1_DATA = 0xa1"
definition SEL_KCSEG :: u32 where "SEL_KCSEG = 0x08"
definition FLAG_IF :: u32 where "FLAG_IF = 0x200"

datatype intr_level = INTR_OFF | INTR_ON

record cpu_state =
  eflags :: u32
  in_external_intr :: bool
  yield_on_return :: bool
  idt :: "u64 list"
  intr_handlers :: "ptr list"
  intr_names :: "string list"
  unexpected_cnt :: "u32 list"
  idtr :: u64
  ports :: "(nat \<times> byte) list"
  unexpected_log :: "(nat \<times> string) list"

definition outb :: "nat \<Rightarrow> byte \<Rightarrow> 'a cpu_state_scheme \<Rightarrow> 'a cpu_state_scheme" where
  "outb port b s = s\<lparr>ports := ports s @ [(port, b)]\<rparr>"

section \<open>The interrupt flag\<close>

definition intr_get_level :: "'a cpu_state_scheme \<Rightarrow> intr_level" where
  "intr_get_level s = (if eflags s AND FLAG_IF \<noteq> 0 then INTR_ON else INTR_OFF)"

definition intr_context :: "'a cpu_state_scheme \<Rightarrow> bool" where
  "intr_context s = in_external_intr s"

definition intr_enable :: "'a cpu_state_scheme \<Rightarrow> (intr_level \<times> 'a cpu_state_scheme) option" where
  "intr_enable s = do {
     let old_level = intr_get_level s;
     kassert (\<not> intr_context s);
     Some (old_level, s\<lparr>eflags := eflags s OR FLAG_IF\<rparr>)
   }"

definition intr_disable :: "'a cpu_state_scheme \<Rightarrow> intr_level \<times> 'a cpu_state_scheme" where
  "intr_disable s = (intr_get_level s, s\<lparr>eflags := eflags s AND NOT FLAG_IF\<rparr>)"

definition intr_set_level ::
    "intr_level \<Rightarrow> 'a cpu_state_scheme \<Rightarrow> (intr_level \<times> 'a cpu_state_scheme) option" where
  "intr_set_level level s = (if level = INTR_ON then intr_enable s else Some (intr_disable s))"

definition intr_yield_on_return :: "'a cpu_state_scheme \<Rightarrow> 'a cpu_state_scheme option" where
  "intr_yield_on_return s = do {
     kassert (intr_context s);
     Some (s\<lparr>yield_on_return := True\<rparr>)
   }"

section \<open>Gates\<close>

definition make_gate :: "u32 \<Rightarrow> int \<Rightarrow> int \<Rightarrow> u64 option" where
  "make_gate function dpl type = do {
     kassert (function \<noteq> 0);
     kassert (dpl \<ge> 0 \<and> dpl \<le> 3);
     kassert (type \<ge> 0 \<and> type \<le> 15);
     let e0 = (function AND 0xffff) OR push_bit 16 SEL_KCSEG;
     let e1 = (function AND 0xffff0000) OR push_bit 15 1 OR push_bit 13 (word_of_int dpl)
                OR push_bit 12 0 OR push_bit 8 (word_of_int type);
     Some ((ucast e0 :: u64) OR push_bit 32 (ucast e1))
   }"

definition make_intr_gate :: "u32 \<Rightarrow> int \<Rightarrow> u64 option" where
  "make_intr_gate function dpl = make_gate function dpl 14"

definition make_trap_gate :: "u32 \<Rightarrow> int \<Rightarrow> u64 option" where
  "make_trap_gate function dpl = make_gate function dpl 15"

definition make_idtr_operand :: "u16 \<Rightarrow> u32 \<Rightarrow> u64" where
  "make_idtr_operand limit base = ucast limit OR push_bit 16 (ucast base)"

section \<open>Initialisation and registration\<close>

definition pic_init :: "'a cpu_state_scheme \<Rightarrow> 'a cpu_state_scheme" where
  "pic_init s = fold (\<lambda>(port, b). outb port b)
     [(PIC0_DATA, 0xff), (PIC1_DATA, 0xff),
      (PIC0_CTRL, 0x11), (PIC0_DATA, 0x20), (PIC0_DATA, 0x04), (PIC0_DATA, 0x01),
      (PIC1_CTRL, 0x11), (PIC1_DATA, 0x28), (PIC1_DATA, 0x02), (PIC1_DATA, 0x01),
      (PIC0_DATA, 0x00), (PIC1_DATA, 0x00)] s"

definition pic_end_of_interrupt :: "nat \<Rightarrow> 'a cpu_state_scheme \<Rightarrow> 'a cpu_state_scheme option" where
  "pic_end_of_interrupt irq s = do {
     kassert (irq \<ge> 0x20 \<and> irq < 0x30);
     let s = outb 0x20 0x20 s;
     Some (if irq \<ge> 0x28 then outb 0xa0 0x20 s else s)
   }"

fun init_gates :: "u32 list \<Rightarrow> u64 list option" where
  "init_gates [] = Some []"
| "init_gates (f # fs) = do {
     g \<leftarrow> make_intr_gate f 0;
     gs \<leftarrow> init_gates fs;
     Some (g # gs)
   }"

definition exception_names :: "(nat \<times> string) list" where
  "exception_names =
    [(0, ''#DE Divide Error''), (1, ''#DB Debug Exception''), (2, ''NMI Interrupt''),
     (3, ''#BP Breakpoint Exception''), (4, ''#OF Overflow Exception''),
     (5, ''#BR BOUND Range Exceeded Exception''), (6, ''#UD Invalid Opcode Exception''),
     (7, ''#NM Device Not Available Exception''), (8, ''#DF Double Fault Exception''),
     (9, ''Coprocessor Segment Overrun''), (10, ''#TS Invalid TSS Exception''),
     (11, ''#NP Segment Not Present''), (12, ''#SS Stack Fault Exception''),
     (13, ''#GP General Protection Exception''), (14, ''#PF Page-Fault Exception''),
     (16, ''#MF x87 FPU Floating-Point Error''), (17, ''#AC Alignment Check Exception''),
     (18, ''#MC Machine-Check Exception''), (19, ''#XF SIMD Floating-Point Exception'')]"

text \<open>\<open>stubs\<close> are the entry points of \<^verbatim>\<open>intr-stubs.S\<close>, \<open>idt_addr\<close> is the address
  of the table.\<close>

definition intr_init :: "u32 list \<Rightarrow> u32 \<Rightarrow> 'a cpu_state_scheme \<Rightarrow> 'a cpu_state_scheme option" where
  "intr_init stubs idt_addr s = do {
     let s = pic_init s;
     gates \<leftarrow> init_gates stubs;
     Some (s\<lparr>idt := gates,
             idtr := make_idtr_operand (of_nat (8 * INTR_CNT - 1)) idt_addr,
             intr_names := fold (\<lambda>(i, nm) names. names[i := nm]) exception_names
                             (replicate INTR_CNT ''unknown'')\<rparr>)
   }"

definition register_handler ::
    "u32 list \<Rightarrow> nat \<Rightarrow> int \<Rightarrow> intr_level \<Rightarrow> ptr \<Rightarrow> string \<Rightarrow> 'a cpu_state_scheme
       \<Rightarrow> 'a cpu_state_scheme option" where
  "register_handler stubs vec_no dpl level handler name s = do {
     kassert (intr_handlers s ! vec_no = NULL);
     gate \<leftarrow> (if level = INTR_ON then make_trap_gate (stubs ! vec_no) dpl
              else make_intr_gate (stubs ! vec_no) dpl);
     Some (s\<lparr>idt := (idt s)[vec_no := gate],
             intr_handlers := (intr_handlers s)[vec_no := handler],
             intr_names := (intr_names s)[vec_no := name]\<rparr>)
   }"

definition intr_register_ext ::
    "u32 list \<Rightarrow> nat \<Rightarrow> ptr \<Rightarrow> string \<Rightarrow> 'a cpu_state_scheme \<Rightarrow> 'a cpu_state_scheme option" where
  "intr_register_ext stubs vec_no handler name s = do {
     kassert (vec_no \<ge> 0x20 \<and> vec_no \<le> 0x2f);
     register_handler stubs vec_no 0 INTR_OFF handler name s
   }"

definition intr_register_int ::
    "u32 list \<Rightarrow> nat \<Rightarrow> int \<Rightarrow> intr_level \<Rightarrow> ptr \<Rightarrow> string \<Rightarrow> 'a cpu_state_scheme
       \<Rightarrow> 'a cpu_state_scheme option" where
  "intr_register_int stubs vec_no dpl level handler name s = do {
     kassert (vec_no < 0x20 \<or> vec_no > 0x2f);
     register_handler stubs vec_no dpl level handler name s
   }"

definition unexpected_interrupt :: "nat \<Rightarrow> 'a cpu_state_scheme \<Rightarrow> 'a cpu_state_scheme" where
  "unexpected_interrupt vec_no s =
    (let n = unexpected_cnt s ! vec_no + 1;
         s = s\<lparr>unexpected_cnt := (unexpected_cnt s)[vec_no := n]\<rparr>
     in if n AND (n - 1) = 0
        then s\<lparr>unexpected_log := unexpected_log s @ [(vec_no, intr_names s ! vec_no)]\<rparr>
        else s)"

definition intr_name :: "nat \<Rightarrow> 'a cpu_state_scheme \<Rightarrow> string" where
  "intr_name vec s = intr_names s ! vec"

section \<open>Reading a gate\<close>

text \<open>What the processor reads from a descriptor: the entry point, the privilege level and the
  gate type.\<close>

definition gate_offset :: "u64 \<Rightarrow> u32" where
  "gate_offset g = ucast (g AND 0xffff) OR (ucast (drop_bit 32 g) AND 0xffff0000)"

definition gate_dpl :: "u64 \<Rightarrow> u64" where
  "gate_dpl g = drop_bit 45 g AND 3"

definition gate_type :: "u64 \<Rightarrow> u64" where
  "gate_type g = drop_bit 40 g AND 31"

definition gate_present :: "u64 \<Rightarrow> bool" where
  "gate_present g = bit g 47"

definition gate_selector :: "u64 \<Rightarrow> u64" where
  "gate_selector g = drop_bit 16 g AND 0xffff"

lemma word_of_int_high_bits:
  assumes "0 \<le> i" "i < 2 ^ k"
  shows "bit (word_of_int i :: 'a::len word) n \<Longrightarrow> n < k"
proof -
  have "take_bit k i = i" using assms by (simp add: take_bit_int_eq_self)
  then have "bit i n \<Longrightarrow> n < k" by (metis bit_take_bit_iff)
  then show "bit (word_of_int i :: 'a::len word) n \<Longrightarrow> n < k" by (simp add: bit_simps)
qed

lemma ffff_mask: "(0xffff :: 'a::len word) = mask 16" "(0xffff0000 :: u32) = push_bit 16 (mask 16)"
  "(3 :: 'a::len word) = mask 2" "(31 :: 'a::len word) = mask 5"
  by (simp_all add: mask_eq_exp_minus_1 push_bit_eq_mult)

lemma make_gate_some:
  assumes "function \<noteq> 0" "0 \<le> dpl" "dpl \<le> 3" "0 \<le> type" "type \<le> 15"
  shows "make_gate function dpl type =
    Some (ucast ((function AND mask 16) OR push_bit 16 SEL_KCSEG)
      OR push_bit 32 (ucast ((function AND push_bit 16 (mask 16)) OR push_bit 15 1
           OR push_bit 13 (word_of_int dpl) OR push_bit 8 (word_of_int type))))"
  using assms by (simp add: make_gate_def ffff_mask)

lemma bit_8: "bit (8 :: 'a::len word) n \<longleftrightarrow> n = 3 \<and> 3 < LENGTH('a)"
proof -
  have "(8 :: 'a word) = push_bit 3 1" by (simp add: push_bit_eq_mult)
  then show ?thesis by (simp only: bit_simps) auto
qed

lemma sel_bits: "bit SEL_KCSEG n \<longleftrightarrow> n = 3"
  unfolding SEL_KCSEG_def bit_8 by simp

text \<open>A gate decodes to what it was built from: for every non-null entry point, privilege level
  0 to 3 and gate type 0 to 15, \<^verbatim>\<open>make_gate\<close> succeeds and the processor reads back exactly
  that entry point, level and type (with the system bit clear), a present descriptor, and the
  kernel code selector.\<close>

lemma make_gate_fields:
  assumes f: "function \<noteq> 0" and d: "0 \<le> dpl" "dpl \<le> 3" and t: "0 \<le> type" "type \<le> 15"
  shows "\<exists>g. make_gate function dpl type = Some g \<and> gate_offset g = function
    \<and> gate_dpl g = word_of_int dpl \<and> gate_type g = word_of_int type \<and> gate_present g
    \<and> gate_selector g = 8"
proof -
  have dh: "\<And>n. bit (word_of_int dpl :: u32) n \<Longrightarrow> n < 2"
    and th: "\<And>n. bit (word_of_int type :: u32) n \<Longrightarrow> n < 4"
    using word_of_int_high_bits [of dpl 2] word_of_int_high_bits [of type 4] d t by auto
  define e :: u32 where "e = push_bit 15 1"
  have eb: "bit e n \<longleftrightarrow> n = 15" for n
    unfolding e_def by (simp only: bit_simps) auto
  define g where "g = ucast ((function AND mask 16) OR push_bit 16 SEL_KCSEG)
      OR push_bit 32 (ucast ((function AND push_bit 16 (mask 16)) OR e
           OR push_bit 13 (word_of_int dpl) OR push_bit 8 (word_of_int type)) :: u64)"
  have gl: "n < 32 \<Longrightarrow> bit g n \<longleftrightarrow> (n < 16 \<and> bit function n) \<or> n = 19" for n
    unfolding g_def by (cases "n < 16") (simp_all add: bit_simps sel_bits, linarith)
  have gh: "n < 32 \<Longrightarrow> bit g (n + 32) \<longleftrightarrow> (16 \<le> n \<and> bit function n) \<or> n = 15
        \<or> (13 \<le> n \<and> bit (word_of_int dpl :: u32) (n - 13))
        \<or> (8 \<le> n \<and> bit (word_of_int type :: u32) (n - 8))" for n
    unfolding g_def by (cases "16 \<le> n") (simp_all add: bit_simps sel_bits eb, linarith)
  have "gate_offset g = function"
  proof (rule bit_word_eqI)
    fix n assume "n < LENGTH(32)"
    then show "bit (gate_offset g) n \<longleftrightarrow> bit function n"
      using gl [of n] gh [of n] dh [of "n - 13"] th [of "n - 8"]
      by (cases "n < 16") (auto simp add: gate_offset_def ffff_mask bit_simps add.commute)
  qed
  moreover have "gate_dpl g = word_of_int dpl"
  proof (rule bit_word_eqI)
    fix n assume "n < LENGTH(64)"
    then show "bit (gate_dpl g) n \<longleftrightarrow> bit (word_of_int dpl :: u64) n"
      using gh [of "n + 13"] dh [of n] th [of "n + 5"] word_of_int_high_bits [of dpl 2 n, where 'a = 64] d
      by (cases "n < 2") (auto simp add: gate_dpl_def ffff_mask bit_simps add.commute)
  qed
  moreover have "gate_type g = word_of_int type"
  proof (rule bit_word_eqI)
    fix n assume "n < LENGTH(64)"
    then show "bit (gate_type g) n \<longleftrightarrow> bit (word_of_int type :: u64) n"
      using gh [of "n + 8"] th [of n] word_of_int_high_bits [of type 4 n, where 'a = 64] t
      by (cases "n < 5") (auto simp add: gate_type_def ffff_mask bit_simps add.commute)
  qed
  moreover have "gate_selector g = 8"
  proof (rule bit_word_eqI, unfold bit_8)
    fix n assume "n < LENGTH(64)"
    then show "bit (gate_selector g) n \<longleftrightarrow> n = 3 \<and> 3 < LENGTH(64)"
      using gl [of "n + 16"]
      by (cases "n < 16") (auto simp add: gate_selector_def ffff_mask bit_simps add.commute)
  qed
  moreover have "gate_present g" using gh [of 15] by (simp add: gate_present_def)
  ultimately show ?thesis
    using make_gate_some [OF f d t] unfolding g_def e_def by (intro exI conjI)
qed

lemma make_gate_fields_witness:
  "\<exists>g. make_gate 0xc0021a3c 3 14 = Some g \<and> gate_offset g = 0xc0021a3c
    \<and> gate_dpl g = word_of_int 3 \<and> gate_type g = word_of_int 14 \<and> gate_present g
    \<and> gate_selector g = 8"
  by (rule make_gate_fields) simp_all

end
