(* ===== verification/Sched.thy ===== *)
theory Sched
  imports Interrupt
begin

text \<open>
  Threads and synchronisation: \<^verbatim>\<open>threads/thread.c\<close>, \<^verbatim>\<open>threads/synch.c\<close>, the
  dispatcher of \<^verbatim>\<open>threads/interrupt.c\<close> and the handler of \<^verbatim>\<open>devices/timer.c\<close>.

  A thread that sleeps inside a kernel function resumes there when it is switched to. The rest of
  each such function is therefore a \<^emph>\<open>frame\<close> on the thread's kernel stack, and
  \<open>run_frame\<close> runs the topmost one. An operation that may sleep takes the frames of its caller
  as its last argument; it pushes them when it completes, or stores them below its own frame when
  it sleeps. Operations that run with interrupts off are single functions; where the code can be
  preempted between two of them there is a frame boundary.
\<close>

section \<open>Threads, semaphores, frames\<close>

definition THREAD_MAGIC :: u32 where "THREAD_MAGIC = 0xcd6abf4b"
definition TIME_SLICE :: u32 where "TIME_SLICE = 4"
definition PRI_MIN :: int where "PRI_MIN = 0"
definition PRI_DEFAULT :: int where "PRI_DEFAULT = 31"
definition PRI_MAX :: int where "PRI_MAX = 63"
definition TID_ERROR :: u32 where "TID_ERROR = - 1"
definition UINT32_MAX :: u32 where "UINT32_MAX = 0xffffffff"

datatype thread_status = THREAD_RUNNING | THREAD_READY | THREAD_BLOCKED | THREAD_DYING

text \<open>Struct child and struct open_file are named by their addresses. The semaphores of the system
  are the members of other structures (the semaphore of a lock, the \<^verbatim>\<open>sema_wait\<close> of a
  thread or of a struct child, the one on the stack of a thread in \<^verbatim>\<open>cond_wait\<close>) or
  objects of their own.\<close>

datatype sema_ref =
    Sema ptr
  | Lock_semaphore ptr
  | Thread_sema_wait ptr
  | Child_sema_wait ptr
  | Cond_waiter ptr

record semaphore =
  sema_value :: u32
  sema_waiters :: "ptr list"

record child =
  child_tid :: u32
  child_st_exit :: u32
  child_succ :: bool

record thread =
  tid :: u32
  status :: thread_status
  thr_name :: string
  stack :: nat
  priority :: int
  pagedir :: u32
  parent :: ptr
  children :: "ptr list"
  child_info :: ptr
  st_exit :: u32
  child_loaded :: bool
  files :: "(ptr \<times> ptr) list"
  exec_file :: ptr
  file_fd :: u32
  magic :: u32

datatype thread_func = Fn_null | Fn_idle ptr | Fn nat

datatype file_event = Allow_write ptr | Close ptr

datatype frame =
    Func nat
  | Kernel_thread thread_func nat
  | Sema_down_loop sema_ref intr_level "frame list"
  | Call_sema_down sema_ref "frame list"
  | Call_sema_up sema_ref
  | Set_holder ptr
  | Call_lock_acquire ptr "frame list"
  | Broadcast_loop ptr ptr
  | Yield_return intr_level
  | Iret
  | Idle_start ptr
  | Idle_loop
  | Idle_wake
  | Tid_fetch ptr thread_func nat ptr
  | Create_finish ptr u32 thread_func nat ptr
  | Exit_files
  | Exit_loop
  | Exit_close ptr
  | Initial_tid
  | Call_intr_enable
  | Set_initial_tid u32

record sched_state = cpu_state +
  threads :: "ptr \<Rightarrow> thread option"
  childs :: "ptr \<Rightarrow> child option"
  semas :: "sema_ref \<Rightarrow> semaphore"
  holder :: "ptr \<Rightarrow> ptr"
  cond_waiters :: "ptr \<Rightarrow> ptr list"
  ready_list :: "ptr list"
  all_list :: "ptr list"
  idle_thread :: ptr
  initial_thread :: ptr
  running_thread :: ptr
  next_tid :: u32
  ticks :: u64
  idle_ticks :: u64
  kernel_ticks :: u64
  user_ticks :: u64
  thread_ticks :: u32
  active_pagedir :: u32
  tss_esp0 :: nat
  freed_pages :: "ptr list"
  file_log :: "file_event list"
  kframes :: "ptr \<Rightarrow> frame list"

text \<open>The static locks of \<^verbatim>\<open>thread.c\<close> and the vector of the timer.\<close>

definition tid_lock :: ptr where "tid_lock = 1"
definition file_lock :: ptr where "file_lock = 2"

section \<open>Accessors\<close>

definition is_thread :: "ptr \<Rightarrow> 'a sched_state_scheme \<Rightarrow> bool" where
  "is_thread t s = (t \<noteq> NULL \<and> (case threads s t of None \<Rightarrow> False | Some th \<Rightarrow> magic th = THREAD_MAGIC))"

definition upd_thread :: "ptr \<Rightarrow> (thread \<Rightarrow> thread) \<Rightarrow> 'a sched_state_scheme \<Rightarrow> 'a sched_state_scheme option" where
  "upd_thread t f s = do {
     th \<leftarrow> threads s t;
     Some (s\<lparr>threads := (threads s)(t \<mapsto> f th)\<rparr>)
   }"

definition set_status :: "ptr \<Rightarrow> thread_status \<Rightarrow> 'a sched_state_scheme \<Rightarrow> 'a sched_state_scheme option" where
  "set_status t st = upd_thread t (status_update (\<lambda>_. st))"

definition thread_current :: "'a sched_state_scheme \<Rightarrow> ptr option" where
  "thread_current s = do {
     let t = running_thread s;
     kassert (is_thread t s);
     th \<leftarrow> threads s t;
     kassert (status th = THREAD_RUNNING);
     Some t
   }"

definition push_frames :: "frame list \<Rightarrow> 'a sched_state_scheme \<Rightarrow> 'a sched_state_scheme" where
  "push_frames k s =
    s\<lparr>kframes := (kframes s)(running_thread s := k @ kframes s (running_thread s))\<rparr>"

definition upd_sema :: "sema_ref \<Rightarrow> (semaphore \<Rightarrow> semaphore) \<Rightarrow> 'a sched_state_scheme \<Rightarrow> 'a sched_state_scheme" where
  "upd_sema a f s = s\<lparr>semas := (semas s)(a := f (semas s a))\<rparr>"

section \<open>The scheduler\<close>

definition next_thread_to_run :: "'a sched_state_scheme \<Rightarrow> ptr \<times> 'a sched_state_scheme" where
  "next_thread_to_run s =
    (case ready_list s of [] \<Rightarrow> (idle_thread s, s) | t # ts \<Rightarrow> (t, s\<lparr>ready_list := ts\<rparr>))"

definition process_activate :: "'a sched_state_scheme \<Rightarrow> 'a sched_state_scheme option" where
  "process_activate s = do {
     t \<leftarrow> thread_current s;
     th \<leftarrow> threads s t;
     Some (s\<lparr>active_pagedir := pagedir th, tss_esp0 := t + PGSIZE\<rparr>)
   }"

definition thread_schedule_tail :: "ptr \<Rightarrow> 'a sched_state_scheme \<Rightarrow> 'a sched_state_scheme option" where
  "thread_schedule_tail prev s = do {
     let cur = running_thread s;
     kassert (intr_get_level s = INTR_OFF);
     s \<leftarrow> set_status cur THREAD_RUNNING s;
     s \<leftarrow> process_activate (s\<lparr>thread_ticks := 0\<rparr>);
     (if prev \<noteq> NULL then do {
        pth \<leftarrow> threads s prev;
        if status pth = THREAD_DYING \<and> prev \<noteq> initial_thread s then do {
          kassert (prev \<noteq> cur);
          Some (s\<lparr>threads := (threads s)(prev := None), kframes := (kframes s)(prev := []),
                  freed_pages := freed_pages s @ [prev]\<rparr>)
        } else Some s
      } else Some s)
   }"

definition schedule :: "'a sched_state_scheme \<Rightarrow> 'a sched_state_scheme option" where
  "schedule s = do {
     let cur = running_thread s;
     let (nxt, s) = next_thread_to_run s;
     kassert (intr_get_level s = INTR_OFF);
     cth \<leftarrow> threads s cur;
     kassert (status cth \<noteq> THREAD_RUNNING);
     kassert (is_thread nxt s);
     thread_schedule_tail (if cur \<noteq> nxt then cur else NULL) (s\<lparr>running_thread := nxt\<rparr>)
   }"

definition thread_block :: "'a sched_state_scheme \<Rightarrow> 'a sched_state_scheme option" where
  "thread_block s = do {
     kassert (\<not> intr_context s);
     kassert (intr_get_level s = INTR_OFF);
     cur \<leftarrow> thread_current s;
     s \<leftarrow> set_status cur THREAD_BLOCKED s;
     schedule s
   }"

definition thread_unblock :: "ptr \<Rightarrow> 'a sched_state_scheme \<Rightarrow> 'a sched_state_scheme option" where
  "thread_unblock t s = do {
     kassert (is_thread t s);
     let (old_level, s) = intr_disable s;
     th \<leftarrow> threads s t;
     kassert (status th = THREAD_BLOCKED);
     s \<leftarrow> set_status t THREAD_READY (s\<lparr>ready_list := ready_list s @ [t]\<rparr>);
     (_, s) \<leftarrow> intr_set_level old_level s;
     Some s
   }"

definition thread_yield :: "frame list \<Rightarrow> 'a sched_state_scheme \<Rightarrow> 'a sched_state_scheme option" where
  "thread_yield k s = do {
     cur \<leftarrow> thread_current s;
     kassert (\<not> intr_context s);
     let (old_level, s) = intr_disable s;
     let s = (if cur \<noteq> idle_thread s then s\<lparr>ready_list := ready_list s @ [cur]\<rparr> else s);
     s \<leftarrow> set_status cur THREAD_READY s;
     schedule (push_frames (Yield_return old_level # k) s)
   }"

definition thread_name :: "'a sched_state_scheme \<Rightarrow> string option" where
  "thread_name s = do { t \<leftarrow> thread_current s; th \<leftarrow> threads s t; Some (thr_name th) }"

definition thread_tid :: "'a sched_state_scheme \<Rightarrow> u32 option" where
  "thread_tid s = do { t \<leftarrow> thread_current s; th \<leftarrow> threads s t; Some (tid th) }"

definition thread_set_priority :: "int \<Rightarrow> 'a sched_state_scheme \<Rightarrow> 'a sched_state_scheme option" where
  "thread_set_priority new_priority s = do {
     t \<leftarrow> thread_current s;
     upd_thread t (priority_update (\<lambda>_. new_priority)) s
   }"

definition thread_get_priority :: "'a sched_state_scheme \<Rightarrow> int option" where
  "thread_get_priority s = do { t \<leftarrow> thread_current s; th \<leftarrow> threads s t; Some (priority th) }"

definition thread_get_nice :: int where "thread_get_nice = 0"
definition thread_get_load_avg :: int where "thread_get_load_avg = 0"
definition thread_get_recent_cpu :: int where "thread_get_recent_cpu = 0"

definition thread_foreach ::
    "(ptr \<Rightarrow> 'a sched_state_scheme \<Rightarrow> 'a sched_state_scheme option) \<Rightarrow> 'a sched_state_scheme
       \<Rightarrow> 'a sched_state_scheme option" where
  "thread_foreach func s = do {
     kassert (intr_get_level s = INTR_OFF);
     fold (\<lambda>t r. r \<bind> func t) (all_list s) (Some s)
   }"

definition thread_tick :: "'a sched_state_scheme \<Rightarrow> 'a sched_state_scheme option" where
  "thread_tick s = do {
     t \<leftarrow> thread_current s;
     th \<leftarrow> threads s t;
     let s = (if t = idle_thread s then s\<lparr>idle_ticks := idle_ticks s + 1\<rparr>
              else if pagedir th \<noteq> 0 then s\<lparr>user_ticks := user_ticks s + 1\<rparr>
              else s\<lparr>kernel_ticks := kernel_ticks s + 1\<rparr>);
     let s = s\<lparr>thread_ticks := thread_ticks s + 1\<rparr>;
     (if thread_ticks s \<ge> TIME_SLICE then intr_yield_on_return s else Some s)
   }"

definition timer_interrupt :: "'a sched_state_scheme \<Rightarrow> 'a sched_state_scheme option" where
  "timer_interrupt s = thread_tick (s\<lparr>ticks := ticks s + 1\<rparr>)"

text \<open>\<open>call\<close> runs the handler at an address.\<close>

definition intr_handler ::
    "(ptr \<Rightarrow> 'a sched_state_scheme \<Rightarrow> 'a sched_state_scheme option) \<Rightarrow> nat
       \<Rightarrow> 'a sched_state_scheme \<Rightarrow> 'a sched_state_scheme option" where
  "intr_handler call vec_no s = do {
     let ext = (vec_no \<ge> 0x20 \<and> vec_no < 0x30);
     s \<leftarrow> (if ext then do {
         kassert (intr_get_level s = INTR_OFF);
         kassert (\<not> intr_context s);
         Some (s\<lparr>in_external_intr := True, yield_on_return := False\<rparr>)
       } else Some s);
     let handler = intr_handlers s ! vec_no;
     s \<leftarrow> (if handler \<noteq> NULL then call handler s
           else if vec_no = 0x27 \<or> vec_no = 0x2f then Some s
           else Some (unexpected_interrupt vec_no s));
     (if ext then do {
        kassert (intr_get_level s = INTR_OFF);
        kassert (intr_context s);
        s \<leftarrow> pic_end_of_interrupt vec_no (s\<lparr>in_external_intr := False\<rparr>);
        if yield_on_return s then thread_yield [] s else Some s
      } else Some s)
   }"

end
