(* ===== verification/Synch.thy ===== *)
theory Synch
  imports Sched
begin

text \<open>
  Semaphores, locks and condition variables (\<^verbatim>\<open>threads/synch.c\<close>), the creation and the
  end of threads and the idle thread (\<^verbatim>\<open>threads/thread.c\<close>), the function that runs the
  frames, and the step relation of the whole machine.
\<close>

section \<open>Semaphores\<close>

definition sema_init :: "sema_ref \<Rightarrow> u32 \<Rightarrow> 'a sched_state_scheme \<Rightarrow> 'a sched_state_scheme option" where
  "sema_init sema value s = do {
     kassert (sema \<noteq> Sema NULL);
     Some (upd_sema sema (\<lambda>_. \<lparr>sema_value = value, sema_waiters = []\<rparr>) s)
   }"

text \<open>The loop of \<^verbatim>\<open>sema_down\<close>, from its test: either the value is taken, or the thread
  queues and sleeps, and tests again when it is switched to.\<close>

definition sema_down_loop ::
    "sema_ref \<Rightarrow> intr_level \<Rightarrow> frame list \<Rightarrow> 'a sched_state_scheme \<Rightarrow> 'a sched_state_scheme option" where
  "sema_down_loop sema old_level k s =
    (if sema_value (semas s sema) = 0 then do {
       cur \<leftarrow> thread_current s;
       let s = upd_sema sema (sema_waiters_update (\<lambda>w. w @ [cur])) s;
       thread_block (push_frames [Sema_down_loop sema old_level k] s)
     } else do {
       let s = upd_sema sema (sema_value_update (\<lambda>v. v - 1)) s;
       (_, s) \<leftarrow> intr_set_level old_level s;
       Some (push_frames k s)
     })"

definition sema_down :: "sema_ref \<Rightarrow> frame list \<Rightarrow> 'a sched_state_scheme \<Rightarrow> 'a sched_state_scheme option" where
  "sema_down sema k s = do {
     kassert (sema \<noteq> Sema NULL);
     kassert (\<not> intr_context s);
     let (old_level, s) = intr_disable s;
     sema_down_loop sema old_level k s
   }"

definition sema_try_down :: "sema_ref \<Rightarrow> 'a sched_state_scheme \<Rightarrow> (bool \<times> 'a sched_state_scheme) option" where
  "sema_try_down sema s = do {
     kassert (sema \<noteq> Sema NULL);
     let (old_level, s) = intr_disable s;
     let (success, s) = (if sema_value (semas s sema) > 0
        then (True, upd_sema sema (sema_value_update (\<lambda>v. v - 1)) s) else (False, s));
     (_, s) \<leftarrow> intr_set_level old_level s;
     Some (success, s)
   }"

definition sema_up :: "sema_ref \<Rightarrow> 'a sched_state_scheme \<Rightarrow> 'a sched_state_scheme option" where
  "sema_up sema s = do {
     kassert (sema \<noteq> Sema NULL);
     let (old_level, s) = intr_disable s;
     s \<leftarrow> (case sema_waiters (semas s sema) of
             [] \<Rightarrow> Some s
           | t # ts \<Rightarrow> thread_unblock t (upd_sema sema (sema_waiters_update (\<lambda>_. ts)) s));
     let s = upd_sema sema (sema_value_update (\<lambda>v. v + 1)) s;
     (_, s) \<leftarrow> intr_set_level old_level s;
     Some s
   }"

section \<open>Locks\<close>

definition lock_init :: "ptr \<Rightarrow> 'a sched_state_scheme \<Rightarrow> 'a sched_state_scheme option" where
  "lock_init lock s = do {
     kassert (lock \<noteq> NULL);
     sema_init (Lock_semaphore lock) 1 (s\<lparr>holder := (holder s)(lock := NULL)\<rparr>)
   }"

definition lock_held_by_current_thread :: "ptr \<Rightarrow> 'a sched_state_scheme \<Rightarrow> bool option" where
  "lock_held_by_current_thread lock s = do {
     kassert (lock \<noteq> NULL);
     cur \<leftarrow> thread_current s;
     Some (holder s lock = cur)
   }"

definition lock_acquire :: "ptr \<Rightarrow> frame list \<Rightarrow> 'a sched_state_scheme \<Rightarrow> 'a sched_state_scheme option" where
  "lock_acquire lock k s = do {
     kassert (lock \<noteq> NULL);
     kassert (\<not> intr_context s);
     held \<leftarrow> lock_held_by_current_thread lock s;
     kassert (\<not> held);
     sema_down (Lock_semaphore lock) (Set_holder lock # k) s
   }"

definition lock_try_acquire :: "ptr \<Rightarrow> 'a sched_state_scheme \<Rightarrow> (bool \<times> 'a sched_state_scheme) option" where
  "lock_try_acquire lock s = do {
     kassert (lock \<noteq> NULL);
     held \<leftarrow> lock_held_by_current_thread lock s;
     kassert (\<not> held);
     (success, s) \<leftarrow> sema_try_down (Lock_semaphore lock) s;
     Some (success, if success then push_frames [Set_holder lock] s else s)
   }"

definition lock_release :: "ptr \<Rightarrow> frame list \<Rightarrow> 'a sched_state_scheme \<Rightarrow> 'a sched_state_scheme option" where
  "lock_release lock k s = do {
     kassert (lock \<noteq> NULL);
     held \<leftarrow> lock_held_by_current_thread lock s;
     kassert held;
     Some (push_frames (Call_sema_up (Lock_semaphore lock) # k)
             (s\<lparr>holder := (holder s)(lock := NULL)\<rparr>))
   }"

section \<open>Condition variables\<close>

text \<open>A struct semaphore_elem is a local variable of \<^verbatim>\<open>cond_wait\<close>, so it is named by the
  thread that waits.\<close>

definition cond_init :: "ptr \<Rightarrow> 'a sched_state_scheme \<Rightarrow> 'a sched_state_scheme option" where
  "cond_init cond s = do {
     kassert (cond \<noteq> NULL);
     Some (s\<lparr>cond_waiters := (cond_waiters s)(cond := [])\<rparr>)
   }"

definition cond_wait :: "ptr \<Rightarrow> ptr \<Rightarrow> frame list \<Rightarrow> 'a sched_state_scheme \<Rightarrow> 'a sched_state_scheme option" where
  "cond_wait cond lock k s = do {
     kassert (cond \<noteq> NULL);
     kassert (lock \<noteq> NULL);
     kassert (\<not> intr_context s);
     held \<leftarrow> lock_held_by_current_thread lock s;
     kassert held;
     let waiter = running_thread s;
     s \<leftarrow> sema_init (Cond_waiter waiter) 0 s;
     let s = s\<lparr>cond_waiters := (cond_waiters s)(cond := cond_waiters s cond @ [waiter])\<rparr>;
     lock_release lock [Call_sema_down (Cond_waiter waiter) [Call_lock_acquire lock k]] s
   }"

definition cond_signal :: "ptr \<Rightarrow> ptr \<Rightarrow> frame list \<Rightarrow> 'a sched_state_scheme \<Rightarrow> 'a sched_state_scheme option" where
  "cond_signal cond lock k s = do {
     kassert (cond \<noteq> NULL);
     kassert (lock \<noteq> NULL);
     kassert (\<not> intr_context s);
     held \<leftarrow> lock_held_by_current_thread lock s;
     kassert held;
     (case cond_waiters s cond of
        [] \<Rightarrow> Some (push_frames k s)
      | w # ws \<Rightarrow> Some (push_frames (Call_sema_up (Cond_waiter w) # k)
                       (s\<lparr>cond_waiters := (cond_waiters s)(cond := ws)\<rparr>)))
   }"

definition cond_broadcast_loop :: "ptr \<Rightarrow> ptr \<Rightarrow> 'a sched_state_scheme \<Rightarrow> 'a sched_state_scheme option" where
  "cond_broadcast_loop cond lock s =
    (if cond_waiters s cond = [] then Some s else cond_signal cond lock [Broadcast_loop cond lock] s)"

definition cond_broadcast :: "ptr \<Rightarrow> ptr \<Rightarrow> 'a sched_state_scheme \<Rightarrow> 'a sched_state_scheme option" where
  "cond_broadcast cond lock s = do {
     kassert (cond \<noteq> NULL);
     kassert (lock \<noteq> NULL);
     cond_broadcast_loop cond lock s
   }"

section \<open>Creating threads\<close>

definition strlcpy_name :: "string \<Rightarrow> string" where
  "strlcpy_name name = take 15 name"

definition init_thread :: "ptr \<Rightarrow> string \<Rightarrow> int \<Rightarrow> 'a sched_state_scheme \<Rightarrow> 'a sched_state_scheme option" where
  "init_thread t name prio s = do {
     kassert (t \<noteq> NULL);
     kassert (PRI_MIN \<le> prio \<and> prio \<le> PRI_MAX);
     par \<leftarrow> (if t = initial_thread s then Some NULL else thread_current s);
     let s = s\<lparr>threads := (threads s)(t \<mapsto>
        \<lparr>tid = 0, status = THREAD_BLOCKED, thr_name = strlcpy_name name, stack = t + PGSIZE,
         priority = prio, pagedir = 0, parent = par, children = [], child_info = NULL,
         st_exit = UINT32_MAX, child_loaded = True, files = [], exec_file = NULL, file_fd = 2,
         magic = THREAD_MAGIC\<rparr>)\<rparr>;
     s \<leftarrow> sema_init (Thread_sema_wait t) 0 s;
     let (old_level, s) = intr_disable s;
     let s = s\<lparr>all_list := all_list s @ [t]\<rparr>;
     (_, s) \<leftarrow> intr_set_level old_level s;
     Some s
   }"

definition alloc_frame :: "ptr \<Rightarrow> nat \<Rightarrow> 'a sched_state_scheme \<Rightarrow> 'a sched_state_scheme option" where
  "alloc_frame t sz s = do {
     kassert (is_thread t s);
     kassert (sz mod 4 = 0);
     upd_thread t (stack_update (\<lambda>p. p - sz)) s
   }"

text \<open>\<open>t\<close> is the page that \<^verbatim>\<open>palloc_get_page\<close> returns and \<open>c\<close> the block that
  \<^verbatim>\<open>malloc\<close> returns for the struct child; either may be null.\<close>

definition thread_create ::
    "string \<Rightarrow> int \<Rightarrow> thread_func \<Rightarrow> nat \<Rightarrow> ptr \<Rightarrow> ptr \<Rightarrow> 'a sched_state_scheme \<Rightarrow> 'a sched_state_scheme option" where
  "thread_create name prio function aux t c s = do {
     kassert (function \<noteq> Fn_null);
     (if t = NULL then Some s
      else do {
        s \<leftarrow> init_thread t name prio s;
        lock_acquire tid_lock [Tid_fetch t function aux c] s
      })
   }"

definition tid_fetch :: "ptr \<Rightarrow> thread_func \<Rightarrow> nat \<Rightarrow> ptr \<Rightarrow> 'a sched_state_scheme \<Rightarrow> 'a sched_state_scheme option" where
  "tid_fetch t function aux c s =
     lock_release tid_lock [Create_finish t (next_tid s) function aux c]
       (s\<lparr>next_tid := next_tid s + 1\<rparr>)"

definition create_finish ::
    "ptr \<Rightarrow> u32 \<Rightarrow> thread_func \<Rightarrow> nat \<Rightarrow> ptr \<Rightarrow> 'a sched_state_scheme \<Rightarrow> 'a sched_state_scheme option" where
  "create_finish t new_tid function aux c s = do {
     s \<leftarrow> upd_thread t (\<lambda>th. th\<lparr>tid := new_tid, child_info := c\<rparr>) s;
     kassert (c \<noteq> NULL);
     s \<leftarrow> sema_init (Child_sema_wait c) 0
           (s\<lparr>childs := (childs s)(c \<mapsto> \<lparr>child_tid = new_tid, child_st_exit = UINT32_MAX, child_succ = False\<rparr>)\<rparr>);
     cur \<leftarrow> thread_current s;
     s \<leftarrow> upd_thread cur (children_update (\<lambda>cs. cs @ [c])) s;
     s \<leftarrow> alloc_frame t 12 s;
     s \<leftarrow> alloc_frame t 4 s;
     s \<leftarrow> alloc_frame t 28 s;
     thread_unblock t (s\<lparr>kframes := (kframes s)(t := [Kernel_thread function aux])\<rparr>)
   }"

definition kernel_thread :: "thread_func \<Rightarrow> 'a sched_state_scheme \<Rightarrow> 'a sched_state_scheme option" where
  "kernel_thread function s = do {
     kassert (function \<noteq> Fn_null);
     (_, s) \<leftarrow> intr_enable s;
     Some (push_frames (case function of Fn f \<Rightarrow> [Func f] | Fn_idle sema \<Rightarrow> [Idle_start sema] | Fn_null \<Rightarrow> []) s)
   }"

text \<open>\<open>t\<close> is the page of the boot stack, \<open>esp\<close> rounded down.\<close>

definition thread_init :: "ptr \<Rightarrow> 'a sched_state_scheme \<Rightarrow> 'a sched_state_scheme option" where
  "thread_init t s = do {
     kassert (intr_get_level s = INTR_OFF);
     s \<leftarrow> lock_init file_lock s;
     s \<leftarrow> lock_init tid_lock s;
     let s = s\<lparr>ready_list := [], all_list := [], initial_thread := t, running_thread := t\<rparr>;
     s \<leftarrow> init_thread t ''main'' PRI_DEFAULT s;
     s \<leftarrow> set_status t THREAD_RUNNING s;
     Some (push_frames [Call_lock_acquire tid_lock [Initial_tid]] s)
   }"

definition initial_tid :: "'a sched_state_scheme \<Rightarrow> 'a sched_state_scheme option" where
  "initial_tid s =
     lock_release tid_lock [Set_initial_tid (next_tid s)] (s\<lparr>next_tid := next_tid s + 1\<rparr>)"

definition idle_started_sema :: ptr where "idle_started_sema = 4"

definition thread_start :: "ptr \<Rightarrow> ptr \<Rightarrow> 'a sched_state_scheme \<Rightarrow> 'a sched_state_scheme option" where
  "thread_start t c s = do {
     s \<leftarrow> sema_init (Sema idle_started_sema) 0 s;
     thread_create ''idle'' PRI_MIN (Fn_idle idle_started_sema) 0 t c
       (push_frames [Call_intr_enable, Call_sema_down (Sema idle_started_sema) []] s)
   }"

section \<open>The idle thread and the end of a thread\<close>

definition idle_start :: "ptr \<Rightarrow> 'a sched_state_scheme \<Rightarrow> 'a sched_state_scheme option" where
  "idle_start idle_started s = do {
     cur \<leftarrow> thread_current s;
     Some (push_frames [Call_sema_up (Sema idle_started), Idle_loop] (s\<lparr>idle_thread := cur\<rparr>))
   }"

definition idle_loop :: "'a sched_state_scheme \<Rightarrow> 'a sched_state_scheme option" where
  "idle_loop s = thread_block (push_frames [Idle_wake] (snd (intr_disable s)))"

definition idle_wake :: "'a sched_state_scheme \<Rightarrow> 'a sched_state_scheme option" where
  "idle_wake s = Some (push_frames [Idle_loop] (s\<lparr>eflags := eflags s OR FLAG_IF\<rparr>))"

text \<open>The part of \<^verbatim>\<open>process_exit\<close> that concerns the scheduler: the page directory is detached
  before the base directory is activated.\<close>

definition process_exit_pagedir :: "'a sched_state_scheme \<Rightarrow> 'a sched_state_scheme option" where
  "process_exit_pagedir s = do {
     cur \<leftarrow> thread_current s;
     th \<leftarrow> threads s cur;
     (if pagedir th \<noteq> 0 then do {
        s \<leftarrow> upd_thread cur (pagedir_update (\<lambda>_. 0)) s;
        Some (s\<lparr>active_pagedir := 0\<rparr>)
      } else Some s)
   }"

definition thread_exit :: "'a sched_state_scheme \<Rightarrow> 'a sched_state_scheme option" where
  "thread_exit s = do {
     kassert (\<not> intr_context s);
     s \<leftarrow> process_exit_pagedir s;
     let s = snd (intr_disable s);
     cur \<leftarrow> thread_current s;
     th \<leftarrow> threads s cur;
     kassert (child_info th \<noteq> NULL);
     ch \<leftarrow> childs s (child_info th);
     let s = s\<lparr>childs := (childs s)(child_info th \<mapsto> ch\<lparr>child_st_exit := st_exit th\<rparr>)\<rparr>;
     Some (push_frames [Call_sema_up (Child_sema_wait (child_info th)), Exit_files] s)
   }"

definition exit_files :: "'a sched_state_scheme \<Rightarrow> 'a sched_state_scheme option" where
  "exit_files s = do {
     cur \<leftarrow> thread_current s;
     th \<leftarrow> threads s cur;
     s \<leftarrow> (if exec_file th \<noteq> NULL then
             upd_thread cur (exec_file_update (\<lambda>_. NULL))
               (s\<lparr>file_log := file_log s @ [Allow_write (exec_file th), Close (exec_file th)]\<rparr>)
           else Some s);
     Some (push_frames [Exit_loop] s)
   }"

definition exit_loop :: "'a sched_state_scheme \<Rightarrow> 'a sched_state_scheme option" where
  "exit_loop s = do {
     cur \<leftarrow> thread_current s;
     th \<leftarrow> threads s cur;
     (case files th of
        (_, f) # fs \<Rightarrow> do {
          s \<leftarrow> upd_thread cur (files_update (\<lambda>_. fs)) s;
          lock_acquire file_lock [Exit_close f] s
        }
      | [] \<Rightarrow> do {
          s \<leftarrow> set_status cur THREAD_DYING (s\<lparr>all_list := remove1 cur (all_list s)\<rparr>);
          schedule s
        })
   }"

definition exit_close :: "ptr \<Rightarrow> 'a sched_state_scheme \<Rightarrow> 'a sched_state_scheme option" where
  "exit_close f s = lock_release file_lock [Exit_loop] (s\<lparr>file_log := file_log s @ [Close f]\<rparr>)"

section \<open>Running frames\<close>

fun run_frame :: "frame \<Rightarrow> 'a sched_state_scheme \<Rightarrow> 'a sched_state_scheme option" where
  "run_frame (Func _) s = thread_exit s"
| "run_frame (Kernel_thread f aux) s = kernel_thread f s"
| "run_frame (Sema_down_loop a old_level k) s = sema_down_loop a old_level k s"
| "run_frame (Call_sema_down a k) s = sema_down a k s"
| "run_frame (Call_sema_up a) s = sema_up a s"
| "run_frame (Set_holder l) s = do {
     cur \<leftarrow> thread_current s;
     Some (s\<lparr>holder := (holder s)(l := cur)\<rparr>)
   }"
| "run_frame (Call_lock_acquire l k) s = lock_acquire l k s"
| "run_frame (Broadcast_loop cond lock) s = cond_broadcast_loop cond lock s"
| "run_frame (Yield_return old_level) s = do { (_, s) \<leftarrow> intr_set_level old_level s; Some s }"
| "run_frame Iret s = Some (s\<lparr>eflags := eflags s OR FLAG_IF\<rparr>)"
| "run_frame (Idle_start a) s = idle_start a s"
| "run_frame Idle_loop s = idle_loop s"
| "run_frame Idle_wake s = idle_wake s"
| "run_frame (Tid_fetch t f aux c) s = tid_fetch t f aux c s"
| "run_frame (Create_finish t i f aux c) s = create_finish t i f aux c s"
| "run_frame Exit_files s = exit_files s"
| "run_frame Exit_loop s = exit_loop s"
| "run_frame (Exit_close f) s = exit_close f s"
| "run_frame Initial_tid s = initial_tid s"
| "run_frame Call_intr_enable s = do { (_, s) \<leftarrow> intr_enable s; Some s }"
| "run_frame (Set_initial_tid i) s = upd_thread (initial_thread s) (tid_update (\<lambda>_. i)) s"

definition pop_frame :: "'a sched_state_scheme \<Rightarrow> 'a sched_state_scheme" where
  "pop_frame s = s\<lparr>kframes := (kframes s)(running_thread s := tl (kframes s (running_thread s)))\<rparr>"

text \<open>The running thread continues with its topmost frame.\<close>

definition resume_frame :: "'a sched_state_scheme \<Rightarrow> 'a sched_state_scheme option" where
  "resume_frame s =
    (case kframes s (running_thread s) of [] \<Rightarrow> None | f # _ \<Rightarrow> run_frame f (pop_frame s))"

section \<open>The machine\<close>

text \<open>The calls that thread code makes.\<close>

datatype call =
    Do_sema_init ptr u32
  | Do_sema_down ptr
  | Do_sema_try_down ptr
  | Do_sema_up ptr
  | Do_lock_acquire ptr
  | Do_lock_try_acquire ptr
  | Do_lock_release ptr
  | Do_cond_wait ptr ptr
  | Do_cond_signal ptr ptr
  | Do_cond_broadcast ptr ptr
  | Do_yield
  | Do_create string int thread_func nat ptr ptr
  | Do_set_priority int
  | Do_intr_disable
  | Do_intr_enable

fun do_call :: "call \<Rightarrow> 'a sched_state_scheme \<Rightarrow> 'a sched_state_scheme option" where
  "do_call (Do_sema_init a v) s = sema_init (Sema a) v s"
| "do_call (Do_sema_down a) s = sema_down (Sema a) [] s"
| "do_call (Do_sema_try_down a) s = map_option snd (sema_try_down (Sema a) s)"
| "do_call (Do_sema_up a) s = sema_up (Sema a) s"
| "do_call (Do_lock_acquire l) s = lock_acquire l [] s"
| "do_call (Do_lock_try_acquire l) s = map_option snd (lock_try_acquire l s)"
| "do_call (Do_lock_release l) s = lock_release l [] s"
| "do_call (Do_cond_wait c l) s = cond_wait c l [] s"
| "do_call (Do_cond_signal c l) s = cond_signal c l [] s"
| "do_call (Do_cond_broadcast c l) s = cond_broadcast c l s"
| "do_call Do_yield s = thread_yield [] s"
| "do_call (Do_create nm p f aux t c) s = thread_create nm p f aux t c s"
| "do_call (Do_set_priority p) s = thread_set_priority p s"
| "do_call Do_intr_disable s = Some (snd (intr_disable s))"
| "do_call Do_intr_enable s = map_option snd (intr_enable s)"

text \<open>What the rest of the kernel owes the scheduler: a semaphore is initialised only while nobody
  waits on it, the allocators return memory that is not in use, and only \<^verbatim>\<open>thread_start\<close>
  creates an idle thread.\<close>

fun call_ok :: "call \<Rightarrow> 'a sched_state_scheme \<Rightarrow> bool" where
  "call_ok (Do_sema_init a v) s = (sema_waiters (semas s (Sema a)) = [])"
| "call_ok (Do_create nm p f aux t c) s =
    ((case f of Fn_idle _ \<Rightarrow> False | _ \<Rightarrow> True) \<and> threads s t = None \<and> t \<noteq> initial_thread s)"
| "call_ok _ s = True"

text \<open>The timer interrupt as the processor delivers it: through an interrupt gate, which clears the
  interrupt flag; \<^verbatim>\<open>iret\<close> sets it again.\<close>

definition take_timer_interrupt :: "'a sched_state_scheme \<Rightarrow> 'a sched_state_scheme option" where
  "take_timer_interrupt s =
    intr_handler (\<lambda>_. timer_interrupt) 0x20 (push_frames [Iret] (snd (intr_disable s)))"

inductive kstep :: "'a sched_state_scheme \<Rightarrow> 'a sched_state_scheme \<Rightarrow> bool" where
  resume: "kstep s s'" if "resume_frame s = Some s'"
| api: "kstep s s'" if "kframes s (running_thread s) = [Func f]" "call_ok c s" "do_call c s = Some s'"
| timer: "kstep s s'" if "intr_get_level s = INTR_ON" "take_timer_interrupt s = Some s'"

text \<open>The state at boot, with every lock as \<^verbatim>\<open>lock_init\<close> leaves it, and the boot sequence of
  \<^verbatim>\<open>main\<close> up to the call of \<^verbatim>\<open>thread_start\<close>.\<close>

definition boot_state :: "ptr \<Rightarrow> sched_state" where
  "boot_state t =
    \<lparr>eflags = 0, in_external_intr = False, yield_on_return = False, idt = replicate 256 0,
     intr_handlers = (replicate 256 NULL)[0x20 := 1], intr_names = replicate 256 ''unknown'',
     unexpected_cnt = replicate 256 0, idtr = 0, ports = [], unexpected_log = [],
     threads = Map.empty, childs = Map.empty,
     semas = (\<lambda>a. case a of Lock_semaphore _ \<Rightarrow> \<lparr>sema_value = 1, sema_waiters = []\<rparr>
                         | _ \<Rightarrow> \<lparr>sema_value = 0, sema_waiters = []\<rparr>),
     holder = (\<lambda>_. NULL), cond_waiters = (\<lambda>_. []), ready_list = [], all_list = [],
     idle_thread = NULL, initial_thread = NULL, running_thread = NULL, next_tid = 1, ticks = 0,
     idle_ticks = 0, kernel_ticks = 0, user_ticks = 0, thread_ticks = 0, active_pagedir = 0,
     tss_esp0 = 0, freed_pages = [], file_log = [], kframes = (\<lambda>_. [])(t := [Func 0])\<rparr>"

definition boot :: "ptr \<Rightarrow> ptr \<Rightarrow> ptr \<Rightarrow> sched_state option" where
  "boot t idle_page idle_child = do {
     s \<leftarrow> thread_init t (boot_state t);
     s \<leftarrow> resume_frame s;
     s \<leftarrow> resume_frame s;
     s \<leftarrow> resume_frame s;
     s \<leftarrow> resume_frame s;
     s \<leftarrow> resume_frame s;
     thread_start idle_page idle_child s
   }"

inductive reachable :: "sched_state \<Rightarrow> bool" where
  start: "reachable s" if "boot t i c = Some s" "t \<noteq> NULL" "i \<noteq> t"
| step: "reachable s'" if "reachable s" "kstep s s'"

end
