(* ===== verification/Sched_Inv.thy ===== *)
theory Sched_Inv
  imports Synch
begin

text \<open>
  The invariant of the thread system and the proof that every step of the machine keeps it: each
  thread is on at most one queue and on the right one, a lock's semaphore, holder and pending
  operations always add up to one token, and a semaphore with waiters never has more units than
  threads that are awake to take them.
\<close>

section \<open>What a stack of frames says\<close>

fun is_loop :: "frame \<Rightarrow> bool" where
  "is_loop (Sema_down_loop _ _ _) = True"
| "is_loop _ = False"

fun loop_ref :: "frame list \<Rightarrow> sema_ref option" where
  "loop_ref (Sema_down_loop a _ _ # _) = Some a"
| "loop_ref _ = None"

text \<open>The threads a pending \<^verbatim>\<open>thread_create\<close> is building.\<close>

fun mentions1 :: "frame \<Rightarrow> ptr list" where
  "mentions1 (Sema_down_loop _ _ k) = concat (map mentions1 k)"
| "mentions1 (Call_sema_down _ k) = concat (map mentions1 k)"
| "mentions1 (Call_lock_acquire _ k) = concat (map mentions1 k)"
| "mentions1 (Tid_fetch t _ _ _) = [t]"
| "mentions1 (Create_finish t _ _ _ _) = [t]"
| "mentions1 _ = []"

abbreviation mentions :: "frame list \<Rightarrow> ptr list" where
  "mentions ks \<equiv> concat (map mentions1 ks)"

text \<open>The obligations to become the idle thread.\<close>

fun idle_fn :: "thread_func \<Rightarrow> nat" where
  "idle_fn (Fn_idle _) = 1"
| "idle_fn _ = 0"

fun idlers1 :: "frame \<Rightarrow> nat" where
  "idlers1 (Sema_down_loop _ _ k) = sum_list (map idlers1 k)"
| "idlers1 (Call_sema_down _ k) = sum_list (map idlers1 k)"
| "idlers1 (Call_lock_acquire _ k) = sum_list (map idlers1 k)"
| "idlers1 (Tid_fetch _ f _ _) = idle_fn f"
| "idlers1 (Create_finish _ _ f _ _) = idle_fn f"
| "idlers1 (Kernel_thread f _) = idle_fn f"
| "idlers1 (Idle_start _) = 1"
| "idlers1 _ = 0"

abbreviation idlers :: "frame list \<Rightarrow> nat" where
  "idlers ks \<equiv> sum_list (map idlers1 ks)"

text \<open>The frames that are always at the bottom of a stack.\<close>

fun is_base :: "frame \<Rightarrow> bool" where
  "is_base (Sema_down_loop _ _ k) = list_ex is_base k"
| "is_base (Call_sema_down _ k) = list_ex is_base k"
| "is_base (Call_lock_acquire _ k) = list_ex is_base k"
| "is_base (Func _) = True"
| "is_base (Kernel_thread _ _) = True"
| "is_base (Idle_start _) = True"
| "is_base Idle_loop = True"
| "is_base Idle_wake = True"
| "is_base Exit_files = True"
| "is_base Exit_loop = True"
| "is_base (Exit_close _) = True"
| "is_base _ = False"

fun base_last :: "frame list \<Rightarrow> bool" where
  "base_last [] = True"
| "base_last (x # r) = ((is_base x \<longrightarrow> r = []) \<and> base_last r)"

text \<open>The token of a lock that a frame carries: the thread has taken the semaphore but not yet
  stored itself as the holder, or it has cleared the holder but not yet raised the semaphore.\<close>

fun tok1 :: "ptr \<Rightarrow> frame \<Rightarrow> nat" where
  "tok1 l (Set_holder l') = (if l' = l then 1 else 0)"
| "tok1 l (Call_sema_up (Lock_semaphore l')) = (if l' = l then 1 else 0)"
| "tok1 l _ = 0"

abbreviation toks :: "ptr \<Rightarrow> frame list \<Rightarrow> nat" where
  "toks l ks \<equiv> sum_list (map (tok1 l) ks)"

fun ref_ok :: "ptr \<Rightarrow> sema_ref \<Rightarrow> bool" where
  "ref_ok t (Cond_waiter p) = (p = t)"
| "ref_ok t (Sema _) = True"
| "ref_ok t (Lock_semaphore _) = True"
| "ref_ok t _ = False"

fun idle_only :: "frame \<Rightarrow> bool" where
  "idle_only Idle_loop = True"
| "idle_only Idle_wake = True"
| "idle_only _ = False"

definition down_ok :: "ptr \<Rightarrow> sema_ref \<Rightarrow> frame list \<Rightarrow> bool" where
  "down_ok t a k = (ref_ok t a \<and> (\<forall>x\<in>set k. \<not> is_loop x \<and> \<not> idle_only x) \<and> base_last k
    \<and> (\<forall>l. toks l k = (if a = Lock_semaphore l then 1 else 0)))"

definition acquire_ok :: "frame list \<Rightarrow> bool" where
  "acquire_ok k = ((\<forall>x\<in>set k. \<not> is_loop x \<and> \<not> idle_only x) \<and> base_last k \<and> (\<forall>l. toks l k = 0))"

fun wf1 :: "ptr \<Rightarrow> frame \<Rightarrow> bool" where
  "wf1 t (Sema_down_loop a _ k) = (down_ok t a k \<and> (\<forall>x\<in>set k. wf1 t x))"
| "wf1 t (Call_sema_down a k) = (down_ok t a k \<and> (\<forall>x\<in>set k. wf1 t x))"
| "wf1 t (Call_lock_acquire l k) = (acquire_ok k \<and> (\<forall>x\<in>set k. wf1 t x))"
| "wf1 t _ = True"

fun idle_frame :: "frame \<Rightarrow> bool" where
  "idle_frame Idle_loop = True"
| "idle_frame Idle_wake = True"
| "idle_frame Iret = True"
| "idle_frame (Yield_return _) = True"
| "idle_frame (Call_sema_up _) = True"
| "idle_frame _ = False"

section \<open>The invariant\<close>

definition st :: "'a sched_state_scheme \<Rightarrow> ptr \<Rightarrow> thread_status option" where
  "st s t = map_option status (threads s t)"

definition waiters :: "'a sched_state_scheme \<Rightarrow> sema_ref \<Rightarrow> ptr list" where
  "waiters s a = sema_waiters (semas s a)"

definition val :: "'a sched_state_scheme \<Rightarrow> sema_ref \<Rightarrow> nat" where
  "val s a = unat (sema_value (semas s a))"

definition hold :: "'a sched_state_scheme \<Rightarrow> ptr \<Rightarrow> nat" where
  "hold s l = (if holder s l \<noteq> NULL then 1 else 0)"

definition live :: "'a sched_state_scheme \<Rightarrow> ptr set" where
  "live s = {t. st s t \<noteq> None}"

definition pending :: "'a sched_state_scheme \<Rightarrow> ptr \<Rightarrow> nat" where
  "pending s l = (\<Sum>t\<in>live s. toks l (kframes s t))"

text \<open>The threads that are awake and about to test semaphore \<open>a\<close> again.\<close>

definition awake :: "'a sched_state_scheme \<Rightarrow> sema_ref \<Rightarrow> ptr set" where
  "awake s a = {t. st s t \<noteq> None \<and> st s t \<noteq> Some THREAD_BLOCKED \<and> loop_ref (kframes s t) = Some a}"

definition inv_run :: "'a sched_state_scheme \<Rightarrow> bool" where
  "inv_run s = (\<forall>t. st s t = Some THREAD_RUNNING \<longleftrightarrow> t = running_thread s)"

definition inv_ready :: "'a sched_state_scheme \<Rightarrow> bool" where
  "inv_ready s = (distinct (ready_list s)
    \<and> (\<forall>t. t \<in> set (ready_list s) \<longleftrightarrow> st s t = Some THREAD_READY \<and> t \<noteq> idle_thread s))"

definition inv_wait :: "'a sched_state_scheme \<Rightarrow> bool" where
  "inv_wait s = (\<forall>a. distinct (waiters s a)
    \<and> (\<forall>t. t \<in> set (waiters s a) \<longleftrightarrow> st s t = Some THREAD_BLOCKED \<and> loop_ref (kframes s t) = Some a))"

definition inv_blocked :: "'a sched_state_scheme \<Rightarrow> bool" where
  "inv_blocked s = (\<forall>t. st s t = Some THREAD_BLOCKED \<longrightarrow>
     loop_ref (kframes s t) \<noteq> None \<or> t = idle_thread s \<or> (\<exists>p. t \<in> set (mentions (kframes s p))))"

definition inv_stack :: "'a sched_state_scheme \<Rightarrow> bool" where
  "inv_stack s = (finite (live s) \<and> (\<forall>t. (\<forall>x\<in>set (kframes s t). wf1 t x) \<and> base_last (kframes s t)
    \<and> (\<forall>x\<in>set (tl (kframes s t)). \<not> is_loop x)
    \<and> (st s t = None \<or> st s t = Some THREAD_DYING \<longrightarrow> kframes s t = [])))"

definition inv_create :: "'a sched_state_scheme \<Rightarrow> bool" where
  "inv_create s = (\<forall>p. length (mentions (kframes s p)) \<le> 1
    \<and> (\<forall>t\<in>set (mentions (kframes s p)). st s t = Some THREAD_BLOCKED \<and> kframes s t = []
         \<and> t \<noteq> idle_thread s \<and> t \<noteq> initial_thread s
         \<and> (\<forall>q. t \<in> set (mentions (kframes s q)) \<longrightarrow> q = p)))"

definition inv_idle :: "'a sched_state_scheme \<Rightarrow> bool" where
  "inv_idle s = ((\<forall>t. \<forall>x\<in>set (kframes s t). idle_only x \<longrightarrow> t = idle_thread s)
    \<and> (\<exists>p. idlers (kframes s p) \<le> 1 \<and> (\<forall>q. q \<noteq> p \<longrightarrow> idlers (kframes s q) = 0))
    \<and> (idle_thread s \<noteq> NULL \<longrightarrow> (\<forall>p. idlers (kframes s p) = 0) \<and> live s \<noteq> {}
         \<and> idle_thread s \<in> live s \<and> st s (idle_thread s) \<noteq> Some THREAD_DYING
         \<and> (\<forall>x\<in>set (kframes s (idle_thread s)). idle_frame x)))"

definition inv_intr :: "'a sched_state_scheme \<Rightarrow> bool" where
  "inv_intr s = (loop_ref (kframes s (running_thread s)) \<noteq> None \<longrightarrow> intr_get_level s = INTR_OFF)"

definition inv_lock :: "'a sched_state_scheme \<Rightarrow> bool" where
  "inv_lock s = (\<forall>l. val s (Lock_semaphore l) + hold s l + pending s l = 1)"

definition inv_wake :: "'a sched_state_scheme \<Rightarrow> bool" where
  "inv_wake s = (\<forall>a. waiters s a \<noteq> [] \<longrightarrow> val s a \<le> card (awake s a))"

definition sched_sw :: "'a sched_state_scheme \<Rightarrow> bool" where
  "sched_sw s = (inv_ready s \<and> inv_wait s \<and> inv_blocked s \<and> inv_stack s \<and> inv_create s
    \<and> inv_idle s \<and> inv_lock s \<and> inv_wake s \<and> NULL \<notin> live s)"

definition sched_ok :: "'a sched_state_scheme \<Rightarrow> bool" where
  "sched_ok s = (sched_sw s \<and> inv_run s \<and> inv_intr s)"

lemmas sched_defs = sched_sw_def sched_ok_def

section \<open>Stacks\<close>

lemma base_last_append:
  "base_last (k @ ks) \<longleftrightarrow> base_last k \<and> base_last ks \<and> (ks \<noteq> [] \<longrightarrow> (\<forall>x\<in>set k. \<not> is_base x))"
  by (induction k) auto

lemma loop_ref_append:
  "k \<noteq> [] \<Longrightarrow> loop_ref (k @ ks) = loop_ref k"
  by (cases k rule: loop_ref.cases) auto

lemma loop_ref_None: "(\<forall>x\<in>set k. \<not> is_loop x) \<Longrightarrow> loop_ref k = None"
  by (cases k rule: loop_ref.cases) auto

lemma loop_ref_Some:
  "loop_ref ks = Some a \<Longrightarrow> \<exists>lv k r. ks = Sema_down_loop a lv k # r"
  by (cases ks rule: loop_ref.cases) auto

lemma idle_frame_loop_ref: "(\<forall>x\<in>set ks. idle_frame x) \<Longrightarrow> loop_ref ks = None"
  by (cases ks rule: loop_ref.cases) auto


lemma set_tl_append: "set (tl (k @ ks)) \<subseteq> set (tl k) \<union> set ks"
  by (cases k; cases ks) auto

lemma push_frames_sel [simp]:
  "kframes (push_frames k s) = (kframes s)(running_thread s := k @ kframes s (running_thread s))"
  "running_thread (push_frames k s) = running_thread s"
  "ready_list (push_frames k s) = ready_list s" "idle_thread (push_frames k s) = idle_thread s"
  "initial_thread (push_frames k s) = initial_thread s"
  "threads (push_frames k s) = threads s" "semas (push_frames k s) = semas s"
  "holder (push_frames k s) = holder s" "eflags (push_frames k s) = eflags s"
  "in_external_intr (push_frames k s) = in_external_intr s"
  "st (push_frames k s) = st s" "waiters (push_frames k s) = waiters s"
  "val (push_frames k s) = val s" "hold (push_frames k s) = hold s" "live (push_frames k s) = live s"
  by (simp_all add: push_frames_def st_def [abs_def] waiters_def [abs_def] val_def [abs_def]
        hold_def [abs_def] live_def [abs_def])

section \<open>Replacing frames of the running thread\<close>

text \<open>\<open>s\<close> is the state with the frames \<open>fs\<close> taken off; \<open>s'\<close> has \<open>k\<close> in their place and may
  differ in the values of semaphores and the holders of locks.\<close>

definition replaces :: "frame list \<Rightarrow> frame list \<Rightarrow> 'a sched_state_scheme \<Rightarrow> 'a sched_state_scheme \<Rightarrow> bool" where
  "replaces fs k s s' = (
     (fs = [] \<longrightarrow> loop_ref (kframes s (running_thread s)) = None)
   \<and> running_thread s' = running_thread s \<and> ready_list s' = ready_list s
   \<and> idle_thread s' = idle_thread s \<and> initial_thread s' = initial_thread s \<and> st s' = st s
   \<and> kframes s' = (kframes s)(running_thread s := k @ kframes s (running_thread s))
   \<and> waiters s' = waiters s
   \<and> (\<forall>l. val s' (Lock_semaphore l) + hold s' l + toks l k
          = val s (Lock_semaphore l) + hold s l + toks l fs)
   \<and> (\<forall>a. waiters s a \<noteq> [] \<longrightarrow> val s' a \<le> val s a - (if loop_ref fs = Some a then 1 else 0)
                             \<or> val s' a \<le> card (awake s' a))
   \<and> mentions k = mentions fs \<and> idlers k = idlers fs
   \<and> (\<forall>x\<in>set k. wf1 (running_thread s) x) \<and> (\<forall>x\<in>set (tl k). \<not> is_loop x)
   \<and> (loop_ref k \<noteq> None \<longrightarrow> intr_get_level s' = INTR_OFF)
   \<and> base_last k \<and> (list_ex is_base k \<longrightarrow> list_ex is_base fs)
   \<and> (running_thread s \<noteq> idle_thread s \<longrightarrow> (\<forall>x\<in>set k. \<not> idle_only x))
   \<and> (running_thread s = idle_thread s \<longrightarrow> (\<forall>x\<in>set k. idle_frame x)))"

lemma pending_split:
  assumes "finite (live s)" "r \<in> live s"
  shows "pending s l = toks l (kframes s r) + (\<Sum>t\<in>live s - {r}. toks l (kframes s t))"
  using assms by (simp add: pending_def sum.remove)

lemma run_live: "inv_run s \<Longrightarrow> running_thread s \<in> live s"
  by (auto simp: inv_run_def live_def)

lemma replaces_tl_loops:
  assumes ok: "sched_ok (push_frames fs s)" and rep: "replaces fs k s s'"
  shows "\<forall>x\<in>set (kframes s (running_thread s)). \<not> is_loop x"
proof -
  have tl: "\<forall>x\<in>set (tl (fs @ kframes s (running_thread s))). \<not> is_loop x"
    using ok by (auto simp: sched_defs inv_stack_def dest: spec [of _ "running_thread s"])
  show ?thesis
  proof (cases fs)
    case Nil
    then have "loop_ref (kframes s (running_thread s)) = None" using rep by (simp add: replaces_def)
    then show ?thesis using tl Nil
      by (cases "kframes s (running_thread s)" rule: loop_ref.cases) auto
  next
    case (Cons f fs')
    then show ?thesis using tl by auto
  qed
qed

lemma replaces_loop_ref:
  assumes "sched_ok (push_frames fs s)" "replaces fs k s s'"
  shows "loop_ref (kframes s' (running_thread s)) = loop_ref k"
proof (cases "k = []")
  case True
  then show ?thesis
    using loop_ref_None [OF replaces_tl_loops [OF assms]] assms(2) by (simp add: replaces_def)
next
  case False
  then show ?thesis using assms(2) by (simp add: replaces_def loop_ref_append)
qed

lemma replaces_live: "replaces fs k s s' \<Longrightarrow> live s' = live s"
  by (simp add: replaces_def live_def)

lemma replaces_run:
  assumes "sched_ok (push_frames fs s)" "replaces fs k s s'"
  shows "inv_run s'" "inv_ready s'" "inv_intr s'" "NULL \<notin> live s'"
  using assms replaces_loop_ref [OF assms]
  by (auto simp: sched_defs inv_run_def inv_ready_def inv_intr_def replaces_def live_def)

lemma replaces_running:
  assumes "sched_ok (push_frames fs s)"
  shows "st s (running_thread s) = Some THREAD_RUNNING"
  using assms by (simp add: sched_defs inv_run_def)

lemma replaces_wait:
  assumes "sched_ok (push_frames fs s)" "replaces fs k s s'"
  shows "inv_wait s'"
  using assms replaces_running [OF assms(1)]
  by (auto simp: sched_defs inv_wait_def replaces_def split: if_splits)

lemma replaces_mentions:
  assumes "replaces fs k s s'"
  shows "mentions (kframes s' p) = mentions (kframes (push_frames fs s) p)"
    "idlers (kframes s' p) = idlers (kframes (push_frames fs s) p)"
  using assms by (auto simp: replaces_def)

lemma replaces_other:
  "replaces fs k s s' \<Longrightarrow> p \<noteq> running_thread s \<Longrightarrow> kframes s' p = kframes (push_frames fs s) p"
  by (simp add: replaces_def)

lemma replaces_blocked:
  assumes "sched_ok (push_frames fs s)" "replaces fs k s s'"
  shows "inv_blocked s'"
  unfolding inv_blocked_def replaces_mentions [OF assms(2)]
proof (intro allI impI)
  fix t assume t: "st s' t = Some THREAD_BLOCKED"
  then have "st s t = Some THREAD_BLOCKED" using assms(2) by (simp add: replaces_def)
  moreover from this have "t \<noteq> running_thread s" using replaces_running [OF assms(1)] by auto
  moreover from calculation(1) have "loop_ref (kframes (push_frames fs s) t) \<noteq> None \<or> t = idle_thread s
      \<or> (\<exists>p. t \<in> set (mentions (kframes (push_frames fs s) p)))"
    using assms(1) unfolding sched_defs inv_blocked_def push_frames_sel(4,11) by blast
  moreover have "idle_thread s' = idle_thread s" using assms(2) by (simp add: replaces_def)
  ultimately show "loop_ref (kframes s' t) \<noteq> None \<or> t = idle_thread s' \<or>
      (\<exists>p. t \<in> set (mentions (kframes (push_frames fs s) p)))"
    using replaces_other [OF assms(2), of t] by simp
qed

lemma replaces_stack:
  assumes "sched_ok (push_frames fs s)" "replaces fs k s s'"
  shows "inv_stack s'"
proof -
  let ?r = "running_thread s"
  have old: "finite (live s)" "\<And>t. (\<forall>x\<in>set (kframes (push_frames fs s) t). wf1 t x)"
    "\<And>t. base_last (kframes (push_frames fs s) t)"
    "\<And>t. (\<forall>x\<in>set (tl (kframes (push_frames fs s) t)). \<not> is_loop x)"
    "\<And>t. st s t = None \<or> st s t = Some THREAD_DYING \<longrightarrow> kframes (push_frames fs s) t = []"
    using assms(1) by (simp_all add: sched_defs inv_stack_def)
  have k': "kframes s' ?r = k @ kframes s ?r" using assms(2) by (simp add: replaces_def)
  have b: "base_last (k @ kframes s ?r)"
    using old(3) [of ?r] assms(2) by (auto simp: base_last_append replaces_def list_ex_iff)
  have w: "\<forall>x\<in>set (k @ kframes s ?r). wf1 ?r x"
    using old(2) [of ?r] assms(2) by (auto simp: replaces_def)
  have "\<forall>x\<in>set (tl k). \<not> is_loop x" using assms(2) by (simp add: replaces_def)
  then have "\<forall>x\<in>set (tl (k @ kframes s ?r)). \<not> is_loop x"
    using replaces_tl_loops [OF assms] set_tl_append [of k "kframes s ?r"] by blast
  moreover have "st s' = st s" using assms(2) by (simp add: replaces_def)
  ultimately have "(\<forall>x\<in>set (kframes s' t). wf1 t x) \<and> base_last (kframes s' t)
      \<and> (\<forall>x\<in>set (tl (kframes s' t)). \<not> is_loop x)
      \<and> (st s' t = None \<or> st s' t = Some THREAD_DYING \<longrightarrow> kframes s' t = [])" for t
    using old(2-5) [of t] replaces_other [OF assms(2), of t] replaces_running [OF assms(1)] b w k'
    by (cases "t = ?r") auto
  then show ?thesis using old(1) replaces_live [OF assms(2)] by (auto simp: inv_stack_def)
qed

lemma replaces_create:
  assumes "sched_ok (push_frames fs s)" "replaces fs k s s'"
  shows "inv_create s'"
  unfolding inv_create_def replaces_mentions [OF assms(2)]
proof (intro allI conjI ballI)
  fix p t assume t: "t \<in> set (mentions (kframes (push_frames fs s) p))"
  have c: "st s t = Some THREAD_BLOCKED \<and> kframes (push_frames fs s) t = [] \<and> t \<noteq> idle_thread s
      \<and> t \<noteq> initial_thread s"
    using assms(1) t unfolding sched_defs inv_create_def push_frames_sel(4,5,11) by blast
  have "t \<noteq> running_thread s" using c replaces_running [OF assms(1)] by auto
  then show "st s' t = Some THREAD_BLOCKED" "kframes s' t = []" "t \<noteq> idle_thread s'"
      "t \<noteq> initial_thread s'"
    using c assms(2) replaces_other [OF assms(2), of t] by (simp_all add: replaces_def)
  show "\<And>q. t \<in> set (mentions (kframes (push_frames fs s) q)) \<longrightarrow> q = p"
    using assms(1) t unfolding sched_defs inv_create_def by blast
qed (use assms(1) in \<open>unfold sched_defs inv_create_def, blast\<close>)

lemma replaces_idle:
  assumes "sched_ok (push_frames fs s)" "replaces fs k s s'"
  shows "inv_idle s'"
proof -
  have i: "idle_thread s' = idle_thread s" "st s' = st s" using assms(2) by (simp_all add: replaces_def)
  have "\<forall>x\<in>set (kframes s' (idle_thread s)). idle_frame x"
    if "\<forall>x\<in>set (kframes (push_frames fs s) (idle_thread s)). idle_frame x"
    using that assms(2) replaces_other [OF assms(2), of "idle_thread s"]
    by (cases "idle_thread s = running_thread s") (auto simp: replaces_def)
  moreover have "\<forall>t. \<forall>x\<in>set (kframes s' t). idle_only x \<longrightarrow> t = idle_thread s"
  proof (intro allI ballI impI)
    fix t x assume x: "x \<in> set (kframes s' t)" "idle_only x"
    have "x \<in> set (kframes (push_frames fs s) t) \<Longrightarrow> t = idle_thread s"
      using assms(1) x(2) unfolding sched_defs inv_idle_def push_frames_sel(4) by blast
    then show "t = idle_thread s"
      using x assms(2) replaces_other [OF assms(2), of t]
      by (cases "t = running_thread s") (auto simp: replaces_def)
  qed
  ultimately show ?thesis
    using assms(1) replaces_live [OF assms(2)]
    unfolding sched_defs inv_idle_def replaces_mentions [OF assms(2)] i push_frames_sel(4,11,15)
    by blast
qed

lemma replaces_lock:
  assumes "sched_ok (push_frames fs s)" "replaces fs k s s'"
  shows "inv_lock s'"
  unfolding inv_lock_def
proof
  fix l
  let ?r = "running_thread s" and ?o = "\<Sum>t\<in>live s - {running_thread s}. toks l (kframes s t)"
  have fin: "finite (live s)" and r: "?r \<in> live s"
    using assms(1) replaces_running [OF assms(1)] by (auto simp: sched_defs inv_stack_def live_def)
  have "pending (push_frames fs s) l = toks l fs + toks l (kframes s ?r) + ?o"
    using pending_split [of "push_frames fs s" ?r l] fin r by simp
  moreover have "pending s' l = toks l k + toks l (kframes s ?r) + ?o"
    using pending_split [of s' ?r l] fin r replaces_live [OF assms(2)] assms(2)
    by (simp add: replaces_def)
  moreover have "val s (Lock_semaphore l) + hold s l + pending (push_frames fs s) l = 1"
    using assms(1) by (simp add: sched_defs inv_lock_def)
  moreover have "val s' (Lock_semaphore l) + hold s' l + toks l k
      = val s (Lock_semaphore l) + hold s l + toks l fs"
    using assms(2) by (simp add: replaces_def)
  ultimately show "val s' (Lock_semaphore l) + hold s' l + pending s' l = 1" by linarith
qed

lemma replaces_wake:
  assumes "sched_ok (push_frames fs s)" "replaces fs k s s'"
  shows "inv_wake s'"
  unfolding inv_wake_def
proof (intro allI impI)
  fix a assume w: "waiters s' a \<noteq> []"
  let ?r = "running_thread s"
  have fin: "finite (awake (push_frames fs s) a)"
    using assms(1) by (auto simp: sched_defs inv_stack_def awake_def live_def intro: rev_finite_subset)
  have sub: "awake (push_frames fs s) a - {?r} \<subseteq> awake s' a"
    using assms(2) replaces_other [OF assms(2)] by (auto simp: awake_def replaces_def)
  have fin': "finite (awake s' a)"
    using assms(1) replaces_live [OF assms(2)]
    by (auto simp: sched_defs inv_stack_def awake_def live_def intro: rev_finite_subset)
  have c: "val s a \<le> card (awake (push_frames fs s) a)"
    using assms w by (simp add: sched_defs inv_wake_def replaces_def)
  have v: "val s' a \<le> val s a - (if loop_ref fs = Some a then 1 else 0) \<or> val s' a \<le> card (awake s' a)"
    using assms(2) w unfolding replaces_def by metis
  show "val s' a \<le> card (awake s' a)"
  proof (cases "?r \<in> awake (push_frames fs s) a")
    case True
    then have "loop_ref (fs @ kframes s ?r) = Some a" by (simp add: awake_def)
    moreover have "fs = [] \<longrightarrow> loop_ref (kframes s ?r) = None" using assms(2) by (simp add: replaces_def)
    ultimately have "loop_ref fs = Some a" by (cases "fs = []") (simp_all add: loop_ref_append)
    then show ?thesis using v c card_mono [OF fin' sub] True fin by auto
  next
    case False
    then show ?thesis using v c card_mono [OF fin' sub] by (auto split: if_splits)
  qed
qed

theorem ok_replaces:
  assumes "sched_ok (push_frames fs s)" "replaces fs k s s'"
  shows "sched_ok s'"
  unfolding sched_defs
  using replaces_run [OF assms] replaces_wait [OF assms] replaces_blocked [OF assms]
    replaces_stack [OF assms] replaces_create [OF assms] replaces_idle [OF assms]
    replaces_lock [OF assms] replaces_wake [OF assms] by simp

section \<open>Switching threads\<close>

definition dies :: "ptr \<Rightarrow> 'a sched_state_scheme \<Rightarrow> bool" where
  "dies nxt s = (running_thread s \<noteq> nxt \<and> st s (running_thread s) = Some THREAD_DYING
    \<and> running_thread s \<noteq> initial_thread s)"

text \<open>The fields of the state that the invariant reads besides the threads and their frames.\<close>

definition same_rest :: "'a sched_state_scheme \<Rightarrow> 'a sched_state_scheme \<Rightarrow> bool" where
  "same_rest s s' = (idle_thread s' = idle_thread s \<and> initial_thread s' = initial_thread s
    \<and> eflags s' = eflags s \<and> semas s' = semas s \<and> holder s' = holder s)"

lemma set_status_some:
  "set_status t x s = Some s' \<longleftrightarrow> (\<exists>th. threads s t = Some th
    \<and> s' = s\<lparr>threads := (threads s)(t \<mapsto> th\<lparr>status := x\<rparr>)\<rparr>)"
  by (auto simp: set_status_def upd_thread_def bind_eq_Some_conv)

lemma thread_schedule_tail_effect:
  assumes "thread_schedule_tail prev s = Some s'"
  shows "eflags s' = eflags s \<and> intr_get_level s' = INTR_OFF \<and> same_rest s s'
    \<and> ready_list s' = ready_list s \<and> running_thread s' = running_thread s
    \<and> (let d = (prev \<noteq> NULL \<and> prev \<noteq> running_thread s \<and> st s prev = Some THREAD_DYING \<and> prev \<noteq> initial_thread s)
       in st s' = (\<lambda>t. if t = running_thread s then Some THREAD_RUNNING
                   else if d \<and> t = prev then None else st s t)
        \<and> kframes s' = (if d then (kframes s)(prev := []) else kframes s))"
proof -
  let ?c = "running_thread s"
  from assms obtain th where off: "intr_get_level s = INTR_OFF" and th: "threads s ?c = Some th"
    by (auto simp: thread_schedule_tail_def set_status_some bind_eq_Some_conv Let_def split: if_splits)
  define s1 where "s1 = s\<lparr>threads := (threads s)(?c \<mapsto> th\<lparr>status := THREAD_RUNNING\<rparr>), thread_ticks := 0,
      active_pagedir := pagedir th, tss_esp0 := ?c + PGSIZE\<rparr>"
  have tail: "(if prev \<noteq> NULL then do {
        pth \<leftarrow> threads s1 prev;
        if status pth = THREAD_DYING \<and> prev \<noteq> initial_thread s then do {
          kassert (prev \<noteq> ?c);
          Some (s1\<lparr>threads := (threads s1)(prev := None), kframes := (kframes s)(prev := []),
                  freed_pages := freed_pages s @ [prev]\<rparr>)
        } else Some s1
      } else Some s1) = Some s'"
    using assms off th
    by (auto simp add: Let_def thread_schedule_tail_def process_activate_def thread_current_def set_status_def
          upd_thread_def s1_def split: if_splits cong: if_cong)
  have b: "eflags s1 = eflags s" "same_rest s s1" "ready_list s1 = ready_list s"
    "running_thread s1 = ?c" "kframes s1 = kframes s"
    "st s1 = (\<lambda>t. if t = ?c then Some THREAD_RUNNING else st s t)"
    by (simp_all add: s1_def same_rest_def st_def [abs_def] fun_eq_iff)
  show ?thesis
  proof (cases "prev \<noteq> NULL \<and> prev \<noteq> ?c \<and> st s prev = Some THREAD_DYING \<and> prev \<noteq> initial_thread s")
    case True
    then obtain pth where "threads s1 prev = Some pth" "status pth = THREAD_DYING"
      by (auto simp: s1_def st_def)
    then have "s' = s1\<lparr>threads := (threads s1)(prev := None), kframes := (kframes s)(prev := []),
                  freed_pages := freed_pages s @ [prev]\<rparr>"
      using tail True by simp
    then show ?thesis using b off True
      by (simp add: same_rest_def intr_get_level_def Let_def st_def [abs_def] fun_eq_iff)
  next
    case False
    have "s' = s1"
      using tail False by (auto simp: s1_def st_def bind_eq_Some_conv split: if_splits)
    then show ?thesis using b off False
      by (auto simp add: same_rest_def intr_get_level_def Let_def)
  qed
qed

lemma schedule_effect:
  assumes "schedule s = Some s'" "running_thread s \<noteq> NULL"
  shows "\<exists>nxt. (case ready_list s of [] \<Rightarrow> nxt = idle_thread s \<and> ready_list s' = []
                 | t # ts \<Rightarrow> nxt = t \<and> ready_list s' = ts)
    \<and> nxt \<noteq> NULL \<and> st s nxt \<noteq> None \<and> running_thread s' = nxt \<and> same_rest s s'
    \<and> intr_get_level s' = INTR_OFF
    \<and> st s' = (\<lambda>t. if t = nxt then Some THREAD_RUNNING
                   else if dies nxt s \<and> t = running_thread s then None else st s t)
    \<and> kframes s' = (if dies nxt s then (kframes s)(running_thread s := []) else kframes s)"
proof -
  obtain nxt s1 where n: "next_thread_to_run s = (nxt, s1)" by (cases "next_thread_to_run s")
  then have s1: "case ready_list s of [] \<Rightarrow> nxt = idle_thread s \<and> ready_list s1 = []
                 | t # ts \<Rightarrow> nxt = t \<and> ready_list s1 = ts"
    "threads s1 = threads s" "kframes s1 = kframes s" "same_rest s s1"
    by (auto simp: next_thread_to_run_def same_rest_def split: list.splits)
  from assms n have isth: "is_thread nxt s1" and
    tl: "thread_schedule_tail (if running_thread s \<noteq> nxt then running_thread s else NULL)
         (s1\<lparr>running_thread := nxt\<rparr>) = Some s'"
    by (auto simp: schedule_def bind_eq_Some_conv Let_def split: if_splits)
  have nx: "nxt \<noteq> NULL \<and> st s nxt \<noteq> None"
    using isth s1(2) by (auto simp: is_thread_def st_def split: option.splits)
  have d: "((if running_thread s \<noteq> nxt then running_thread s else NULL) \<noteq> NULL
      \<and> (if running_thread s \<noteq> nxt then running_thread s else NULL) \<noteq> nxt
      \<and> st s1 (if running_thread s \<noteq> nxt then running_thread s else NULL) = Some THREAD_DYING
      \<and> (if running_thread s \<noteq> nxt then running_thread s else NULL) \<noteq> initial_thread s1) = dies nxt s"
    using assms(2) s1 by (auto simp: dies_def same_rest_def st_def)
  have sts: "st (s1\<lparr>running_thread := nxt\<rparr>) = st s" using s1(2) by (simp add: st_def [abs_def])
  note e = thread_schedule_tail_effect [OF tl, simplified, unfolded sts]
  show ?thesis
    apply (rule exI [of _ nxt])
    using e s1 nx d sts assms(2)
    by (auto simp: same_rest_def Let_def dies_def st_def [abs_def] fun_eq_iff split: list.splits if_splits)
qed


lemma same_rest_sel:
  assumes "same_rest s s'"
  shows "idle_thread s' = idle_thread s" "initial_thread s' = initial_thread s"
    "waiters s' = waiters s" "val s' = val s" "hold s' = hold s"
  using assms by (simp_all add: same_rest_def waiters_def [abs_def] val_def [abs_def] hold_def [abs_def])

lemma ok_schedule:
  assumes sw: "sched_sw s" and run: "\<And>t. st s t \<noteq> Some THREAD_RUNNING"
    and r: "running_thread s \<in> live s" and s': "schedule s = Some s'"
  shows "sched_ok s'"
proof -
  let ?r = "running_thread s"
  have r0: "?r \<noteq> NULL" using sw r unfolding sched_defs by metis
  obtain nxt where nx: "case ready_list s of [] \<Rightarrow> nxt = idle_thread s \<and> ready_list s' = []
                 | t # ts \<Rightarrow> nxt = t \<and> ready_list s' = ts"
    and n0: "nxt \<noteq> NULL" "st s nxt \<noteq> None" and run': "running_thread s' = nxt" and rest: "same_rest s s'"
    and off: "intr_get_level s' = INTR_OFF"
    and st': "st s' = (\<lambda>t. if t = nxt then Some THREAD_RUNNING
                   else if dies nxt s \<and> t = ?r then None else st s t)"
    and kf0: "kframes s' = (if dies nxt s then (kframes s)(?r := []) else kframes s)"
    using schedule_effect [OF s' r0] by blast
  have stk: "inv_stack s" and rdy: "inv_ready s" and idl: "inv_idle s" using sw by (simp_all add: sched_defs)
  have dead: "dies nxt s \<Longrightarrow> kframes s ?r = [] \<and> st s ?r = Some THREAD_DYING \<and> ?r \<noteq> nxt"
    using stk by (simp add: inv_stack_def dies_def)
  have kf: "kframes s' = kframes s" using kf0 dead by (auto simp: fun_eq_iff)
  have nxt: "st s nxt = Some THREAD_READY \<and> nxt \<noteq> idle_thread s \<or> nxt = idle_thread s"
    using nx rdy by (auto simp: inv_ready_def split: list.splits)
  have nidle: "nxt = idle_thread s \<Longrightarrow> loop_ref (kframes s nxt) = None"
    using idl n0 by (simp add: inv_idle_def idle_frame_loop_ref)
  have live': "live s' = (if dies nxt s then live s - {?r} else live s)"
    using st' n0 dead by (auto simp: live_def split: if_splits)
  note sel = same_rest_sel [OF rest]
  have "inv_ready s'"
    using nx rdy st' run sel dead by (auto simp: inv_ready_def split: list.splits if_splits)
  moreover have "inv_wait s'"
    using sw st' sel kf nxt nidle dead by (auto simp: sched_defs inv_wait_def split: if_splits)
  moreover have "inv_blocked s'"
    using sw st' sel kf by (auto simp: sched_defs inv_blocked_def split: if_splits)
  moreover have "inv_stack s'"
    using stk st' kf dead live' by (auto simp: inv_stack_def split: if_splits)
  moreover have "inv_create s'"
    using sw st' sel kf nxt dead unfolding sched_defs inv_create_def by (auto split: if_splits)
  moreover have "inv_idle s'"
  proof -
    have "idle_thread s \<noteq> NULL \<Longrightarrow> idle_thread s \<in> live s' \<and> st s' (idle_thread s) \<noteq> Some THREAD_DYING"
    proof -
      assume i: "idle_thread s \<noteq> NULL"
      have "idle_thread s \<in> live s" "st s (idle_thread s) \<noteq> Some THREAD_DYING"
        using idl i by (simp_all add: inv_idle_def)
      then show "idle_thread s \<in> live s' \<and> st s' (idle_thread s) \<noteq> Some THREAD_DYING"
        using st' live' dead by auto
    qed
    then show ?thesis
      using idl unfolding inv_idle_def sel kf by blast
  qed
  moreover have "inv_lock s'"
  proof -
    have "pending s' l = pending s l" for l
      using stk dead live' kf by (auto simp: pending_def inv_stack_def sum_diff1_nat)
    then show ?thesis using sw sel by (simp add: sched_defs inv_lock_def)
  qed
  moreover have "inv_wake s'"
  proof -
    have "awake s' a = awake s a" for a
      using st' kf nxt nidle dead n0 by (auto simp: awake_def split: if_splits)
    then show ?thesis using sw sel by (simp add: sched_defs inv_wake_def)
  qed
  moreover have "NULL \<notin> live s'" using sw live' by (auto simp: sched_defs)
  moreover have "inv_run s'" using st' run run' by (auto simp: inv_run_def)
  moreover have "inv_intr s'" using off by (simp add: inv_intr_def)
  ultimately show ?thesis by (simp add: sched_defs)
qed


text \<open>The running thread stops running: it gets the status \<open>x\<close> and the frames \<open>k\<close> in place of
  \<open>fs\<close>, and joins the queue that goes with them.\<close>

definition deschedules ::
    "thread_status \<Rightarrow> frame list \<Rightarrow> frame list \<Rightarrow> 'a sched_state_scheme \<Rightarrow> 'a sched_state_scheme \<Rightarrow> bool" where
  "deschedules x fs k s s' = (
     (fs = [] \<longrightarrow> loop_ref (kframes s (running_thread s)) = None)
   \<and> running_thread s' = running_thread s
   \<and> idle_thread s' = idle_thread s \<and> initial_thread s' = initial_thread s
   \<and> st s' = (st s)(running_thread s := Some x) \<and> x \<noteq> THREAD_RUNNING
   \<and> kframes s' = (kframes s)(running_thread s := k @ kframes s (running_thread s))
   \<and> ready_list s' = ready_list s @
        (if x = THREAD_READY \<and> running_thread s \<noteq> idle_thread s then [running_thread s] else [])
   \<and> waiters s' = (\<lambda>a. waiters s a @
        (if x = THREAD_BLOCKED \<and> loop_ref k = Some a then [running_thread s] else []))
   \<and> val s' = val s \<and> hold s' = hold s
   \<and> (\<forall>a. loop_ref fs = Some a \<or> loop_ref k = Some a \<longrightarrow> val s a = 0)
   \<and> mentions k = mentions fs \<and> idlers k = idlers fs \<and> (\<forall>l. toks l k = toks l fs)
   \<and> (\<forall>x\<in>set k. wf1 (running_thread s) x) \<and> (\<forall>x\<in>set (tl k). \<not> is_loop x)
   \<and> base_last k \<and> (list_ex is_base k \<longrightarrow> list_ex is_base fs)
   \<and> (running_thread s \<noteq> idle_thread s \<longrightarrow> (\<forall>x\<in>set k. \<not> idle_only x))
   \<and> (running_thread s = idle_thread s \<longrightarrow> (\<forall>x\<in>set k. idle_frame x) \<and> x \<noteq> THREAD_DYING)
   \<and> (x = THREAD_BLOCKED \<longrightarrow> loop_ref k \<noteq> None \<or> running_thread s = idle_thread s)
   \<and> (x = THREAD_DYING \<longrightarrow> k = [] \<and> list_ex is_base fs)
   \<and> (k = [] \<longrightarrow> x = THREAD_DYING))"

lemma desch_loops:
  assumes "sched_ok (push_frames fs s)" "deschedules x fs k s s'"
  shows "\<forall>x\<in>set (kframes s (running_thread s)). \<not> is_loop x"
proof -
  have tl: "\<forall>x\<in>set (tl (fs @ kframes s (running_thread s))). \<not> is_loop x"
    using assms(1) by (auto simp: sched_defs inv_stack_def dest: spec [of _ "running_thread s"])
  show ?thesis
  proof (cases fs)
    case Nil
    then have "loop_ref (kframes s (running_thread s)) = None" using assms(2) by (simp add: deschedules_def)
    then show ?thesis using tl Nil
      by (cases "kframes s (running_thread s)" rule: loop_ref.cases) auto
  next
    case (Cons f fs')
    then show ?thesis using tl by auto
  qed
qed

lemma desch_stack:
  assumes ok: "sched_ok (push_frames fs s)" and d: "deschedules x fs k s s'"
  shows "inv_stack s'" "live s' = live s"
proof -
  let ?r = "running_thread s"
  have r: "st s ?r = Some THREAD_RUNNING" by (rule replaces_running [OF ok])
  have kf: "kframes s' = (kframes s)(?r := k @ kframes s ?r)" and st': "st s' = (st s)(?r := Some x)"
    and kb: "base_last k" "list_ex is_base k \<longrightarrow> list_ex is_base fs"
      "x = THREAD_DYING \<longrightarrow> k = [] \<and> list_ex is_base fs" "\<forall>x\<in>set k. wf1 ?r x"
    using d by (simp_all add: deschedules_def)
  show lv: "live s' = live s" using st' r by (auto simp: live_def)
  have old: "finite (live s)" "\<And>t. (\<forall>x\<in>set (kframes (push_frames fs s) t). wf1 t x)"
    "\<And>t. base_last (kframes (push_frames fs s) t)"
    "\<And>t. (\<forall>x\<in>set (tl (kframes (push_frames fs s) t)). \<not> is_loop x)"
    "\<And>t. st s t = None \<or> st s t = Some THREAD_DYING \<longrightarrow> kframes (push_frames fs s) t = []"
    using ok by (simp_all add: sched_defs inv_stack_def)
  have b: "base_last (k @ kframes s ?r)" "x = THREAD_DYING \<longrightarrow> k @ kframes s ?r = []"
    using old(3) [of ?r] kb by (auto simp: base_last_append list_ex_iff)
  have w: "\<forall>x\<in>set (k @ kframes s ?r). wf1 ?r x"
    using old(2) [of ?r] kb by auto
  have "\<forall>x\<in>set (tl k). \<not> is_loop x" using d by (simp add: deschedules_def)
  then have "\<forall>x\<in>set (tl (k @ kframes s ?r)). \<not> is_loop x"
    using desch_loops [OF ok d] set_tl_append [of k "kframes s ?r"] by blast
  then have "(\<forall>x\<in>set (kframes s' t). wf1 t x) \<and> base_last (kframes s' t)
      \<and> (\<forall>x\<in>set (tl (kframes s' t)). \<not> is_loop x)
      \<and> (st s' t = None \<or> st s' t = Some THREAD_DYING \<longrightarrow> kframes s' t = [])" for t
    using old(2-5) [of t] b w kf st' by (cases "t = ?r") auto
  then show "inv_stack s'" using old(1) lv by (auto simp: inv_stack_def)
qed

lemma desch_mentions:
  assumes "deschedules x fs k s s'"
  shows "mentions (kframes s' p) = mentions (kframes (push_frames fs s) p)"
    "idlers (kframes s' p) = idlers (kframes (push_frames fs s) p)"
    "toks l (kframes s' p) = toks l (kframes (push_frames fs s) p)"
    "p \<noteq> running_thread s \<Longrightarrow> kframes s' p = kframes (push_frames fs s) p"
  using assms by (auto simp: deschedules_def)

lemma desch_loop_ref:
  assumes ok: "sched_ok (push_frames fs s)" and d: "deschedules x fs k s s'"
  shows "loop_ref (kframes s' (running_thread s)) = loop_ref k"
proof (cases "k = []")
  case True
  then show ?thesis using loop_ref_None [OF desch_loops [OF ok d]] d by (simp add: deschedules_def)
next
  case False
  then show ?thesis using d by (simp add: deschedules_def loop_ref_append)
qed

lemma desch_create:
  assumes ok: "sched_ok (push_frames fs s)" and d: "deschedules x fs k s s'"
  shows "inv_create s'" "inv_blocked s'" "inv_idle s'"
proof -
  let ?r = "running_thread s"
  have r: "st s ?r = Some THREAD_RUNNING" by (rule replaces_running [OF ok])
  have eqs: "idle_thread s' = idle_thread s" "initial_thread s' = initial_thread s"
    "st s' = (st s)(?r := Some x)" "live s' = live s"
    using d desch_stack(2) [OF ok d] by (simp_all add: deschedules_def)
  show "inv_create s'"
    unfolding inv_create_def desch_mentions(1) [OF d]
  proof (intro allI conjI ballI)
    fix p t assume t: "t \<in> set (mentions (kframes (push_frames fs s) p))"
    have c: "st s t = Some THREAD_BLOCKED \<and> kframes (push_frames fs s) t = [] \<and> t \<noteq> idle_thread s
        \<and> t \<noteq> initial_thread s"
      using ok t unfolding sched_defs inv_create_def push_frames_sel(4,5,11) by blast
    have "t \<noteq> ?r" using c r by auto
    then show "st s' t = Some THREAD_BLOCKED" "kframes s' t = []" "t \<noteq> idle_thread s'"
        "t \<noteq> initial_thread s'"
      using c eqs desch_mentions(4) [OF d, of t] by simp_all
    show "\<And>q. t \<in> set (mentions (kframes (push_frames fs s) q)) \<longrightarrow> q = p"
      using ok t unfolding sched_defs inv_create_def by blast
  qed (use ok in \<open>unfold sched_defs inv_create_def, blast\<close>)
  show "inv_blocked s'"
    unfolding inv_blocked_def desch_mentions(1) [OF d]
  proof (intro allI impI)
    fix t assume t: "st s' t = Some THREAD_BLOCKED"
    show "loop_ref (kframes s' t) \<noteq> None \<or> t = idle_thread s' \<or>
        (\<exists>p. t \<in> set (mentions (kframes (push_frames fs s) p)))"
    proof (cases "t = ?r")
      case True
      then show ?thesis using t eqs desch_loop_ref [OF ok d] d by (auto simp: deschedules_def)
    next
      case False
      then have "st s t = Some THREAD_BLOCKED" using t eqs by simp
      then have "loop_ref (kframes (push_frames fs s) t) \<noteq> None \<or> t = idle_thread s
          \<or> (\<exists>p. t \<in> set (mentions (kframes (push_frames fs s) p)))"
        using ok unfolding sched_defs inv_blocked_def push_frames_sel(4,11) by blast
      then show ?thesis using False desch_mentions(4) [OF d, of t] eqs by simp
    qed
  qed
  have "\<forall>x\<in>set (kframes s' (idle_thread s)). idle_frame x"
    if "\<forall>x\<in>set (kframes (push_frames fs s) (idle_thread s)). idle_frame x"
    using that d desch_mentions(4) [OF d, of "idle_thread s"]
    by (cases "idle_thread s = ?r") (auto simp: deschedules_def)
  moreover have "\<forall>t. \<forall>x\<in>set (kframes s' t). idle_only x \<longrightarrow> t = idle_thread s"
  proof (intro allI ballI impI)
    fix t y assume y: "y \<in> set (kframes s' t)" "idle_only y"
    have "y \<in> set (kframes (push_frames fs s) t) \<Longrightarrow> t = idle_thread s"
      using ok y(2) unfolding sched_defs inv_idle_def push_frames_sel(4) by blast
    moreover have "kframes s' ?r = k @ kframes s ?r" "?r \<noteq> idle_thread s \<longrightarrow> (\<forall>x\<in>set k. \<not> idle_only x)"
      using d by (simp_all add: deschedules_def)
    ultimately show "t = idle_thread s"
      using y desch_mentions(4) [OF d, of t] by (cases "t = ?r") auto
  qed
  moreover have "st s' (idle_thread s) \<noteq> Some THREAD_DYING"
    if "st s (idle_thread s) \<noteq> Some THREAD_DYING"
    using that d by (auto simp: deschedules_def)
  ultimately show "inv_idle s'"
    using ok
    unfolding sched_defs inv_idle_def desch_mentions(2) [OF d] eqs(1,4) push_frames_sel(4,11,15)
    by blast
qed

lemma desch_queues:
  assumes ok: "sched_ok (push_frames fs s)" and d: "deschedules x fs k s s'"
  shows "inv_ready s'" "inv_wait s'"
proof -
  let ?r = "running_thread s"
  have r: "st s ?r = Some THREAD_RUNNING" by (rule replaces_running [OF ok])
  have rold: "distinct (ready_list s)" "\<And>t. t \<in> set (ready_list s) \<longleftrightarrow> st s t = Some THREAD_READY \<and> t \<noteq> idle_thread s"
    using ok by (simp_all add: sched_defs inv_ready_def)
  have r': "ready_list s' = ready_list s @ (if x = THREAD_READY \<and> ?r \<noteq> idle_thread s then [?r] else [])"
    "idle_thread s' = idle_thread s" "st s' = (st s)(?r := Some x)"
    using d by (simp_all add: deschedules_def)
  show "inv_ready s'"
    unfolding inv_ready_def r' using rold r by auto
  have wold: "\<And>a. distinct (waiters s a)" "\<And>a t. t \<in> set (waiters s a) \<longleftrightarrow> st s t = Some THREAD_BLOCKED
      \<and> loop_ref (kframes (push_frames fs s) t) = Some a"
    using ok by (simp_all add: sched_defs inv_wait_def)
  have w': "waiters s' a = waiters s a @ (if x = THREAD_BLOCKED \<and> loop_ref k = Some a then [?r] else [])"
    and st': "st s' = (st s)(?r := Some x)" for a
    using d by (simp_all add: deschedules_def)
  have nr: "?r \<notin> set (waiters s a)" for a using wold(2) [of ?r a] r by simp
  show "inv_wait s'"
    unfolding inv_wait_def
  proof (intro allI conjI)
    show "distinct (waiters s' a)" for a
      using wold(1) [of a] nr [of a] w' [of a] by (auto split: if_splits)
    show "t \<in> set (waiters s' a) \<longleftrightarrow> st s' t = Some THREAD_BLOCKED \<and> loop_ref (kframes s' t) = Some a"
      for a t
      using wold(2) [of t a] w' [of a] st' nr [of a] desch_loop_ref [OF ok d] desch_mentions(4) [OF d, of t]
      by (cases "t = ?r") auto
  qed
qed

lemma desch_wake:
  assumes ok: "sched_ok (push_frames fs s)" and d: "deschedules x fs k s s'"
  shows "inv_wake s'" "inv_lock s'"
proof -
  let ?r = "running_thread s"
  have r: "st s ?r = Some THREAD_RUNNING" by (rule replaces_running [OF ok])
  have lv: "live s' = live s" by (rule desch_stack(2) [OF ok d])
  show "inv_lock s'"
    using ok d lv unfolding sched_defs inv_lock_def pending_def desch_mentions(3) [OF d]
    by (simp add: deschedules_def)
  show "inv_wake s'"
    unfolding inv_wake_def
  proof (intro allI impI)
    fix a assume w: "waiters s' a \<noteq> []"
    have v: "val s' a = val s a" using d by (simp add: deschedules_def)
    show "val s' a \<le> card (awake s' a)"
    proof (cases "loop_ref fs = Some a \<or> loop_ref k = Some a")
      case True
      then have "val s a = 0" using d unfolding deschedules_def by blast
      then show ?thesis using v by simp
    next
      case False
      have "waiters s a \<noteq> []" using w d False by (simp add: deschedules_def split: if_splits)
      moreover have "?r \<notin> awake (push_frames fs s) a"
        using False d by (cases "fs = []") (auto simp: awake_def loop_ref_append deschedules_def)
      then have "awake (push_frames fs s) a \<subseteq> awake s' a"
        using d desch_mentions(4) [OF d] by (auto simp: awake_def deschedules_def)
      moreover have "finite (awake s' a)"
        using desch_stack [OF ok d] by (auto simp: inv_stack_def awake_def live_def intro: rev_finite_subset)
      ultimately have "card (awake (push_frames fs s) a) \<le> card (awake s' a)"
        by (simp add: card_mono)
      moreover have "val s a \<le> card (awake (push_frames fs s) a)"
        using ok \<open>waiters s a \<noteq> []\<close> by (simp add: sched_defs inv_wake_def)
      ultimately show ?thesis using v by simp
    qed
  qed
qed

lemma ok_deschedules:
  assumes "sched_ok (push_frames fs s)" "deschedules x fs k s s1" "schedule s1 = Some s'"
  shows "sched_ok s'"
proof (rule ok_schedule [OF _ _ _ assms(3)])
  show "sched_sw s1"
    unfolding sched_sw_def using desch_stack [OF assms(1,2)] desch_create [OF assms(1,2)]
      desch_queues [OF assms(1,2)] desch_wake [OF assms(1,2)] assms(1)
    by (simp add: sched_sw_def sched_ok_def)
  show "st s1 t \<noteq> Some THREAD_RUNNING" for t
  proof -
    have "st s1 = (st s)(running_thread s := Some x)" "x \<noteq> THREAD_RUNNING"
      using assms(2) by (simp_all add: deschedules_def)
    moreover have "st s t = Some THREAD_RUNNING \<longleftrightarrow> t = running_thread s"
      using assms(1) by (simp add: sched_ok_def inv_run_def)
    ultimately show ?thesis by simp
  qed
  show "running_thread s1 \<in> live s1"
    using assms(2) by (simp add: deschedules_def live_def)
qed


end
