(* ===== verification/Sched_Steps.thy ===== *)
theory Sched_Steps
  imports Sched_Inv
begin

text \<open>
  Every operation of \<^verbatim>\<open>thread.c\<close> and \<^verbatim>\<open>synch.c\<close> keeps the invariant of theory
  \<open>Sched_Inv\<close>. An operation in flight is described by the frame that started it: the invariant
  holds of the state with that frame put back.
\<close>

section \<open>The interrupt flag\<close>

lemma level_bit: "intr_get_level s = INTR_ON \<longleftrightarrow> bit (eflags s) 9"
proof -
  have "FLAG_IF = push_bit 9 1" by (simp add: FLAG_IF_def)
  then have "eflags s AND FLAG_IF \<noteq> 0 \<longleftrightarrow> bit (eflags s) 9"
    by (metis and_exp_eq_0_iff_not_bit push_bit_of_1)
  then show ?thesis by (simp add: intr_get_level_def)
qed

lemma level_off: "intr_get_level s = INTR_OFF \<longleftrightarrow> \<not> bit (eflags s) 9"
  using level_bit [of s] by (cases "intr_get_level s") auto

lemma flag_bit: "bit FLAG_IF n \<longleftrightarrow> n = 9"
proof -
  have e: "FLAG_IF = push_bit 9 1" by (simp add: FLAG_IF_def)
  show ?thesis unfolding e bit_push_bit_iff bit_1_iff by auto
qed

lemma intr_disable_eq: "intr_disable s = (intr_get_level s, s\<lparr>eflags := eflags s AND NOT FLAG_IF\<rparr>)"
  by (simp add: intr_disable_def)

lemma level_disabled: "intr_get_level (s\<lparr>eflags := e AND NOT FLAG_IF\<rparr>) = INTR_OFF"
  by (simp add: level_off bit_simps flag_bit)

lemma intr_set_level_some:
  assumes "intr_set_level lv s = Some (old, s')"
  shows "\<exists>e. s' = s\<lparr>eflags := e\<rparr> \<and> intr_get_level s' = lv"
proof (cases lv)
  case INTR_OFF
  then show ?thesis using assms
    by (auto simp: intr_set_level_def intr_disable_eq level_disabled)
next
  case INTR_ON
  then show ?thesis using assms
    by (auto simp: intr_set_level_def intr_enable_def level_bit bit_simps flag_bit split: if_splits)
qed

lemma thread_current_some:
  "thread_current s = Some c \<Longrightarrow> c = running_thread s \<and> st s c = Some THREAD_RUNNING"
  by (auto simp: thread_current_def st_def bind_eq_Some_conv Let_def split: if_splits)

section \<open>Waking a waiter\<close>

lemma ok_run: "sched_ok s \<Longrightarrow> st s t = Some THREAD_RUNNING \<longleftrightarrow> t = running_thread s"
  by (simp add: sched_defs inv_run_def)

lemma ok_wake:
  assumes ok: "sched_ok s" and w: "waiters s a = t # ts"
    and st': "st u = (st s)(t := Some THREAD_READY)" and rd: "ready_list u = ready_list s @ [t]"
    and wu: "waiters u = (waiters s)(a := ts)" and kf: "kframes u = kframes s"
    and eqs: "running_thread u = running_thread s" "idle_thread u = idle_thread s"
      "initial_thread u = initial_thread s" "val u = val s" "hold u = hold s"
    and iu: "inv_intr u"
  shows "sched_ok u \<and> val s a + 1 \<le> card (awake u a)"
proof -
  have t: "st s t = Some THREAD_BLOCKED" "loop_ref (kframes s t) = Some a"
    using ok w unfolding sched_defs inv_wait_def by (metis list.set_intros(1))+
  have lv: "live u = live s" using st' t by (auto simp: live_def)
  have ti: "t \<noteq> idle_thread s"
  proof
    assume i: "t = idle_thread s"
    have "t \<in> live s" using t by (simp add: live_def)
    then have "t \<noteq> NULL" using ok unfolding sched_defs by metis
    then have "loop_ref (kframes s t) = None"
      using ok i by (simp add: sched_defs inv_idle_def idle_frame_loop_ref)
    then show False using t by simp
  qed
  have "inv_ready u"
    using ok t ti by (auto simp: sched_defs inv_ready_def st' rd eqs)
  moreover have "inv_wait u"
  proof -
    have old: "\<And>b. distinct (waiters s b)" "\<And>b p. p \<in> set (waiters s b) \<longleftrightarrow>
        st s p = Some THREAD_BLOCKED \<and> loop_ref (kframes s p) = Some b"
      using ok by (simp_all add: sched_defs inv_wait_def)
    have "distinct (waiters u b)" for b using old(1) [of b] old(1) [of a] w wu by auto
    moreover have "p \<in> set (waiters u b) \<longleftrightarrow> st u p = Some THREAD_BLOCKED \<and> loop_ref (kframes u p) = Some b" for b p
      using old(2) [of p b] old(1) [of a] old(2) [of p a] w wu st' kf t by (cases "b = a") auto
    ultimately show ?thesis by (simp add: inv_wait_def)
  qed
  moreover have "inv_blocked u"
    using ok by (auto simp: sched_defs inv_blocked_def st' kf eqs)
  moreover have "inv_stack u"
    using ok t lv by (auto simp: sched_defs inv_stack_def st' kf)
  moreover have "inv_create u"
    using ok t unfolding sched_defs inv_create_def st' kf eqs by auto
  moreover have "inv_idle u"
    using ok ti unfolding sched_defs inv_idle_def st' kf eqs lv by auto
  moreover have "inv_lock u"
    using ok by (simp add: sched_defs inv_lock_def pending_def lv kf eqs)
  moreover have aw: "awake u b = (if b = a then insert t (awake s b) else awake s b)" for b
    using t by (auto simp: awake_def st' kf)
  have fin: "finite (awake s b)" for b
    using ok by (auto simp: sched_defs inv_stack_def awake_def live_def intro: rev_finite_subset)
  have cb: "card (awake s b) \<le> card (awake u b)" for b using aw [of b] fin [of b] by (simp add: card_insert_le)
  have "inv_wake u"
    unfolding inv_wake_def
  proof (intro allI impI)
    fix b assume "waiters u b \<noteq> []"
    then have "waiters s b \<noteq> []" using wu w by (auto split: if_splits)
    then have "val s b \<le> card (awake s b)" using ok by (simp add: sched_defs inv_wake_def)
    then show "val u b \<le> card (awake u b)" using cb [of b] eqs by simp
  qed
  moreover have "NULL \<notin> live u" using ok lv by (simp add: sched_defs)
  moreover have "inv_run u"
  proof -
    have "t \<noteq> running_thread s" using ok_run [OF ok, of t] t by simp
    then show ?thesis by (auto simp: inv_run_def st' eqs ok_run [OF ok])
  qed
  moreover have "val s a + 1 \<le> card (awake u a)"
  proof -
    have "t \<notin> awake s a" using t by (simp add: awake_def)
    then have "card (awake u a) = card (awake s a) + 1" using aw [of a] fin [of a] by simp
    moreover have "val s a \<le> card (awake s a)" using ok w by (simp add: sched_defs inv_wake_def)
    ultimately show ?thesis by simp
  qed
  ultimately show ?thesis using iu by (simp add: sched_defs)
qed

lemma upd_sema_sel [simp]:
  "threads (upd_sema a f s) = threads s" "kframes (upd_sema a f s) = kframes s"
  "ready_list (upd_sema a f s) = ready_list s" "idle_thread (upd_sema a f s) = idle_thread s"
  "initial_thread (upd_sema a f s) = initial_thread s" "running_thread (upd_sema a f s) = running_thread s"
  "holder (upd_sema a f s) = holder s" "eflags (upd_sema a f s) = eflags s"
  "semas (upd_sema a f s) = (semas s)(a := f (semas s a))" "st (upd_sema a f s) = st s"
  "in_external_intr (upd_sema a f s) = in_external_intr s"
  by (simp_all add: upd_sema_def st_def [abs_def])

lemma thread_unblock_effect:
  assumes "thread_unblock t s = Some s'"
  shows "\<exists>th e. threads s t = Some th \<and> status th = THREAD_BLOCKED
    \<and> s' = s\<lparr>ready_list := ready_list s @ [t], threads := (threads s)(t \<mapsto> th\<lparr>status := THREAD_READY\<rparr>), eflags := e\<rparr>
    \<and> intr_get_level s' = intr_get_level s"
proof -
  define s1 where "s1 = s\<lparr>eflags := eflags s AND NOT FLAG_IF\<rparr>"
  from assms obtain th old s2 where th: "threads s t = Some th" "status th = THREAD_BLOCKED"
    and s2: "set_status t THREAD_READY (s1\<lparr>ready_list := ready_list s @ [t]\<rparr>) = Some s2"
    and l: "intr_set_level (intr_get_level s) s2 = Some (old, s')"
    by (auto simp: thread_unblock_def intr_disable_eq s1_def bind_eq_Some_conv split: if_splits)
  obtain e where e: "s' = s2\<lparr>eflags := e\<rparr>" "intr_get_level s' = intr_get_level s"
    using intr_set_level_some [OF l] by blast
  have "s2 = s1\<lparr>ready_list := ready_list s @ [t], threads := (threads s)(t \<mapsto> th\<lparr>status := THREAD_READY\<rparr>)\<rparr>"
    using s2 th by (auto simp: set_status_some s1_def)
  then show ?thesis using e th by (auto simp: s1_def)
qed


lemma unat_Suc_le: "unat ((v :: u32) + 1) \<le> unat v + 1"
  by (metis mod_less_eq_dividend unat_word_ariths(1) unsigned_1)

lemma val_upd_value:
  "val (upd_sema a (sema_value_update f) s) = (\<lambda>b. if b = a then unat (f (sema_value (semas s a))) else val s b)"
  "waiters (upd_sema a (sema_value_update f) s) = waiters s"
  "hold (upd_sema a g s) = hold s"
  "val (upd_sema a (sema_waiters_update h) s) = val s"
  "waiters (upd_sema a (sema_waiters_update h) s) = (waiters s)(a := h (waiters s a))"
  by (auto simp: val_def waiters_def hold_def fun_eq_iff)

lemma eflags_upd [simp]:
  "st (s\<lparr>eflags := e\<rparr>) = st s" "waiters (s\<lparr>eflags := e\<rparr>) = waiters s" "val (s\<lparr>eflags := e\<rparr>) = val s"
  "hold (s\<lparr>eflags := e\<rparr>) = hold s"
  by (simp_all add: st_def [abs_def] waiters_def [abs_def] val_def [abs_def] hold_def [abs_def])

lemma inflight_loop_free:
  assumes ok: "sched_ok (push_frames [f] s)"
  shows "loop_ref (kframes s (running_thread s)) = None"
proof (rule loop_ref_None)
  show "\<forall>x\<in>set (kframes s (running_thread s)). \<not> is_loop x"
    using ok by (auto simp: sched_defs inv_stack_def dest: spec [of _ "running_thread s"])
qed

lemma inflight_not_idle:
  assumes ok: "sched_ok (push_frames [f] s)" and f: "\<not> idle_frame f"
  shows "running_thread s \<noteq> idle_thread s"
proof
  assume i: "running_thread s = idle_thread s"
  have "running_thread s \<in> live s" using replaces_running [OF ok] by (simp add: live_def)
  then have "idle_thread s \<noteq> NULL" using ok i unfolding sched_defs push_frames_sel(15) by metis
  then have "\<forall>x\<in>set (kframes (push_frames [f] s) (idle_thread s)). idle_frame x"
    using ok unfolding sched_defs inv_idle_def push_frames_sel(4) by blast
  then show False using f i by simp
qed

lemma token_zero:
  assumes ok: "sched_ok (push_frames [f] s)" and f: "tok1 l f = 1"
  shows "val s (Lock_semaphore l) = 0"
proof -
  have "running_thread s \<in> live s" "finite (live s)"
    using replaces_running [OF ok] ok by (simp_all add: live_def sched_defs inv_stack_def)
  then have "1 \<le> pending (push_frames [f] s) l"
    using pending_split [of "push_frames [f] s" "running_thread s" l] f by simp
  moreover have "val s (Lock_semaphore l) + hold s l + pending (push_frames [f] s) l = 1"
    using ok by (simp add: sched_defs inv_lock_def)
  ultimately show ?thesis by linarith
qed

lemma ok_sema_up:
  assumes ok: "sched_ok (push_frames [Call_sema_up a] s)" and up: "sema_up a s = Some s'"
  shows "sched_ok s'"
proof -
  define s1 where "s1 = s\<lparr>eflags := eflags s AND NOT FLAG_IF\<rparr>"
  have z: "a = Lock_semaphore l \<Longrightarrow> sema_value (semas s a) = 0" for l
    using token_zero [OF ok, of l] by (simp add: val_def unat_eq_zero)
  have tk: "val s' (Lock_semaphore l) = val s (Lock_semaphore l) + toks l [Call_sema_up a]"
    if "val s' = (\<lambda>b. if b = a then unat (sema_value (semas s a) + 1) else val s b)" for l
    using that z [of l] by (cases a) (auto simp: val_def)
  show ?thesis
  proof (cases "sema_waiters (semas s a)")
    case Nil
    then obtain old where "intr_set_level (intr_get_level s) (upd_sema a (sema_value_update (\<lambda>v. v + 1)) s1) = Some (old, s')"
      using up by (auto simp: sema_up_def intr_disable_eq s1_def bind_eq_Some_conv split: if_splits)
    then obtain e where s': "s' = (upd_sema a (sema_value_update (\<lambda>v. v + 1)) s1)\<lparr>eflags := e\<rparr>"
      using intr_set_level_some by blast
    have v: "val s' = (\<lambda>b. if b = a then unat (sema_value (semas s a) + 1) else val s b)"
      by (simp add: s' val_upd_value s1_def cong: if_cong)
    have e': "kframes s' = kframes s" "running_thread s' = running_thread s" "idle_thread s' = idle_thread s"
      "initial_thread s' = initial_thread s" "ready_list s' = ready_list s" "st s' = st s"
      "hold s' = hold s" "waiters s' = waiters s"
      by (simp_all add: s' s1_def val_upd_value)
    have "waiters s b \<noteq> [] \<Longrightarrow> val s' b \<le> val s b" for b
      using Nil v by (cases "b = a") (simp_all add: waiters_def)
    then have "replaces [Call_sema_up a] [] s s'"
      unfolding replaces_def e' using tk [OF v] by simp
    then show ?thesis by (rule ok_replaces [OF ok])
  next
    case (Cons t ts)
    then obtain s2 old where s2: "thread_unblock t (upd_sema a (sema_waiters_update (\<lambda>_. ts)) s1) = Some s2"
      and "intr_set_level (intr_get_level s) (upd_sema a (sema_value_update (\<lambda>v. v + 1)) s2) = Some (old, s')"
      using up by (auto simp: sema_up_def intr_disable_eq s1_def bind_eq_Some_conv split: if_splits)
    then obtain e where s': "s' = (upd_sema a (sema_value_update (\<lambda>v. v + 1)) s2)\<lparr>eflags := e\<rparr>"
      using intr_set_level_some by blast
    obtain th e2 where th: "threads s t = Some th"
      and s2e: "s2 = (upd_sema a (sema_waiters_update (\<lambda>_. ts)) s1)\<lparr>ready_list := ready_list s @ [t],
         threads := (threads s)(t \<mapsto> th\<lparr>status := THREAD_READY\<rparr>), eflags := e2\<rparr>"
      using thread_unblock_effect [OF s2] by (auto simp: s1_def)
    have st2: "st s2 = (st s)(t := Some THREAD_READY)" by (auto simp: s2e st_def)
    have eq2: "kframes s2 = kframes s" "running_thread s2 = running_thread s" "idle_thread s2 = idle_thread s"
      "initial_thread s2 = initial_thread s" "ready_list s2 = ready_list s @ [t]" "val s2 = val s"
      "hold s2 = hold s" "waiters s2 = (waiters s)(a := ts)"
      "sema_value (semas s2 a) = sema_value (semas s a)"
      by (simp_all add: s2e s1_def val_def [abs_def] hold_def [abs_def] waiters_def [abs_def] fun_eq_iff)
    have w: "waiters (push_frames [Call_sema_up a] s) a = t # ts" using Cons by (simp add: waiters_def)
    have ok2: "sched_ok (push_frames [Call_sema_up a] s2)" and
      c: "val s a + 1 \<le> card (awake (push_frames [Call_sema_up a] s2) a)"
      using ok_wake [OF ok w, of "push_frames [Call_sema_up a] s2"]
      by (simp_all add: st2 eq2 inv_intr_def)
    have v: "val s' = (\<lambda>b. if b = a then unat (sema_value (semas s a) + 1) else val s b)"
      by (simp add: s' val_upd_value eq2 cong: if_cong)
    have "awake (push_frames [Call_sema_up a] s2) a \<subseteq> awake s' a"
      by (auto simp: awake_def s' split: if_splits)
    moreover have "finite (awake s' a)"
      using ok2 by (auto simp: sched_defs inv_stack_def awake_def live_def s' intro: rev_finite_subset)
    ultimately have "val s' a \<le> card (awake s' a)"
      using c card_mono [of "awake s' a"] unat_Suc_le [of "sema_value (semas s a)"] v
      by (simp add: val_def) (meson le_trans)
    then have "val s' b \<le> val s b \<or> val s' b \<le> card (awake s' b)" for b
      using v by (cases "b = a") simp_all
    moreover have e': "kframes s' = kframes s" "running_thread s' = running_thread s" "idle_thread s' = idle_thread s"
      "initial_thread s' = initial_thread s" "ready_list s' = ready_list s2" "st s' = st s2"
      "hold s' = hold s" "waiters s' = waiters s2"
      by (simp_all add: s' eq2 val_upd_value)
    ultimately have "replaces [Call_sema_up a] [] s2 s'"
      unfolding replaces_def e' eq2 using tk [OF v] by simp
    then show ?thesis by (rule ok_replaces [OF ok2])
  qed
qed

section \<open>Semaphores\<close>

lemma inflight_wf:
  assumes "sched_ok (push_frames [f] s)"
  shows "wf1 (running_thread s) f"
  using assms by (auto simp: sched_defs inv_stack_def dest: spec [of _ "running_thread s"])

lemma ok_sema_down_loop:
  assumes ok: "sched_ok (push_frames [Sema_down_loop a lv k] s)"
    and d: "sema_down_loop a lv k s = Some s'"
  shows "sched_ok s'"
proof -
  let ?f = "Sema_down_loop a lv k"
  have wf: "down_ok (running_thread s) a k" "\<forall>x\<in>set k. wf1 (running_thread s) x"
    using inflight_wf [OF ok] by simp_all
  have ni: "running_thread s \<noteq> idle_thread s" using inflight_not_idle [OF ok] by simp
  show ?thesis
  proof (cases "sema_value (semas s a) = 0")
    case True
    define s1 where "s1 = push_frames [?f] (upd_sema a (sema_waiters_update (\<lambda>w. w @ [running_thread s])) s)"
    from d True obtain th where th: "threads s (running_thread s) = Some th"
      and sc: "schedule (s1\<lparr>threads := (threads s)(running_thread s \<mapsto> th\<lparr>status := THREAD_BLOCKED\<rparr>)\<rparr>) = Some s'"
      by (auto simp: sema_down_loop_def thread_block_def bind_eq_Some_conv set_status_some s1_def Let_def
            dest!: thread_current_some split: if_splits)
    have "deschedules THREAD_BLOCKED [?f] [?f] s
        (s1\<lparr>threads := (threads s)(running_thread s \<mapsto> th\<lparr>status := THREAD_BLOCKED\<rparr>)\<rparr>)"
      unfolding deschedules_def s1_def using True ni wf th
      by (auto simp: st_def val_def waiters_def hold_def fun_eq_iff)
    then show ?thesis by (rule ok_deschedules [OF ok _ sc])
  next
    case False
    then obtain old s2 where l: "intr_set_level lv (upd_sema a (sema_value_update (\<lambda>v. v - 1)) s) = Some (old, s2)"
      and s': "s' = push_frames k s2"
      using d by (auto simp: sema_down_loop_def bind_eq_Some_conv)
    obtain e where s2: "s2 = (upd_sema a (sema_value_update (\<lambda>v. v - 1)) s)\<lparr>eflags := e\<rparr>"
      using intr_set_level_some [OF l] by blast
    have v: "val s' = (\<lambda>b. if b = a then val s a - 1 else val s b)" "0 < val s a"
      using False by (auto simp: s' s2 val_upd_value val_def unat_minus_one fun_eq_iff unat_gt_0)
    have e': "kframes s' = (kframes s)(running_thread s := k @ kframes s (running_thread s))"
      "running_thread s' = running_thread s" "idle_thread s' = idle_thread s"
      "initial_thread s' = initial_thread s" "ready_list s' = ready_list s" "st s' = st s"
      "hold s' = hold s" "waiters s' = waiters s"
      by (simp_all add: s' s2 val_upd_value)
    have t: "toks l k = (if a = Lock_semaphore l then 1 else 0)" "base_last k" "loop_ref k = None"
      "\<forall>x\<in>set (tl k). \<not> is_loop x" "\<forall>x\<in>set k. \<not> idle_only x" for l
      using wf(1) by (auto simp: down_ok_def intro: loop_ref_None dest: list.set_sel(2) [rotated])
        (metis list.set_sel(2) tl_Nil)
    have "replaces [?f] k s s'"
      unfolding replaces_def e' v using t wf(2) ni v(2) by auto
    then show ?thesis by (rule ok_replaces [OF ok])
  qed
qed

lemma ok_sema_down:
  assumes ok: "sched_ok (push_frames [Call_sema_down a k] s)" and d: "sema_down a k s = Some s'"
  shows "sched_ok s'"
proof -
  define s1 where "s1 = s\<lparr>eflags := eflags s AND NOT FLAG_IF\<rparr>"
  have l: "sema_down_loop a (intr_get_level s) k s1 = Some s'"
    using d by (auto simp: sema_down_def intr_disable_eq s1_def split: if_splits)
  have "replaces [Call_sema_down a k] [Sema_down_loop a (intr_get_level s) k] s
      (push_frames [Sema_down_loop a (intr_get_level s) k] s1)"
    unfolding replaces_def using inflight_wf [OF ok] inflight_not_idle [OF ok]
    by (auto simp: s1_def level_off bit_simps flag_bit)
  then have "sched_ok (push_frames [Sema_down_loop a (intr_get_level s) k] s1)"
    by (rule ok_replaces [OF ok])
  then show ?thesis using l by (rule ok_sema_down_loop)
qed

section \<open>Locks\<close>

lemma push_frames_Nil [simp]: "push_frames [] s = s"
  by (simp add: push_frames_def)

text \<open>Frames may be exchanged when they carry the same obligations.\<close>

definition quiet :: "frame list \<Rightarrow> frame list \<Rightarrow> 'a sched_state_scheme \<Rightarrow> bool" where
  "quiet fs k s = ((fs = [] \<longrightarrow> loop_ref (kframes s (running_thread s)) = None) \<and> loop_ref fs = None
    \<and> mentions k = mentions fs \<and> idlers k = idlers fs \<and> (\<forall>l. toks l k = toks l fs)
    \<and> (\<forall>x\<in>set k. wf1 (running_thread s) x \<and> \<not> is_loop x)
    \<and> (running_thread s \<noteq> idle_thread s \<longrightarrow> (\<forall>x\<in>set k. \<not> idle_only x))
    \<and> base_last k \<and> (list_ex is_base k \<longrightarrow> list_ex is_base fs)
    \<and> (running_thread s = idle_thread s \<longrightarrow> (\<forall>x\<in>set k. idle_frame x)))"

text \<open>The parts of the state the invariant reads.\<close>

definition same_core :: "'a sched_state_scheme \<Rightarrow> 'a sched_state_scheme \<Rightarrow> bool" where
  "same_core s s' = (running_thread s' = running_thread s \<and> ready_list s' = ready_list s
    \<and> idle_thread s' = idle_thread s \<and> initial_thread s' = initial_thread s \<and> st s' = st s
    \<and> kframes s' = kframes s \<and> waiters s' = waiters s \<and> val s' = val s \<and> hold s' = hold s)"

lemma no_loops_tl: "(\<forall>x\<in>set k. \<not> is_loop x) \<Longrightarrow> \<forall>x\<in>set (tl k). \<not> is_loop x"
  by (cases k) auto

lemma ok_quiet:
  assumes ok: "sched_ok (push_frames fs s)" and q: "quiet fs k s" and c: "same_core s s1"
  shows "sched_ok (push_frames k s1)"
proof (rule ok_replaces [OF ok])
  have "\<forall>x\<in>set k. \<not> is_loop x" using q by (simp add: quiet_def)
  note n = no_loops_tl [OF this] loop_ref_None [OF this]
  show "replaces fs k s (push_frames k s1)"
    unfolding replaces_def using q c n by (auto simp: quiet_def same_core_def)
qed

lemma ok_lock_acquire:
  assumes ok: "sched_ok (push_frames [Call_lock_acquire l k] s)" and d: "lock_acquire l k s = Some s'"
  shows "sched_ok s'"
proof -
  have sd: "sema_down (Lock_semaphore l) (Set_holder l # k) s = Some s'"
    using d by (auto simp: lock_acquire_def bind_eq_Some_conv split: if_splits)
  have "quiet [Call_lock_acquire l k] [Call_sema_down (Lock_semaphore l) (Set_holder l # k)] s"
    unfolding quiet_def using inflight_wf [OF ok] inflight_not_idle [OF ok]
    by (auto simp: down_ok_def acquire_ok_def)
  then have "sched_ok (push_frames [Call_sema_down (Lock_semaphore l) (Set_holder l # k)] s)"
    by (rule ok_quiet [OF ok]) (simp add: same_core_def)
  then show ?thesis using sd by (rule ok_sema_down)
qed

lemma ok_set_holder:
  assumes ok: "sched_ok (push_frames [Set_holder l] s)" and d: "run_frame (Set_holder l) s = Some s'"
  shows "sched_ok s'"
proof (rule ok_replaces [OF ok])
  have r: "running_thread s \<noteq> NULL"
  proof
    assume "running_thread s = NULL"
    then have "NULL \<in> live s" using replaces_running [OF ok] by (simp add: live_def)
    then show False using ok by (simp add: sched_defs)
  qed
  have "running_thread s \<in> live s" "finite (live s)"
    using replaces_running [OF ok] ok by (simp_all add: live_def sched_defs inv_stack_def)
  then have "1 \<le> pending (push_frames [Set_holder l] s) l"
    using pending_split [of "push_frames [Set_holder l] s" "running_thread s" l] by simp
  moreover have "val s (Lock_semaphore l) + hold s l + pending (push_frames [Set_holder l] s) l = 1"
    using ok by (simp add: sched_defs inv_lock_def)
  ultimately have h: "hold s l = 0" by linarith
  have s': "s' = s\<lparr>holder := (holder s)(l := running_thread s)\<rparr>"
    using d by (auto simp: bind_eq_Some_conv dest: thread_current_some)
  have e: "st s' = st s" "waiters s' = waiters s" "val s' = val s"
    "hold s' = (hold s)(l := 1)"
    using r by (auto simp: s' st_def waiters_def val_def hold_def fun_eq_iff)
  show "replaces [Set_holder l] [] s s'"
    unfolding replaces_def e using h by (auto simp: s')
qed

lemma ok_lock_release:
  assumes ok: "sched_ok (push_frames fs s)" and q: "quiet fs k s" and c: "same_core s s1"
    and d: "lock_release l k s1 = Some s'" and ni: "running_thread s \<noteq> idle_thread s"
  shows "sched_ok s'"
proof (rule ok_replaces [OF ok])
  have cs: "running_thread s1 = running_thread s" "st s1 = st s" "kframes s1 = kframes s"
    "waiters s1 = waiters s" "val s1 = val s" "hold s1 = hold s"
    using c by (simp_all add: same_core_def)
  have s': "s' = push_frames (Call_sema_up (Lock_semaphore l) # k) (s1\<lparr>holder := (holder s1)(l := NULL)\<rparr>)"
    and h: "holder s1 l = running_thread s"
    using d cs by (auto simp: lock_release_def lock_held_by_current_thread_def bind_eq_Some_conv
        dest!: thread_current_some split: if_splits)
  have "running_thread s \<in> live s" using replaces_running [OF ok] by (simp add: live_def)
  then have "running_thread s \<noteq> NULL" using ok unfolding sched_defs push_frames_sel(15) by metis
  then have h1: "hold s l = 1" using h cs(6) by (metis hold_def)
  have e: "st s' = st s" "waiters s' = waiters s" "val s' = val s" "hold s' = (hold s)(l := 0)"
    using cs by (auto simp: s' st_def waiters_def val_def hold_def fun_eq_iff)
  have "\<forall>x\<in>set k. \<not> is_loop x" using q by (simp add: quiet_def)
  note n = no_loops_tl [OF this] loop_ref_None [OF this]
  show "replaces fs (Call_sema_up (Lock_semaphore l) # k) s s'"
    unfolding replaces_def e using q h1 n ni c by (auto simp: s' quiet_def same_core_def)
qed

section \<open>Initialising a semaphore nobody waits on\<close>

lemma waiters_ref:
  assumes ok: "sched_ok s" and w: "t \<in> set (waiters s a)"
  shows "ref_ok t a"
proof -
  have "loop_ref (kframes s t) = Some a" using ok w by (simp add: sched_defs inv_wait_def)
  then obtain lv k r where k: "kframes s t = Sema_down_loop a lv k # r" by (metis loop_ref_Some)
  have "\<forall>x\<in>set (kframes s t). wf1 t x" using ok by (simp add: sched_defs inv_stack_def)
  then have "wf1 t (Sema_down_loop a lv k)" using k by simp
  then show ?thesis by (simp add: down_ok_def)
qed

lemma no_waiters:
  assumes "sched_ok s"
  shows "waiters s (Thread_sema_wait t) = []" "waiters s (Child_sema_wait c) = []"
    "waiters s (Cond_waiter (running_thread s)) = []"
proof -
  show "waiters s (Thread_sema_wait t) = []" "waiters s (Child_sema_wait c) = []"
    using waiters_ref [OF assms, of "hd (waiters s (Thread_sema_wait t))" "Thread_sema_wait t"]
      waiters_ref [OF assms, of "hd (waiters s (Child_sema_wait c))" "Child_sema_wait c"]
    by (auto simp del: ref_ok.simps(3)) (metis hd_in_set ref_ok.simps(4,5))+
  have "p \<notin> set (waiters s (Cond_waiter (running_thread s)))" for p
  proof
    assume p: "p \<in> set (waiters s (Cond_waiter (running_thread s)))"
    have "p = running_thread s" using waiters_ref [OF assms p] by simp
    moreover have "st s p = Some THREAD_BLOCKED"
      using assms p unfolding sched_defs inv_wait_def by blast
    ultimately show False using ok_run [OF assms, of p] by simp
  qed
  then show "waiters s (Cond_waiter (running_thread s)) = []" by (metis hd_in_set)
qed

text \<open>Changing the value of a semaphore that is not a lock's and that nobody waits on.\<close>

lemma ok_reset_sema:
  assumes ok: "sched_ok s" and w: "waiters s a = []" and l: "\<And>l. a \<noteq> Lock_semaphore l"
  shows "sched_ok (upd_sema a (\<lambda>_. \<lparr>sema_value = v, sema_waiters = []\<rparr>) s)" (is "sched_ok ?s")
proof -
  have e: "waiters ?s = waiters s" "hold ?s = hold s" "live ?s = live s" "\<And>b. awake ?s b = awake s b"
    "\<And>b. b \<noteq> a \<Longrightarrow> val ?s b = val s b"
    using w by (auto simp: waiters_def hold_def live_def awake_def val_def fun_eq_iff)
  have "inv_lock ?s"
  proof -
    have "val ?s (Lock_semaphore l') = val s (Lock_semaphore l')" for l' using e(5) l by metis
    then show ?thesis using ok e(2,3) by (simp add: sched_defs inv_lock_def pending_def)
  qed
  moreover have "inv_wake ?s"
    unfolding inv_wake_def e
  proof (intro allI impI)
    fix b assume b: "waiters s b \<noteq> []"
    then have "b \<noteq> a" using w by auto
    then show "val ?s b \<le> card (awake s b)" using ok b e(5) [of b] by (simp add: sched_defs inv_wake_def)
  qed
  moreover have "inv_run ?s = inv_run s" "inv_ready ?s = inv_ready s" "inv_wait ?s = inv_wait s"
    "inv_blocked ?s = inv_blocked s" "inv_stack ?s = inv_stack s" "inv_create ?s = inv_create s"
    "inv_idle ?s = inv_idle s" "inv_intr ?s = inv_intr s"
    unfolding inv_run_def inv_ready_def inv_wait_def inv_blocked_def inv_stack_def
      inv_create_def inv_idle_def inv_intr_def e upd_sema_sel intr_get_level_def by (rule refl)+
  ultimately show ?thesis using ok e(3) by (simp add: sched_defs)
qed

lemma push_upd_sema: "upd_sema a f (push_frames k s) = push_frames k (upd_sema a f s)"
  by (simp add: upd_sema_def push_frames_def)

section \<open>Calls from thread code\<close>

lemma api_facts:
  assumes ok: "sched_ok s" and f: "kframes s (running_thread s) = [Func f]"
  shows "loop_ref (kframes s (running_thread s)) = None" "running_thread s \<noteq> idle_thread s"
proof -
  show "loop_ref (kframes s (running_thread s)) = None" by (simp add: f)
  define s0 where "s0 = s\<lparr>kframes := (kframes s)(running_thread s := [])\<rparr>"
  have s: "s = push_frames [Func f] s0" using f by (simp add: s0_def push_frames_def fun_upd_idem)
  have "running_thread s0 \<noteq> idle_thread s0"
    by (rule inflight_not_idle) (use ok s in auto)
  then show "running_thread s \<noteq> idle_thread s" by (simp add: s0_def)
qed

lemma same_core_refl [simp]: "same_core s s"
  by (simp add: same_core_def)

lemma same_core_eflags [simp]: "same_core s (s\<lparr>eflags := e\<rparr>)"
  by (simp add: same_core_def)

lemma same_core_misc [simp]:
  "same_core s (s\<lparr>cond_waiters := c\<rparr>)" "same_core s (s\<lparr>next_tid := n\<rparr>)" "same_core s (s\<lparr>childs := ch\<rparr>)"
  "same_core s (s\<lparr>file_log := fl\<rparr>)" "same_core s (s\<lparr>all_list := al\<rparr>)" "same_core s (s\<lparr>active_pagedir := pg\<rparr>)"
  by (simp_all add: same_core_def st_def [abs_def] waiters_def [abs_def] val_def [abs_def] hold_def [abs_def])

lemma same_core_trans: "same_core s t \<Longrightarrow> same_core t u \<Longrightarrow> same_core s u"
  by (simp add: same_core_def)

lemma upd_thread_core:
  assumes "upd_thread t g s = Some s'" "\<And>th. status (g th) = status th"
  shows "same_core s s'"
proof -
  obtain th where th: "threads s t = Some th" "s' = s\<lparr>threads := (threads s)(t \<mapsto> g th)\<rparr>"
    using assms(1) by (auto simp: upd_thread_def bind_eq_Some_conv)
  then show ?thesis using assms(2)
    by (auto simp: same_core_def st_def waiters_def val_def hold_def fun_eq_iff)
qed

lemma set_level_core:
  "intr_set_level lv s = Some (old, s') \<Longrightarrow> same_core s s'"
  using intr_set_level_some by fastforce

lemma enable_core: "intr_enable s = Some (old, s') \<Longrightarrow> same_core s s'"
  by (auto simp: intr_enable_def split: if_splits)

lemma ok_api_core:
  assumes "sched_ok s" "kframes s (running_thread s) = [Func f]" "same_core s s'"
  shows "sched_ok s'"
proof -
  have "quiet [] [] s" using api_facts [OF assms(1,2)] by (simp add: quiet_def)
  then show ?thesis using ok_quiet [of "[]" s "[]" s'] assms by simp
qed

lemma quiet_api:
  assumes "sched_ok s" "kframes s (running_thread s) = [Func f]"
    and "mentions k = []" "idlers k = 0" "\<And>l. toks l k = 0"
      "\<forall>x\<in>set k. wf1 (running_thread s) x \<and> \<not> is_loop x \<and> \<not> idle_only x \<and> \<not> is_base x"
      "base_last k"
  shows "quiet [] k s"
  using api_facts [OF assms(1,2)] assms(3-) by (auto simp: quiet_def list_ex_iff)

lemma ok_sema_init_api:
  assumes "sched_ok s" "sema_init (Sema a) v s = Some s'" "sema_waiters (semas s (Sema a)) = []"
  shows "sched_ok s'"
  using assms ok_reset_sema [of s "Sema a" v]
  by (auto simp: sema_init_def waiters_def split: if_splits)

lemma sema_try_down_effect:
  assumes "sema_try_down a s = Some (b, s')"
  shows "\<exists>e. (if b then 0 < val s a \<and> s' = (upd_sema a (sema_value_update (\<lambda>v. v - 1)) s)\<lparr>eflags := e\<rparr>
              else s' = s\<lparr>eflags := e\<rparr>)"
proof -
  define s1 where "s1 = s\<lparr>eflags := eflags s AND NOT FLAG_IF\<rparr>"
  show ?thesis
  proof (cases "sema_value (semas s a) > 0")
    case True
    then obtain old where b: "b" and
      l: "intr_set_level (intr_get_level s) (upd_sema a (sema_value_update (\<lambda>v. v - 1)) s1) = Some (old, s')"
      using assms by (auto simp: sema_try_down_def intr_disable_eq s1_def bind_eq_Some_conv split: if_splits)
    then show ?thesis
      using intr_set_level_some [OF l] True
      by (auto simp: s1_def val_def upd_sema_def word_less_nat_alt)
  next
    case False
    then obtain old where b: "\<not> b" and
      l: "intr_set_level (intr_get_level s) s1 = Some (old, s')"
      using assms by (auto simp: sema_try_down_def intr_disable_eq s1_def bind_eq_Some_conv split: if_splits)
    then show ?thesis using intr_set_level_some [OF l] by (auto simp: s1_def)
  qed
qed

lemma ok_take_unit:
  assumes ok: "sched_ok s" and f: "kframes s (running_thread s) = [Func f]"
    and v: "0 < val s a" and k: "\<And>l. toks l k = (if a = Lock_semaphore l then 1 else 0)"
    and kk: "k = [] \<or> k = [Set_holder l']"
  shows "sched_ok (push_frames k ((upd_sema a (sema_value_update (\<lambda>v. v - 1)) s)\<lparr>eflags := e\<rparr>))"
    (is "sched_ok ?s")
proof -
  have vs: "val ?s = (\<lambda>b. if b = a then val s a - 1 else val s b)"
    using v by (auto simp: val_upd_value val_def unat_minus_one unat_gt_0 fun_eq_iff)
  have "replaces [] k s ?s"
    unfolding replaces_def vs using api_facts [OF ok f] k v kk by (auto simp: val_upd_value f)
  then show ?thesis using ok_replaces [of "[]" s k ?s] ok by simp
qed

lemma ok_sema_try_down_api:
  assumes "sched_ok s" "kframes s (running_thread s) = [Func f]" "sema_try_down (Sema a) s = Some (b, s')"
  shows "sched_ok s'"
  using sema_try_down_effect [OF assms(3)] ok_take_unit [OF assms(1,2), of "Sema a" "[]"]
    ok_api_core [OF assms(1,2)] by (auto split: if_splits)

lemma ok_lock_try_acquire_api:
  assumes "sched_ok s" "kframes s (running_thread s) = [Func f]" "lock_try_acquire l s = Some (b, s')"
  shows "sched_ok s'"
proof -
  obtain s1 where t: "sema_try_down (Lock_semaphore l) s = Some (b, s1)"
    and s': "s' = (if b then push_frames [Set_holder l] s1 else s1)"
    using assms(3) by (auto simp: lock_try_acquire_def bind_eq_Some_conv split: if_splits)
  show ?thesis
    using sema_try_down_effect [OF t] s' ok_take_unit [OF assms(1,2), of "Lock_semaphore l" "[Set_holder l]" l]
      ok_api_core [OF assms(1,2)] by (auto split: if_splits)
qed

lemma ok_sema_down_api:
  assumes "sched_ok s" "kframes s (running_thread s) = [Func f]" "sema_down (Sema a) [] s = Some s'"
  shows "sched_ok s'"
proof -
  have "quiet [] [Call_sema_down (Sema a) []] s"
    by (rule quiet_api [OF assms(1,2)]) (auto simp: down_ok_def)
  then have "sched_ok (push_frames [Call_sema_down (Sema a) []] s)"
    using ok_quiet [of "[]" s _ s] assms(1) by simp
  then show ?thesis using assms(3) by (rule ok_sema_down)
qed

lemma ok_lock_acquire_api:
  assumes "sched_ok s" "kframes s (running_thread s) = [Func f]" "lock_acquire l [] s = Some s'"
  shows "sched_ok s'"
proof -
  have "quiet [] [Call_lock_acquire l []] s"
    by (rule quiet_api [OF assms(1,2)]) (auto simp: acquire_ok_def)
  then have "sched_ok (push_frames [Call_lock_acquire l []] s)"
    using ok_quiet [of "[]" s _ s] assms(1) by simp
  then show ?thesis using assms(3) by (rule ok_lock_acquire)
qed

lemma ok_sema_up_api:
  assumes "sched_ok s" "kframes s (running_thread s) = [Func f]" "sema_up (Sema a) s = Some s'"
  shows "sched_ok s'"
proof -
  have "quiet [] [Call_sema_up (Sema a)] s"
    by (rule quiet_api [OF assms(1,2)]) auto
  then have "sched_ok (push_frames [Call_sema_up (Sema a)] s)"
    using ok_quiet [of "[]" s _ s] assms(1) by simp
  then show ?thesis using assms(3) by (rule ok_sema_up)
qed

lemma ok_lock_release_api:
  assumes "sched_ok s" "kframes s (running_thread s) = [Func f]" "same_core s s1"
    "lock_release l k s1 = Some s'"
    and "mentions k = []" "idlers k = 0" "\<And>l. toks l k = 0"
      "\<forall>x\<in>set k. wf1 (running_thread s) x \<and> \<not> is_loop x \<and> \<not> idle_only x \<and> \<not> is_base x"
      "base_last k"
  shows "sched_ok s'"
proof -
  have "quiet [] k s" by (rule quiet_api [OF assms(1,2)]) (use assms(5-) in auto)
  then show ?thesis using ok_lock_release [of "[]" s k s1 l s'] api_facts [OF assms(1,2)] assms(1,3,4) by simp
qed

lemma ok_cond_wait_api:
  assumes ok: "sched_ok s" "kframes s (running_thread s) = [Func f]" and d: "cond_wait c l [] s = Some s'"
  shows "sched_ok s'"
proof -
  let ?w = "running_thread s"
  define s1 where "s1 = upd_sema (Cond_waiter ?w) (\<lambda>_. \<lparr>sema_value = 0, sema_waiters = []\<rparr>) s"
  have r: "lock_release l [Call_sema_down (Cond_waiter ?w) [Call_lock_acquire l []]]
      (s1\<lparr>cond_waiters := (cond_waiters s1)(c := cond_waiters s1 c @ [?w])\<rparr>) = Some s'"
    using d by (auto simp: cond_wait_def sema_init_def s1_def bind_eq_Some_conv Let_def split: if_splits)
  have ok1: "sched_ok s1" "kframes s1 (running_thread s1) = [Func f]" "running_thread s1 = ?w"
    using ok_reset_sema [OF ok(1) no_waiters(3) [OF ok(1)], of 0] ok(2) by (simp_all add: s1_def)
  show ?thesis
    by (rule ok_lock_release_api [OF ok1(1,2) _ r]) (auto simp: ok1(3) down_ok_def acquire_ok_def)
qed

lemma cond_signal_effect:
  assumes "cond_signal c l k s = Some s'"
  shows "\<exists>w cw. s' = push_frames (case w of None \<Rightarrow> k | Some p \<Rightarrow> Call_sema_up (Cond_waiter p) # k) (s\<lparr>cond_waiters := cw\<rparr>)"
proof (cases "cond_waiters s c")
  case Nil
  then have "s' = push_frames k (s\<lparr>cond_waiters := cond_waiters s\<rparr>)"
    using assms by (auto simp: cond_signal_def bind_eq_Some_conv split: if_splits)
  then show ?thesis by (intro exI [of _ None] exI [of _ "cond_waiters s"]) simp
next
  case (Cons p ws)
  then have "s' = push_frames (Call_sema_up (Cond_waiter p) # k) (s\<lparr>cond_waiters := (cond_waiters s)(c := ws)\<rparr>)"
    using assms by (auto simp: cond_signal_def bind_eq_Some_conv split: if_splits)
  then show ?thesis by (intro exI [of _ "Some p"] exI [of _ "(cond_waiters s)(c := ws)"]) simp
qed

lemma ok_cond_signal:
  assumes ok: "sched_ok (push_frames fs s)" and q: "quiet fs k s" and d: "cond_signal c l k s = Some s'"
    and ni: "running_thread s \<noteq> idle_thread s"
  shows "sched_ok s'"
proof -
  obtain w cw where s': "s' = push_frames (case w of None \<Rightarrow> k | Some p \<Rightarrow> Call_sema_up (Cond_waiter p) # k)
      (s\<lparr>cond_waiters := cw\<rparr>)"
    using cond_signal_effect [OF d] by blast
  have "quiet fs (case w of None \<Rightarrow> k | Some p \<Rightarrow> Call_sema_up (Cond_waiter p) # k) s"
    using q ni by (cases w) (simp_all add: quiet_def)
  then show ?thesis unfolding s' by (rule ok_quiet [OF ok]) simp
qed

lemma ok_cond_broadcast_loop:
  assumes ok: "sched_ok (push_frames fs s)" and fs: "fs = [] \<or> fs = [Broadcast_loop c l]"
    and d: "cond_broadcast_loop c l s = Some s'"
    and ni: "running_thread s \<noteq> idle_thread s" and lr: "loop_ref (kframes s (running_thread s)) = None"
  shows "sched_ok s'"
proof (cases "cond_waiters s c = []")
  case True
  have "quiet fs [] s" using fs lr by (auto simp: quiet_def)
  then show ?thesis using ok_quiet [OF ok, of "[]" s] d True by (simp add: cond_broadcast_loop_def)
next
  case False
  have "quiet fs [Broadcast_loop c l] s" using fs lr ni by (auto simp: quiet_def)
  then show ?thesis
    using ok_cond_signal [OF ok _ _ ni] d False by (simp add: cond_broadcast_loop_def)
qed

section \<open>Yielding and the idle thread\<close>

definition stack_at :: "thread_status option \<Rightarrow> ptr \<Rightarrow> frame list \<Rightarrow> bool" where
  "stack_at x t ks = ((\<forall>f\<in>set ks. wf1 t f) \<and> base_last ks \<and> (\<forall>f\<in>set (tl ks). \<not> is_loop f)
    \<and> (x = None \<or> x = Some THREAD_DYING \<longrightarrow> ks = []))"

lemma inv_stack_iff: "inv_stack s \<longleftrightarrow> finite (live s) \<and> (\<forall>t. stack_at (st s t) t (kframes s t))"
  by (simp add: inv_stack_def stack_at_def)

lemma ok_stack: "sched_ok s \<Longrightarrow> stack_at (st s t) t (kframes s t)" "sched_ok s \<Longrightarrow> finite (live s)"
  by (simp_all add: sched_defs inv_stack_iff)

lemma ok_idle_only: "sched_ok s \<Longrightarrow> x \<in> set (kframes s t) \<Longrightarrow> idle_only x \<Longrightarrow> t = idle_thread s"
  unfolding sched_defs inv_idle_def by blast

lemma ok_mentions: "sched_ok s \<Longrightarrow> length (mentions (kframes s p)) \<le> 1"
  unfolding sched_defs inv_create_def by blast

lemma ok_create:
  assumes "sched_ok s" "t \<in> set (mentions (kframes s p))"
  shows "st s t = Some THREAD_BLOCKED" "kframes s t = []" "t \<noteq> idle_thread s" "t \<noteq> initial_thread s"
    "t \<in> set (mentions (kframes s q)) \<Longrightarrow> q = p" "mentions (kframes s p) = [t]"
proof -
  have c: "length (mentions (kframes s p)) \<le> 1"
    "\<forall>t\<in>set (mentions (kframes s p)). st s t = Some THREAD_BLOCKED \<and> kframes s t = []
         \<and> t \<noteq> idle_thread s \<and> t \<noteq> initial_thread s
         \<and> (\<forall>q. t \<in> set (mentions (kframes s q)) \<longrightarrow> q = p)"
    using assms(1) unfolding sched_defs inv_create_def by blast+
  then show "st s t = Some THREAD_BLOCKED" "kframes s t = []" "t \<noteq> idle_thread s" "t \<noteq> initial_thread s"
    "t \<in> set (mentions (kframes s q)) \<Longrightarrow> q = p"
    using assms(2) by blast+
  show "mentions (kframes s p) = [t]"
    using c(1) assms(2) by (cases "mentions (kframes s p)") auto
qed

lemma ok_core:
  assumes "sched_ok s" "same_core s s'" "loop_ref (kframes s (running_thread s)) = None"
  shows "sched_ok s'"
proof -
  have "quiet [] [] s" using assms(3) by (simp add: quiet_def)
  then show ?thesis using ok_quiet [of "[]" s "[]" s'] assms(1,2) by simp
qed

lemma same_core_push: "same_core s s' \<Longrightarrow> same_core (push_frames k s) (push_frames k s')"
  by (simp add: same_core_def)

lemma ok_core_inflight:
  assumes "sched_ok (push_frames [f] s)" "same_core s s'" "\<not> is_loop f"
  shows "sched_ok (push_frames [f] s')"
proof (rule ok_core [OF assms(1) same_core_push [OF assms(2)]])
  show "loop_ref (kframes (push_frames [f] s) (running_thread (push_frames [f] s))) = None"
    using assms(3) by (cases f) auto
qed

lemma ok_quiet_core:
  assumes "sched_ok (push_frames [f] s)" "quiet [f] k s" "same_core s s1" "s' = push_frames k s1"
  shows "sched_ok s'"
  using assms ok_quiet by blast

lemma ok_thread_yield:
  assumes ok: "sched_ok s" and lr: "loop_ref (kframes s (running_thread s)) = None"
    and d: "thread_yield [] s = Some s'"
  shows "sched_ok s'"
proof -
  let ?r = "running_thread s"
  define s1 where "s1 = s\<lparr>eflags := eflags s AND NOT FLAG_IF, ready_list := ready_list s @
      (if ?r \<noteq> idle_thread s then [?r] else [])\<rparr>"
  obtain th where th: "threads s ?r = Some th"
    and sc: "schedule (push_frames [Yield_return (intr_get_level s)]
        (s1\<lparr>threads := (threads s)(?r \<mapsto> th\<lparr>status := THREAD_READY\<rparr>)\<rparr>)) = Some s'"
    using d by (auto simp: thread_yield_def intr_disable_eq bind_eq_Some_conv set_status_some s1_def Let_def
        dest!: thread_current_some split: if_splits)
  have "deschedules THREAD_READY [] [Yield_return (intr_get_level s)] s (push_frames [Yield_return (intr_get_level s)]
        (s1\<lparr>threads := (threads s)(?r \<mapsto> th\<lparr>status := THREAD_READY\<rparr>)\<rparr>))"
    unfolding deschedules_def s1_def using lr
    by (auto simp: st_def val_def waiters_def hold_def fun_eq_iff)
  then show ?thesis using ok_deschedules [of "[]" s] ok sc by simp
qed

lemma ok_idle_loop:
  assumes ok: "sched_ok (push_frames [Idle_loop] s)" and d: "idle_loop s = Some s'"
  shows "sched_ok s'"
proof -
  let ?r = "running_thread s"
  have i: "?r = idle_thread s"
    using ok_idle_only [OF ok, of Idle_loop ?r] by simp
  define s1 where "s1 = push_frames [Idle_wake] (s\<lparr>eflags := eflags s AND NOT FLAG_IF\<rparr>)"
  obtain th where th: "threads s ?r = Some th"
    and sc: "schedule (s1\<lparr>threads := (threads s)(?r \<mapsto> th\<lparr>status := THREAD_BLOCKED\<rparr>)\<rparr>) = Some s'"
    using d by (auto simp: idle_loop_def thread_block_def intr_disable_eq bind_eq_Some_conv set_status_some
        s1_def Let_def dest!: thread_current_some split: if_splits)
  have "deschedules THREAD_BLOCKED [Idle_loop] [Idle_wake] s
      (s1\<lparr>threads := (threads s)(?r \<mapsto> th\<lparr>status := THREAD_BLOCKED\<rparr>)\<rparr>)"
    unfolding deschedules_def s1_def using i
    by (auto simp: st_def val_def waiters_def hold_def fun_eq_iff)
  then show ?thesis using ok_deschedules [OF ok _ sc] by blast
qed

lemma ok_idle_wake:
  assumes ok: "sched_ok (push_frames [Idle_wake] s)" and d: "idle_wake s = Some s'"
  shows "sched_ok s'"
proof (rule ok_quiet_core [OF ok])
  have "running_thread s = idle_thread s"
    using ok_idle_only [OF ok, of Idle_wake "running_thread s"] by simp
  then show "quiet [Idle_wake] [Idle_loop] s" by (simp add: quiet_def)
  show "s' = push_frames [Idle_loop] (s\<lparr>eflags := eflags s OR FLAG_IF\<rparr>)"
    using d by (simp add: idle_wake_def)
qed simp

lemma live_no_frames:
  assumes "sched_ok s"
  shows "kframes s NULL = []" "t \<notin> live s \<Longrightarrow> kframes s t = []"
proof -
  show "t \<notin> live s \<Longrightarrow> kframes s t = []" for t
    using assms by (simp add: sched_defs inv_stack_def live_def)
  then show "kframes s NULL = []" using assms by (simp add: sched_defs)
qed

lemma inflight_base:
  assumes "sched_ok (push_frames [f] s)" "is_base f"
  shows "kframes s (running_thread s) = []"
  using assms by (auto simp: sched_defs inv_stack_def dest!: spec [of _ "running_thread s"])

lemma ok_idle_start:
  assumes ok: "sched_ok (push_frames [Idle_start a] s)" and d: "idle_start a s = Some s'"
  shows "sched_ok s'"
proof -
  let ?r = "running_thread s" and ?o = "push_frames [Idle_start a] s"
  have s': "s' = push_frames [Call_sema_up (Sema a), Idle_loop] (s\<lparr>idle_thread := ?r\<rparr>)"
    using d by (auto simp: idle_start_def bind_eq_Some_conv dest: thread_current_some)
  have b: "kframes s ?r = []" by (rule inflight_base [OF ok]) simp
  have r: "st s ?r = Some THREAD_RUNNING" by (rule replaces_running [OF ok])
  have idl: "inv_idle ?o" using ok by (simp add: sched_defs)
  have i0: "idle_thread s = NULL"
  proof (rule ccontr)
    assume "idle_thread s \<noteq> NULL"
    then have "\<forall>p. idlers (kframes ?o p) = 0" using idl unfolding inv_idle_def push_frames_sel(4) by blast
    then show False by (auto dest: spec [of _ ?r])
  qed
  have l0: "NULL \<notin> live s" using ok by (simp add: sched_defs)
  then have r0: "?r \<noteq> NULL" using r by (metis live_def mem_Collect_eq option.discI)
  have kf: "kframes s' = (kframes s)(?r := [Call_sema_up (Sema a), Idle_loop])"
    and sel: "idle_thread s' = ?r" "st s' = st s" "live s' = live s" "running_thread s' = ?r" "ready_list s' = ready_list s"
      "initial_thread s' = initial_thread s" "waiters s' = waiters s" "val s' = val s" "hold s' = hold s"
    using b by (simp_all add: s' st_def [abs_def] live_def waiters_def [abs_def] val_def [abs_def] hold_def [abs_def])
  have kfo: "kframes ?o = (kframes s)(?r := [Idle_start a])" using b by simp
  have men: "mentions (kframes s' p) = mentions (kframes ?o p)" "toks l (kframes s' p) = toks l (kframes ?o p)"
    "loop_ref (kframes s' p) = loop_ref (kframes ?o p)" for p l
    unfolding kf kfo by simp_all
  have "inv_ready s'"
    using ok l0 r i0 unfolding sched_defs inv_ready_def sel push_frames_sel
    by (metis live_def mem_Collect_eq option.discI option.inject thread_status.distinct(1))
  moreover have "inv_wait s'"
    using ok unfolding sched_defs inv_wait_def sel men push_frames_sel(11,12) by blast
  moreover have "inv_blocked s'"
    unfolding inv_blocked_def sel men
  proof (intro allI impI)
    fix t assume t: "st s t = Some THREAD_BLOCKED"
    then have "t \<noteq> NULL" using l0 by (metis live_def mem_Collect_eq option.discI)
    then show "loop_ref (kframes ?o t) \<noteq> None \<or> t = ?r \<or> (\<exists>p. t \<in> set (mentions (kframes ?o p)))"
      using ok t i0 unfolding sched_defs inv_blocked_def push_frames_sel(4,11) by metis
  qed
  moreover have "inv_stack s'"
  proof -
    have "stack_at (st s t) t (kframes s' t)" for t
      using ok_stack(1) [OF ok, of t] r by (cases "t = ?r") (simp_all add: kf kfo stack_at_def)
    then show ?thesis using ok_stack(2) [OF ok] by (simp add: inv_stack_iff sel)
  qed
  moreover have "inv_create s'"
  proof -
    have c: "inv_create ?o" using ok by (simp add: sched_defs)
    have "kframes s' t = []" "t \<noteq> ?r" if "t \<in> set (mentions (kframes ?o p))" for t p
      using ok_create(1,2) [OF ok that] r by (auto simp: kf kfo)
    then show ?thesis
      using c unfolding inv_create_def sel men push_frames_sel(4,5,11) by blast
  qed
  moreover have "inv_idle s'"
  proof -
    obtain p where p: "\<forall>q. q \<noteq> p \<longrightarrow> idlers (kframes ?o q) = 0" using idl unfolding inv_idle_def by blast
    have "p = ?r" using p by (metis kfo fun_upd_same idlers1.simps(7) list.simps(8,9) sum_list_simps zero_neq_one add_0_right)
    then have z: "idlers (kframes s' q) = 0" for q using p unfolding kf kfo by auto
    have io: "idle_only x \<Longrightarrow> x \<in> set (kframes s t) \<Longrightarrow> t \<noteq> ?r \<Longrightarrow> False" for x t
    proof -
      assume x: "idle_only x" "x \<in> set (kframes s t)" "t \<noteq> ?r"
      then have "t = NULL" using ok_idle_only [OF ok, of x t] i0 by (simp add: kfo)
      then show False using live_no_frames(1) [OF ok] x kfo by auto
    qed
    show ?thesis
      unfolding inv_idle_def sel
      using z io r r0 by (auto simp: kf live_def)
  qed
  moreover have "inv_lock s'"
    using ok unfolding sched_defs inv_lock_def pending_def sel men push_frames_sel(13,14,15) by blast
  moreover have "inv_wake s'"
    using ok unfolding sched_defs inv_wake_def awake_def sel men push_frames_sel(11,12,13) by blast
  moreover have "inv_run s'" using ok unfolding sched_defs inv_run_def sel push_frames_sel(2,11) by blast
  moreover have "inv_intr s'" by (simp add: inv_intr_def sel kf)
  ultimately show ?thesis using l0 sel by (simp add: sched_defs)
qed

lemma ok_kernel_thread:
  assumes ok: "sched_ok (push_frames [Kernel_thread f aux] s)" and d: "kernel_thread f s = Some s'"
  shows "sched_ok s'"
proof -
  obtain old s1 where e: "intr_enable s = Some (old, s1)" and fn: "f \<noteq> Fn_null"
    and s': "s' = push_frames (case f of Fn n \<Rightarrow> [Func n] | Fn_idle a \<Rightarrow> [Idle_start a] | Fn_null \<Rightarrow> []) s1"
    using d by (auto simp: kernel_thread_def bind_eq_Some_conv split: if_splits)
  have ni: "running_thread s \<noteq> idle_thread s" using inflight_not_idle [OF ok] by simp
  have "quiet [Kernel_thread f aux] (case f of Fn n \<Rightarrow> [Func n] | Fn_idle a \<Rightarrow> [Idle_start a] | Fn_null \<Rightarrow> []) s"
    using fn ni by (cases f) (simp_all add: quiet_def)
  then show ?thesis using ok_quiet_core [OF ok _ enable_core [OF e] s'] by blast
qed

end
