(* ===== verification/Sched_Correct.thy ===== *)
theory Sched_Correct
  imports Sched_Steps
begin

text \<open>
  Creation and end of threads, the boot sequence, and the properties of the thread system: the
  invariant of theory \<open>Sched_Inv\<close> holds in every state that the machine reaches.
\<close>

section \<open>Creating a thread\<close>

lemma ok_new_thread:
  assumes ok: "sched_ok s" and lr: "loop_ref (kframes s (running_thread s)) = None"
    and ni: "running_thread s \<noteq> idle_thread s" and m0: "mentions (kframes s (running_thread s)) = []"
    and t: "st s t = None" "t \<noteq> NULL" "t \<noteq> initial_thread s"
    and i: "idle_fn fn = 0 \<or> idle_thread s = NULL \<and> (\<forall>p. idlers (kframes s p) = 0)"
    and nb: "\<not> list_ex is_base [Call_lock_acquire tid_lock [Tid_fetch t fn aux c]]"
    and u: "st u = (st s)(t := Some THREAD_BLOCKED)" "ready_list u = ready_list s" "kframes u = kframes s"
      "running_thread u = running_thread s" "idle_thread u = idle_thread s"
      "initial_thread u = initial_thread s" "waiters u = waiters s" "hold u = hold s"
      "\<And>a. a = Thread_sema_wait t \<or> val u a = val s a"
  shows "sched_ok (push_frames [Call_lock_acquire tid_lock [Tid_fetch t fn aux c]] u)" (is "sched_ok ?u")
proof -
  let ?r = "running_thread s" and ?f = "Call_lock_acquire tid_lock [Tid_fetch t fn aux c]"
  have r: "st s ?r = Some THREAD_RUNNING" using ok_run [OF ok] by simp
  have tr: "t \<noteq> ?r" using t r by auto
  have kt: "kframes s t = []" by (rule live_no_frames(2) [OF ok]) (simp add: live_def t)
  have lv: "live ?u = insert t (live s)" by (auto simp: live_def u)
  have kf: "kframes ?u = (kframes s)(?r := ?f # kframes s ?r)" using u by simp
  have ti: "t \<noteq> idle_thread s"
  proof
    assume ti: "t = idle_thread s"
    then have "idle_thread s \<in> live s" using ok t unfolding sched_defs inv_idle_def by blast
    then show False using t ti by (simp add: live_def)
  qed
  have lk: "loop_ref (kframes ?u p) = loop_ref (kframes s p)" for p unfolding kf using lr by simp
  have tk: "toks l (kframes ?u p) = toks l (kframes s p)" for l p unfolding kf by simp
  have mk: "mentions (kframes ?u p) = (if p = ?r then [t] else mentions (kframes s p))" for p
    unfolding kf using m0 by simp
  have ik: "idlers (kframes ?u p) = (if p = ?r then idle_fn fn else 0) + idlers (kframes s p)" for p
    unfolding kf by simp
  have tm: "t \<notin> set (mentions (kframes s p))" for p
    using ok_create(1) [OF ok, of t p] t by auto
  have wt: "t \<notin> set (waiters s a)" for a
    using ok t unfolding sched_defs inv_wait_def by auto
  have "inv_ready ?u" using ok t by (auto simp: sched_defs inv_ready_def u)
  moreover have "inv_wait ?u"
  proof -
    have old: "distinct (waiters s a)" "p \<in> set (waiters s a) \<longleftrightarrow>
        st s p = Some THREAD_BLOCKED \<and> loop_ref (kframes s p) = Some a" for a p
      using ok by (simp_all add: sched_defs inv_wait_def)
    have "p \<in> set (waiters s a) \<longleftrightarrow> st ?u p = Some THREAD_BLOCKED \<and> loop_ref (kframes s p) = Some a" for a p
      using old(2) [of p a] kt wt [of a] by (cases "p = t") (auto simp: u)
    then show ?thesis using old(1) lk u by (simp add: inv_wait_def del: push_frames_sel(1))
  qed
  moreover have "inv_blocked ?u"
    unfolding inv_blocked_def lk push_frames_sel(4,11) u(1,5)
  proof (intro allI impI)
    fix p assume p: "((st s)(t := Some THREAD_BLOCKED)) p = Some THREAD_BLOCKED"
    show "loop_ref (kframes s p) \<noteq> None \<or> p = idle_thread s \<or> (\<exists>q. p \<in> set (mentions (kframes ?u q)))"
    proof (cases "p = t")
      case True
      then show ?thesis using mk [of ?r] by auto
    next
      case False
      then have "st s p = Some THREAD_BLOCKED" using p by simp
      then have "loop_ref (kframes s p) \<noteq> None \<or> p = idle_thread s \<or> (\<exists>q. p \<in> set (mentions (kframes s q)))"
        using ok unfolding sched_defs inv_blocked_def by blast
      moreover have "p \<in> set (mentions (kframes s q)) \<Longrightarrow> p \<in> set (mentions (kframes ?u q))" for q
        using mk [of q] m0 by (cases "q = ?r") auto
      ultimately show ?thesis by blast
    qed
  qed
  moreover have "inv_stack ?u"
  proof -
    have "base_last (?f # kframes s ?r)" using ok_stack(1) [OF ok, of ?r] nb by (simp add: stack_at_def)
    moreover have "\<forall>x\<in>set (kframes s ?r). \<not> is_loop x"
      using ok_stack(1) [OF ok, of ?r] lr
      by (cases "kframes s ?r" rule: loop_ref.cases) (auto simp: stack_at_def)
    ultimately have "stack_at (st ?u p) p (kframes ?u p)" for p
      using ok_stack(1) [OF ok, of p] kt tr r
      by (cases "p = ?r") (auto simp: kf u stack_at_def acquire_ok_def)
    then show ?thesis using ok_stack(2) [OF ok] lv by (simp add: inv_stack_iff)
  qed
  moreover have "inv_create ?u"
    unfolding inv_create_def
  proof (intro allI conjI ballI)
    show "length (mentions (kframes ?u p)) \<le> 1" for p
      using mk [of p] ok_mentions [OF ok, of p] by (simp del: push_frames_sel(1) split: if_splits)
    fix p x assume x: "x \<in> set (mentions (kframes ?u p))"
    have cs: "p = ?r \<and> x = t \<or> p \<noteq> ?r \<and> x \<in> set (mentions (kframes s p))"
      using x unfolding mk by (cases "p = ?r") auto
    have f: "(st s x = Some THREAD_BLOCKED \<or> x = t) \<and> kframes s x = [] \<and> x \<noteq> ?r \<and> x \<noteq> idle_thread s
        \<and> x \<noteq> initial_thread s"
    proof (cases "p = ?r")
      case True
      then show ?thesis using cs kt tr ti t by simp
    next
      case False
      then have mem: "x \<in> set (mentions (kframes s p))" using cs by simp
      then show ?thesis using ok_create(1-4) [OF ok mem] r by auto
    qed
    then show "st ?u x = Some THREAD_BLOCKED" "kframes ?u x = []" "x \<noteq> idle_thread ?u" "x \<noteq> initial_thread ?u"
      using kf u by auto
    show "x \<in> set (mentions (kframes ?u q)) \<longrightarrow> q = p" for q
    proof
      assume "x \<in> set (mentions (kframes ?u q))"
      then have cq: "q = ?r \<and> x = t \<or> q \<noteq> ?r \<and> x \<in> set (mentions (kframes s q))"
        unfolding mk by (cases "q = ?r") auto
      show "q = p"
        using cs cq ok_create(5) [OF ok, of x p q] tm [of q] tm [of p] by fast
    qed
  qed
  moreover have "inv_idle ?u"
  proof -
    have old: "inv_idle s" using ok by (simp add: sched_defs)
    have io: "x \<in> set (kframes ?u p) \<Longrightarrow> idle_only x \<Longrightarrow> p = idle_thread s" for x p
      using ok_idle_only [OF ok, of x p] unfolding kf by (auto split: if_splits)
    have "\<exists>p. idlers (kframes ?u p) \<le> 1 \<and> (\<forall>q. q \<noteq> p \<longrightarrow> idlers (kframes ?u q) = 0)"
    proof (cases "idle_fn fn = 0")
      case True
      then have "idlers (kframes ?u q) = idlers (kframes s q)" for q unfolding ik by simp
      then show ?thesis using old unfolding inv_idle_def by (simp only:)
    next
      case False
      then have z: "idlers (kframes s p) = 0" for p using i by simp
      have "idle_fn fn \<le> 1" by (cases fn) simp_all
      then show ?thesis unfolding ik z by (intro exI [of _ ?r]) simp
    qed
    moreover have "idle_thread s \<noteq> NULL \<Longrightarrow> (\<forall>p. idlers (kframes ?u p) = 0)
      \<and> idle_thread s \<in> live ?u \<and> st ?u (idle_thread s) \<noteq> Some THREAD_DYING
      \<and> (\<forall>x\<in>set (kframes ?u (idle_thread s)). idle_frame x)"
    proof -
      assume n: "idle_thread s \<noteq> NULL"
      have a: "\<forall>p. idlers (kframes s p) = 0" "idle_thread s \<in> live s"
        "st s (idle_thread s) \<noteq> Some THREAD_DYING" "\<forall>x\<in>set (kframes s (idle_thread s)). idle_frame x"
        using old n unfolding inv_idle_def by blast+
      have "idle_fn fn = 0" using i n by simp
      then have "\<forall>p. idlers (kframes ?u p) = 0" unfolding ik using a(1) by (simp only: if_cancel add_0 simp_thms)
      moreover have "kframes ?u (idle_thread s) = kframes s (idle_thread s)" using kf ni by simp
      ultimately show ?thesis using a(2-4) ti lv by (simp add: u)
    qed
    ultimately show ?thesis
      using io lv unfolding inv_idle_def push_frames_sel(4) u(5) by blast
  qed
  moreover have "inv_lock ?u"
  proof -
    have "pending ?u l = pending s l" for l
      unfolding pending_def lv tk using ok_stack(2) [OF ok] t kt by (simp add: live_def)
    moreover have "val ?u (Lock_semaphore l) = val s (Lock_semaphore l)" for l
      using u(9) [of "Lock_semaphore l"] by simp
    ultimately show ?thesis using ok u by (simp add: sched_defs inv_lock_def)
  qed
  moreover have "inv_wake ?u"
    unfolding inv_wake_def
  proof (intro allI impI)
    fix a assume a: "waiters ?u a \<noteq> []"
    have "a \<noteq> Thread_sema_wait t" using a no_waiters(1) [OF ok, of t] u by auto
    then have v: "val ?u a = val s a" using u(9) [of a] by simp
    have "awake ?u a = awake s a"
      unfolding awake_def lk using t kt by (auto simp: u)
    then show "val ?u a \<le> card (awake ?u a)" using a v ok u by (simp add: sched_defs inv_wake_def)
  qed
  moreover have "NULL \<notin> live ?u" using ok lv t by (simp add: sched_defs)
  moreover have "inv_run ?u" using ok_run [OF ok] tr by (auto simp: inv_run_def u)
  moreover have "inv_intr ?u" by (simp add: inv_intr_def u)
  ultimately show ?thesis by (simp add: sched_defs)
qed

lemma init_thread_effect:
  assumes "init_thread t nm pr s = Some u"
  shows "\<exists>th e. status th = THREAD_BLOCKED
    \<and> u = (upd_sema (Thread_sema_wait t) (\<lambda>_. \<lparr>sema_value = 0, sema_waiters = []\<rparr>)
        (s\<lparr>threads := (threads s)(t \<mapsto> th)\<rparr>))\<lparr>all_list := all_list s @ [t], eflags := e\<rparr>"
proof -
  obtain par where "(if t = initial_thread s then Some NULL else thread_current s) = Some par"
    using assms by (auto simp: init_thread_def bind_eq_Some_conv split: if_splits)
  define th where "th = \<lparr>tid = 0, status = THREAD_BLOCKED, thr_name = strlcpy_name nm, stack = t + PGSIZE,
         priority = pr, pagedir = 0, parent = par, children = [], child_info = NULL,
         st_exit = UINT32_MAX, child_loaded = True, files = [], exec_file = NULL, file_fd = 2,
         magic = THREAD_MAGIC\<rparr>"
  define s1 where "s1 = upd_sema (Thread_sema_wait t) (\<lambda>_. \<lparr>sema_value = 0, sema_waiters = []\<rparr>)
        (s\<lparr>threads := (threads s)(t \<mapsto> th)\<rparr>)"
  have a1: "all_list s1 = all_list s" by (simp add: s1_def upd_sema_def)
  have "(if t = initial_thread s then Some NULL else thread_current s) = Some par" by fact
  then obtain old where l: "intr_set_level (intr_get_level s1)
      (s1\<lparr>eflags := eflags s AND NOT FLAG_IF, all_list := all_list s @ [t]\<rparr>) = Some (old, u)"
    using assms by (auto simp: init_thread_def sema_init_def bind_eq_Some_conv Let_def intr_disable_eq
        s1_def [symmetric] th_def [symmetric] a1 split: if_splits)
  obtain e where "u = s1\<lparr>eflags := eflags s AND NOT FLAG_IF, all_list := all_list s @ [t]\<rparr>\<lparr>eflags := e\<rparr>"
    using intr_set_level_some [OF l] by blast
  then show ?thesis
    by (intro exI [of _ th] exI [of _ e]) (simp add: th_def s1_def)
qed

lemma ok_thread_create:
  assumes ok: "sched_ok s" and lr: "loop_ref (kframes s (running_thread s)) = None"
    and ni: "running_thread s \<noteq> idle_thread s" and m0: "mentions (kframes s (running_thread s)) = []"
    and t: "threads s t = None" "t \<noteq> initial_thread s"
    and i: "idle_fn fn = 0 \<or> idle_thread s = NULL \<and> (\<forall>p. idlers (kframes s p) = 0)"
    and d: "thread_create nm pr fn aux t c s = Some s'"
  shows "sched_ok s'"
proof (cases "t = NULL")
  case True
  then show ?thesis using d ok by (auto simp: thread_create_def split: if_splits)
next
  case False
  then obtain u where u: "init_thread t nm pr s = Some u"
    and la: "lock_acquire tid_lock [Tid_fetch t fn aux c] u = Some s'"
    using d by (auto simp: thread_create_def bind_eq_Some_conv split: if_splits)
  obtain th e where th: "status th = THREAD_BLOCKED"
    and ue: "u = (upd_sema (Thread_sema_wait t) (\<lambda>_. \<lparr>sema_value = 0, sema_waiters = []\<rparr>)
        (s\<lparr>threads := (threads s)(t \<mapsto> th)\<rparr>))\<lparr>all_list := all_list s @ [t], eflags := e\<rparr>"
    using init_thread_effect [OF u] by blast
  have w: "waiters s (Thread_sema_wait t) = []" by (rule no_waiters(1) [OF ok])
  have "sched_ok (push_frames [Call_lock_acquire tid_lock [Tid_fetch t fn aux c]] u)"
  proof (rule ok_new_thread [OF ok lr ni m0 _ False t(2) i])
    show "st s t = None" using t by (simp add: st_def)
    show "waiters u = waiters s" using w by (auto simp: ue waiters_def)
    show "\<And>a. a = Thread_sema_wait t \<or> val u a = val s a" by (simp add: ue val_def)
  qed (auto simp: ue st_def th hold_def fun_eq_iff)
  then show ?thesis using la by (rule ok_lock_acquire)
qed

lemma ok_start_new:
  assumes ok: "sched_ok (push_frames [Create_finish t i fn aux c] s)"
    and u: "st u = (st s)(t := Some THREAD_READY)" "ready_list u = ready_list s @ [t]"
      "kframes u = (kframes s)(t := [Kernel_thread fn aux])" "running_thread u = running_thread s"
      "idle_thread u = idle_thread s" "initial_thread u = initial_thread s" "waiters u = waiters s"
      "hold u = hold s" "val u = val s"
  shows "sched_ok u"
proof -
  let ?r = "running_thread s" and ?o = "push_frames [Create_finish t i fn aux c] s"
  have r: "st s ?r = Some THREAD_RUNNING" by (rule replaces_running [OF ok])
  have tm: "t \<in> set (mentions (kframes ?o ?r))" by simp
  note c = ok_create [OF ok tm]
  have tb: "st s t = Some THREAD_BLOCKED" using c(1) by simp
  then have tr: "t \<noteq> ?r" using r by auto
  have kt: "kframes s t = []" using c(2) tr by simp
  have ti: "t \<noteq> idle_thread s" "t \<noteq> initial_thread s" using c(3,4) by simp_all
  have mr: "mentions (kframes s ?r) = []" using c(6) by simp
  have lv: "live u = live s" using tb by (auto simp: live_def u)
  have lr: "loop_ref (kframes s ?r) = None" by (rule inflight_loop_free [OF ok])
  have ni: "?r \<noteq> idle_thread s" using inflight_not_idle [OF ok] by simp
  have ko: "kframes ?o = (kframes s)(?r := Create_finish t i fn aux c # kframes s ?r)" by simp
  have lk: "loop_ref (kframes u p) = loop_ref (kframes ?o p)" for p
    unfolding u ko using kt lr tr by auto
  have tk: "toks l (kframes u p) = toks l (kframes ?o p)" for l p
    unfolding u ko using kt tr by auto
  have mk: "mentions (kframes u p) = (if p = ?r then [] else mentions (kframes ?o p))" for p
    unfolding u ko using kt tr mr by auto
  have ik: "idlers (kframes u p) = (if p = t then idle_fn fn
      else if p = ?r then idlers (kframes ?o p) - idle_fn fn else idlers (kframes ?o p))" for p
    unfolding u ko using tr by auto
  have io: "idle_fn fn \<le> idlers (kframes ?o ?r)" "idlers (kframes ?o t) = 0" unfolding ko using tr kt by auto
  have "inv_ready u" using ok tb ti by (auto simp: sched_defs inv_ready_def u)
  moreover have "inv_wait u"
  proof -
    have old: "distinct (waiters s a)" "p \<in> set (waiters s a) \<longleftrightarrow>
        st s p = Some THREAD_BLOCKED \<and> loop_ref (kframes ?o p) = Some a" for a p
      using ok unfolding sched_defs inv_wait_def push_frames_sel(11,12) by blast+
    have "loop_ref (kframes ?o t) = None" unfolding ko using kt tr by simp
    then have "p \<in> set (waiters s a) \<longleftrightarrow> st u p = Some THREAD_BLOCKED \<and> loop_ref (kframes ?o p) = Some a" for a p
      using old(2) [of p a] by (cases "p = t") (auto simp: u(1) simp del: push_frames_sel(1))
    then show ?thesis using old(1) unfolding inv_wait_def lk u(7) by blast
  qed
  moreover have "inv_blocked u"
    unfolding inv_blocked_def lk u(5)
  proof (intro allI impI)
    fix p assume "st u p = Some THREAD_BLOCKED"
    then have p: "p \<noteq> t" "st s p = Some THREAD_BLOCKED" by (auto simp: u(1) split: if_splits)
    then have "loop_ref (kframes ?o p) \<noteq> None \<or> p = idle_thread s \<or> (\<exists>q. p \<in> set (mentions (kframes ?o q)))"
      using ok unfolding sched_defs inv_blocked_def push_frames_sel(4,11) by blast
    moreover have "p \<in> set (mentions (kframes ?o q)) \<Longrightarrow> p \<in> set (mentions (kframes u q))" for q
      unfolding mk using c(6) p(1) by (cases "q = ?r") simp_all
    ultimately show "loop_ref (kframes ?o p) \<noteq> None \<or> p = idle_thread s \<or> (\<exists>q. p \<in> set (mentions (kframes u q)))"
      by blast
  qed
  moreover have "inv_stack u"
  proof -
    have "stack_at (st u p) p (kframes u p)" for p
    proof (cases "p = t")
      case True
      then show ?thesis by (simp add: u stack_at_def)
    next
      case False
      then show ?thesis using ok_stack(1) [OF ok, of p] r
        by (cases "p = ?r") (auto simp: u stack_at_def dest: list.set_sel(2) [rotated] split: list.splits,
            metis list.set_sel(2) tl_Nil)
    qed
    then show ?thesis using ok_stack(2) [OF ok] lv by (simp add: inv_stack_iff)
  qed
  moreover have "inv_create u"
    unfolding inv_create_def
  proof (intro allI conjI ballI)
    show "length (mentions (kframes u p)) \<le> 1" for p
      using ok_mentions [OF ok, of p] unfolding mk by (simp del: push_frames_sel(1))
    fix p x assume x: "x \<in> set (mentions (kframes u p))"
    then have pr: "p \<noteq> ?r" and xo: "x \<in> set (mentions (kframes ?o p))"
      unfolding mk by (auto split: if_splits simp del: push_frames_sel(1))
    have xt: "x \<noteq> t" using ok_create(5) [OF ok xo, of ?r] tm pr by auto
    note cx = ok_create [OF ok xo]
    show "st u x = Some THREAD_BLOCKED" using cx(1) xt by (simp add: u)
    show "kframes u x = []" using cx(1,2) xt r by (auto simp: u ko split: if_splits)
    show "x \<noteq> idle_thread u" "x \<noteq> initial_thread u" using cx(3,4) by (simp_all add: u)
    show "x \<in> set (mentions (kframes u q)) \<longrightarrow> q = p" for q
      using cx(5) [of q] unfolding mk by (auto split: if_splits simp del: push_frames_sel(1))
  qed
  moreover have "inv_idle u"
  proof -
    have idl: "inv_idle ?o" using ok by (simp add: sched_defs)
    obtain p where p: "idlers (kframes ?o p) \<le> 1" "\<forall>q. q \<noteq> p \<longrightarrow> idlers (kframes ?o q) = 0"
      using idl unfolding inv_idle_def by blast
    have fr: "x \<in> set (kframes u q) \<Longrightarrow> idle_only x \<Longrightarrow> q = idle_thread s" for x q
      using ok_idle_only [OF ok, of x q] unfolding u ko by (cases "q = ?r"; cases "q = t") auto
    have ex: "\<exists>p. idlers (kframes u p) \<le> 1 \<and> (\<forall>q. q \<noteq> p \<longrightarrow> idlers (kframes u q) = 0)"
    proof (cases "idle_fn fn = 0")
      case True
      have "idlers (kframes u q) \<le> idlers (kframes ?o q)" for q unfolding ik True by simp
      then show ?thesis using p by (metis le_trans le_zero_eq)
    next
      case False
      then have pr: "p = ?r" using p(2) io(1) by (metis le_zero_eq)
      have f1: "idle_fn fn = 1" using False by (cases fn) simp_all
      have "idlers (kframes u q) = 0" if "q \<noteq> t" for q
        unfolding ik using that p io(1) f1 unfolding pr by (cases "q = ?r") (simp_all del: push_frames_sel(1))
      moreover have "idlers (kframes u t) = 1" unfolding ik f1 by simp
      ultimately show ?thesis by (intro exI [of _ t]) simp
    qed
    have ids: "idle_thread s \<noteq> NULL \<Longrightarrow> (\<forall>p. idlers (kframes u p) = 0) \<and> idle_thread s \<in> live s
        \<and> st u (idle_thread s) \<noteq> Some THREAD_DYING \<and> (\<forall>x\<in>set (kframes u (idle_thread s)). idle_frame x)"
    proof -
      assume n: "idle_thread s \<noteq> NULL"
      have a: "\<forall>p. idlers (kframes ?o p) = 0" "idle_thread s \<in> live s"
        "st s (idle_thread s) \<noteq> Some THREAD_DYING" "\<forall>x\<in>set (kframes ?o (idle_thread s)). idle_frame x"
        using idl n unfolding inv_idle_def push_frames_sel(4,11,15) by blast+
      have f0: "idle_fn fn = 0" using io(1) a(1) by (metis le_zero_eq)
      have "\<forall>p. idlers (kframes u p) = 0" unfolding ik f0 using a(1) by (simp del: push_frames_sel(1))
      moreover have "kframes u (idle_thread s) = kframes ?o (idle_thread s)" using ti ni unfolding u ko by simp
      ultimately show ?thesis using a(2-4) ti by (simp add: u(1))
    qed
    show ?thesis using fr ex ids unfolding inv_idle_def u(5) lv by blast
  qed
  moreover have "inv_lock u"
    using ok unfolding sched_defs inv_lock_def pending_def lv tk u(8,9) push_frames_sel(13,14,15) by blast
  moreover have "inv_wake u"
  proof -
    have "loop_ref (kframes ?o t) = None" unfolding ko using kt tr by simp
    then have "awake u a = awake ?o a" for a
      unfolding awake_def lk push_frames_sel(11) by (auto simp: u(1) simp del: push_frames_sel(1))
    then show ?thesis using ok unfolding sched_defs inv_wake_def u(7,9) push_frames_sel(12,13) by simp
  qed
  moreover have "NULL \<notin> live u" using ok lv by (simp add: sched_defs)
  moreover have "inv_run u" using ok_run [OF ok] tr by (auto simp: inv_run_def u)
  moreover have "inv_intr u" using lr tr by (simp add: inv_intr_def u)
  ultimately show ?thesis by (simp add: sched_defs)
qed

lemma ok_create_finish:
  assumes ok: "sched_ok (push_frames [Create_finish t i fn aux c] s)" and d: "create_finish t i fn aux c s = Some s'"
  shows "sched_ok s'"
proof -
  let ?f = "Create_finish t i fn aux c"
  obtain s1 s2 s3 s4 s5 where
    s1: "upd_thread t (\<lambda>th. th\<lparr>tid := i, child_info := c\<rparr>) s = Some s1" and
    s2: "upd_thread (running_thread s1) (children_update (\<lambda>cs. cs @ [c]))
      (upd_sema (Child_sema_wait c) (\<lambda>_. \<lparr>sema_value = 0, sema_waiters = []\<rparr>)
        (s1\<lparr>childs := (childs s1)(c \<mapsto> \<lparr>child_tid = i, child_st_exit = UINT32_MAX, child_succ = False\<rparr>)\<rparr>)) = Some s2" and
    s3: "upd_thread t (stack_update (\<lambda>p. p - 12)) s2 = Some s3" and
    s4: "upd_thread t (stack_update (\<lambda>p. p - 4)) s3 = Some s4" and
    s5: "upd_thread t (stack_update (\<lambda>p. p - 28)) s4 = Some s5" and
    ub: "thread_unblock t (s5\<lparr>kframes := (kframes s5)(t := [Kernel_thread fn aux])\<rparr>) = Some s'"
    using d by (auto simp: create_finish_def sema_init_def alloc_frame_def bind_eq_Some_conv
        dest!: thread_current_some split: if_splits)
  define sb where "sb = s1\<lparr>childs := (childs s1)(c \<mapsto> \<lparr>child_tid = i, child_st_exit = UINT32_MAX, child_succ = False\<rparr>)\<rparr>"
  have "same_core s sb"
    using upd_thread_core [OF s1] by (auto simp: sb_def intro: same_core_trans)
  then have "sched_ok (push_frames [?f] sb)" by (rule ok_core_inflight [OF ok]) simp
  then have "sched_ok (push_frames [?f] (upd_sema (Child_sema_wait c) (\<lambda>_. \<lparr>sema_value = 0, sema_waiters = []\<rparr>) sb))"
    using ok_reset_sema [OF _ no_waiters(2), of "push_frames [?f] sb" c 0] by (simp add: push_upd_sema)
  moreover have "same_core (upd_sema (Child_sema_wait c) (\<lambda>_. \<lparr>sema_value = 0, sema_waiters = []\<rparr>) sb) s5"
    using upd_thread_core [OF s2] upd_thread_core [OF s3] upd_thread_core [OF s4] upd_thread_core [OF s5]
    unfolding sb_def by (auto intro: same_core_trans)
  ultimately have ok5: "sched_ok (push_frames [?f] s5)" by (rule ok_core_inflight) simp
  obtain th e where th: "threads s5 t = Some th" and
    s': "s' = (s5\<lparr>kframes := (kframes s5)(t := [Kernel_thread fn aux])\<rparr>)\<lparr>ready_list := ready_list s5 @ [t],
       threads := (threads s5)(t \<mapsto> th\<lparr>status := THREAD_READY\<rparr>), eflags := e\<rparr>"
    using thread_unblock_effect [OF ub] by auto
  show ?thesis
    by (rule ok_start_new [OF ok5])
      (auto simp: s' st_def waiters_def val_def hold_def fun_eq_iff)
qed

lemma ok_tid_fetch:
  assumes ok: "sched_ok (push_frames [Tid_fetch t f aux c] s)" and d: "tid_fetch t f aux c s = Some s'"
  shows "sched_ok s'"
proof (rule ok_lock_release [OF ok])
  show "quiet [Tid_fetch t f aux c] [Create_finish t (next_tid s) f aux c] s"
    using inflight_not_idle [OF ok] by (simp add: quiet_def)
  show "lock_release tid_lock [Create_finish t (next_tid s) f aux c] (s\<lparr>next_tid := next_tid s + 1\<rparr>) = Some s'"
    using d by (simp add: tid_fetch_def)
  show "running_thread s \<noteq> idle_thread s" using inflight_not_idle [OF ok] by simp
qed simp

lemma ok_initial_tid:
  assumes ok: "sched_ok (push_frames [Initial_tid] s)" and d: "initial_tid s = Some s'"
  shows "sched_ok s'"
proof (rule ok_lock_release [OF ok])
  show "quiet [Initial_tid] [Set_initial_tid (next_tid s)] s"
    using inflight_not_idle [OF ok] by (simp add: quiet_def)
  show "lock_release tid_lock [Set_initial_tid (next_tid s)] (s\<lparr>next_tid := next_tid s + 1\<rparr>) = Some s'"
    using d by (simp add: initial_tid_def)
  show "running_thread s \<noteq> idle_thread s" using inflight_not_idle [OF ok] by simp
qed simp

lemma quiet_pop:
  assumes "\<not> is_loop f" "mentions1 f = []" "idlers1 f = 0" "\<And>l. tok1 l f = 0"
  shows "quiet [f] [] s"
proof -
  have "loop_ref [f] = None" using assms(1) by (cases f) simp_all
  then show ?thesis using assms by (simp add: quiet_def)
qed

lemma ok_pop:
  assumes "sched_ok (push_frames [f] s)" "\<not> is_loop f" "mentions1 f = []" "idlers1 f = 0" "\<And>l. tok1 l f = 0"
    "same_core s s'"
  shows "sched_ok s'"
  using ok_quiet [OF assms(1) quiet_pop assms(6)] assms(2-5) by simp

section \<open>The end of a thread\<close>

lemma process_exit_core:
  assumes "process_exit_pagedir s = Some s1"
  shows "same_core s s1"
proof -
  obtain cur and th :: thread where b: "(if pagedir th \<noteq> 0 then do {
        s \<leftarrow> upd_thread cur (pagedir_update (\<lambda>_. 0)) s;
        Some (s\<lparr>active_pagedir := 0\<rparr>)
      } else Some s) = Some s1"
    using assms unfolding process_exit_pagedir_def bind_eq_Some_conv by blast
  show ?thesis
  proof (cases "pagedir th = 0")
    case False
    then obtain s2 where "upd_thread cur (pagedir_update (\<lambda>_. 0)) s = Some s2" and s1: "s1 = s2\<lparr>active_pagedir := 0\<rparr>"
      using b by (auto simp: bind_eq_Some_conv)
    then have "same_core s s2" by (auto intro: upd_thread_core)
    then show ?thesis unfolding s1 by (rule same_core_trans) simp
  qed (use b in simp)
qed

lemma ok_thread_exit:
  assumes ok: "sched_ok (push_frames [Func f] s)" and d: "thread_exit s = Some s'"
  shows "sched_ok s'"
proof -
  obtain s1 and cur :: ptr and th :: thread and ch :: child where s1: "process_exit_pagedir s = Some s1" and
    s': "s' = push_frames [Call_sema_up (Child_sema_wait (child_info th)), Exit_files]
      ((s1\<lparr>eflags := eflags s1 AND NOT FLAG_IF\<rparr>)\<lparr>childs := (childs (s1\<lparr>eflags := eflags s1 AND NOT FLAG_IF\<rparr>))
        (child_info th \<mapsto> ch\<lparr>child_st_exit := st_exit th\<rparr>)\<rparr>)"
    using d unfolding thread_exit_def intr_disable_eq Let_def snd_conv bind_eq_Some_conv option.inject by blast
  have c1: "same_core s s1"
    by (rule process_exit_core [OF s1])
  have "quiet [Func f] [Call_sema_up (Child_sema_wait (child_info th)), Exit_files] s"
    using inflight_not_idle [OF ok] by (simp add: quiet_def)
  moreover have "same_core s ((s1\<lparr>eflags := eflags s1 AND NOT FLAG_IF\<rparr>)\<lparr>childs := (childs (s1\<lparr>eflags := eflags s1 AND NOT FLAG_IF\<rparr>))(child_info th \<mapsto> ch\<lparr>child_st_exit := st_exit th\<rparr>)\<rparr>)"
    by (rule same_core_trans [OF same_core_trans [OF c1 same_core_eflags] same_core_misc(3)])
  ultimately show ?thesis using ok_quiet_core [OF ok _ _ s'] by blast
qed

lemma ok_exit_files:
  assumes ok: "sched_ok (push_frames [Exit_files] s)" and d: "exit_files s = Some s'"
  shows "sched_ok s'"
proof -
  obtain cur s1 and th :: thread where s1: "(if exec_file th \<noteq> NULL then
             upd_thread cur (exec_file_update (\<lambda>_. NULL))
               (s\<lparr>file_log := file_log s @ [Allow_write (exec_file th), Close (exec_file th)]\<rparr>)
           else Some s) = Some s1" and s': "s' = push_frames [Exit_loop] s1"
    using d unfolding exit_files_def bind_eq_Some_conv option.inject by blast
  have "same_core s s1"
  proof (cases "exec_file th = NULL")
    case False
    then have "same_core (s\<lparr>file_log := file_log s @ [Allow_write (exec_file th), Close (exec_file th)]\<rparr>) s1"
      using s1 by (auto intro: upd_thread_core)
    then show ?thesis by (rule same_core_trans [OF same_core_misc(4)])
  qed (use s1 in auto)
  moreover have "quiet [Exit_files] [Exit_loop] s"
    using inflight_not_idle [OF ok] by (simp add: quiet_def)
  ultimately show ?thesis using ok_quiet_core [OF ok _ _ s'] by blast
qed

lemma ok_exit_loop:
  assumes ok: "sched_ok (push_frames [Exit_loop] s)" and d: "exit_loop s = Some s'"
  shows "sched_ok s'"
proof -
  let ?r = "running_thread s"
  have ni: "?r \<noteq> idle_thread s" using inflight_not_idle [OF ok] by simp
  obtain th where th: "threads s ?r = Some th"
    and body: "(case files th of
        (_, f) # fs \<Rightarrow> do {
          s \<leftarrow> upd_thread ?r (files_update (\<lambda>_. fs)) s;
          lock_acquire file_lock [Exit_close f] s
        }
      | [] \<Rightarrow> do {
          s \<leftarrow> set_status ?r THREAD_DYING (s\<lparr>all_list := remove1 ?r (all_list s)\<rparr>);
          schedule s
        }) = Some s'"
    using d by (auto simp: exit_loop_def bind_eq_Some_conv dest!: thread_current_some)
  show ?thesis
  proof (cases "files th")
    case Nil
    then have sc: "schedule (s\<lparr>all_list := remove1 ?r (all_list s), threads := (threads s)(?r \<mapsto> th\<lparr>status := THREAD_DYING\<rparr>)\<rparr>) = Some s'"
      using body th by (auto simp: set_status_some bind_eq_Some_conv)
    have "deschedules THREAD_DYING [Exit_loop] [] s
        (s\<lparr>all_list := remove1 ?r (all_list s), threads := (threads s)(?r \<mapsto> th\<lparr>status := THREAD_DYING\<rparr>)\<rparr>)"
      unfolding deschedules_def using ni
      by (auto simp: st_def val_def waiters_def hold_def fun_eq_iff)
    then show ?thesis using ok_deschedules [OF ok _ sc] by blast
  next
    case (Cons p fs)
    obtain f where p: "snd p = f" by simp
    then obtain s1 where s1: "upd_thread ?r (files_update (\<lambda>_. fs)) s = Some s1"
      and la: "lock_acquire file_lock [Exit_close f] s1 = Some s'"
      using body Cons by (cases p) (auto simp: bind_eq_Some_conv)
    have "quiet [Exit_loop] [Call_lock_acquire file_lock [Exit_close f]] s"
      using ni by (simp add: quiet_def acquire_ok_def)
    then have "sched_ok (push_frames [Call_lock_acquire file_lock [Exit_close f]] s1)"
      using ok_quiet [OF ok] upd_thread_core [OF s1] by simp
    then show ?thesis using la by (rule ok_lock_acquire)
  qed
qed

lemma ok_exit_close:
  assumes ok: "sched_ok (push_frames [Exit_close f] s)" and d: "exit_close f s = Some s'"
  shows "sched_ok s'"
proof (rule ok_lock_release [OF ok])
  show "quiet [Exit_close f] [Exit_loop] s"
    using inflight_not_idle [OF ok] by (simp add: quiet_def)
  show "lock_release file_lock [Exit_loop] (s\<lparr>file_log := file_log s @ [Close f]\<rparr>) = Some s'"
    using d by (simp add: exit_close_def)
  show "running_thread s \<noteq> idle_thread s" using inflight_not_idle [OF ok] by simp
qed simp

section \<open>Every step keeps the invariant\<close>

lemma ok_run_frame:
  assumes ok: "sched_ok (push_frames [f] s)" and d: "run_frame f s = Some s'"
  shows "sched_ok s'"
proof (cases f)
  case (Broadcast_loop c l)
  then show ?thesis
    using ok_cond_broadcast_loop [of "[f]" s c l s'] ok d inflight_loop_free [OF ok] inflight_not_idle [OF ok]
    by simp
next
  case (Yield_return lv)
  then obtain old where "intr_set_level lv s = Some (old, s')" using d by (auto simp: bind_eq_Some_conv)
  then show ?thesis using ok_pop [OF ok] Yield_return set_level_core [of lv s old s'] by simp
next
  case Call_intr_enable
  then obtain old where "intr_enable s = Some (old, s')" using d by (auto simp: bind_eq_Some_conv)
  then show ?thesis using ok_pop [OF ok] Call_intr_enable enable_core [of s old s'] by simp
next
  case (Set_initial_tid i)
  then have "upd_thread (initial_thread s) (tid_update (\<lambda>_. i)) s = Some s'" using d by simp
  then have "same_core s s'" by (rule upd_thread_core) simp
  then show ?thesis using ok_pop [OF ok] Set_initial_tid by simp
next
  case Iret
  then show ?thesis using ok_pop [OF ok] d by auto
next
  case (Set_holder l)
  then show ?thesis using ok d ok_set_holder by blast
qed (use ok d ok_thread_exit ok_kernel_thread ok_sema_down_loop ok_sema_down ok_sema_up ok_lock_acquire
      ok_idle_start ok_idle_loop ok_idle_wake ok_tid_fetch ok_create_finish ok_exit_files ok_exit_loop
      ok_exit_close ok_initial_tid in \<open>auto simp del: push_frames_sel\<close>)

lemma ok_resume_frame:
  assumes "sched_ok s" "resume_frame s = Some s'"
  shows "sched_ok s'"
proof -
  obtain f ks where k: "kframes s (running_thread s) = f # ks" and d: "run_frame f (pop_frame s) = Some s'"
    using assms(2) by (auto simp: resume_frame_def split: list.splits)
  have "push_frames [f] (pop_frame s) = s"
    using k by (simp add: push_frames_def pop_frame_def fun_upd_idem)
  then show ?thesis using ok_run_frame [of f "pop_frame s" s'] assms(1) d by simp
qed

lemma ok_do_call:
  assumes ok: "sched_ok s" "kframes s (running_thread s) = [Func f]" and c: "call_ok c s"
    and d: "do_call c s = Some s'"
  shows "sched_ok s'"
proof (cases c)
  case (Do_sema_try_down a)
  then obtain b where "sema_try_down (Sema a) s = Some (b, s')" using d by auto
  then show ?thesis by (rule ok_sema_try_down_api [OF ok])
next
  case (Do_lock_try_acquire l)
  then obtain b where "lock_try_acquire l s = Some (b, s')" using d by auto
  then show ?thesis by (rule ok_lock_try_acquire_api [OF ok])
next
  case (Do_cond_signal cn l)
  then show ?thesis
    using ok_cond_signal [of "[]" s "[]" cn l s'] ok d api_facts [OF ok] by (simp add: quiet_def)
next
  case (Do_cond_broadcast cn l)
  then show ?thesis
    using ok_cond_broadcast_loop [of "[]" s cn l s'] ok d api_facts [OF ok]
    by (auto simp: cond_broadcast_def split: if_splits)
next
  case (Do_create nm p fn aux t ch)
  then show ?thesis
    using ok_thread_create [of s t fn nm p aux ch s'] ok c d api_facts [OF ok] by (cases fn) auto
next
  case (Do_set_priority p)
  then have "upd_thread (running_thread s) (priority_update (\<lambda>_. p)) s = Some s'"
    using d by (auto simp: thread_set_priority_def bind_eq_Some_conv dest!: thread_current_some)
  then have "same_core s s'" by (rule upd_thread_core) simp
  then show ?thesis by (rule ok_api_core [OF ok])
next
  case Do_intr_disable
  then show ?thesis using d ok_api_core [OF ok] by (auto simp: intr_disable_eq)
next
  case Do_intr_enable
  then obtain old where "intr_enable s = Some (old, s')" using d by auto
  then show ?thesis using ok_api_core [OF ok] enable_core by blast
next
  case (Do_lock_release l)
  then show ?thesis using ok_lock_release_api [OF ok, of s l "[]" s'] d by simp
next
  case Do_yield
  then show ?thesis using ok_thread_yield [OF ok(1)] api_facts [OF ok] d by simp
next
  case (Do_sema_init a v)
  then show ?thesis using ok_sema_init_api [OF ok(1)] c d by simp
qed (use ok d ok_sema_down_api [OF ok] ok_sema_up_api [OF ok] ok_lock_acquire_api [OF ok]
      ok_cond_wait_api [OF ok] in auto)

lemma thread_tick_core:
  assumes "thread_tick s = Some s'"
  shows "same_core s s'"
proof -
  obtain s1 where c: "same_core s s1" and t: "(if thread_ticks s1 \<ge> TIME_SLICE then intr_yield_on_return s1 else Some s1) = Some s'"
  proof -
    obtain t and th :: thread where "(let s = (if t = idle_thread s then s\<lparr>idle_ticks := idle_ticks s + 1\<rparr>
              else if pagedir th \<noteq> 0 then s\<lparr>user_ticks := user_ticks s + 1\<rparr>
              else s\<lparr>kernel_ticks := kernel_ticks s + 1\<rparr>) in let s = s\<lparr>thread_ticks := thread_ticks s + 1\<rparr> in
       (if thread_ticks s \<ge> TIME_SLICE then intr_yield_on_return s else Some s)) = Some s'"
      using assms unfolding thread_tick_def bind_eq_Some_conv by blast
    then show thesis
      by (intro that [of "(if t = idle_thread s then s\<lparr>idle_ticks := idle_ticks s + 1\<rparr>
              else if pagedir th \<noteq> 0 then s\<lparr>user_ticks := user_ticks s + 1\<rparr>
              else s\<lparr>kernel_ticks := kernel_ticks s + 1\<rparr>)\<lparr>thread_ticks :=
                thread_ticks (if t = idle_thread s then s\<lparr>idle_ticks := idle_ticks s + 1\<rparr>
              else if pagedir th \<noteq> 0 then s\<lparr>user_ticks := user_ticks s + 1\<rparr>
              else s\<lparr>kernel_ticks := kernel_ticks s + 1\<rparr>) + 1\<rparr>"])
        (simp_all add: Let_def same_core_def st_def [abs_def] waiters_def [abs_def] val_def [abs_def] hold_def [abs_def])
  qed
  have "same_core s1 s'"
    using t by (auto simp: intr_yield_on_return_def same_core_def st_def waiters_def val_def hold_def
        fun_eq_iff split: if_splits)
  then show ?thesis using c same_core_trans by blast
qed

lemma same_core_cpu [simp]:
  "same_core s (s\<lparr>in_external_intr := b, yield_on_return := b'\<rparr>)" "same_core s (s\<lparr>in_external_intr := b\<rparr>)"
  "same_core s (s\<lparr>ticks := n\<rparr>)" "same_core s (outb p v s)"
  "same_core s (unexpected_interrupt vec s)"
  "same_core s (s\<lparr>in_external_intr := b, yield_on_return := b', ticks := n\<rparr>)"
  by (simp_all add: same_core_def st_def [abs_def] waiters_def [abs_def] val_def [abs_def] hold_def [abs_def]
      outb_def unexpected_interrupt_def Let_def)

lemma pic_end_core: "pic_end_of_interrupt v s = Some s' \<Longrightarrow> same_core s s'"
  by (auto simp: pic_end_of_interrupt_def Let_def split: if_splits) (meson same_core_cpu(4) same_core_trans)

lemma ok_take_timer_interrupt:
  assumes ok: "sched_ok s" and on: "intr_get_level s = INTR_ON" and d: "take_timer_interrupt s = Some s'"
  shows "sched_ok s'"
proof -
  define u where "u = push_frames [Iret] (s\<lparr>eflags := eflags s AND NOT FLAG_IF\<rparr>)"
  have lr: "loop_ref (kframes s (running_thread s)) = None"
    using ok on by (auto simp: sched_defs inv_intr_def)
  have "quiet [] [Iret] s" using lr by (simp add: quiet_def)
  then have oku: "sched_ok u" using ok_quiet [of "[]" s "[Iret]"] ok by (simp add: u_def)
  obtain s2 s3 where
    h: "(if intr_handlers u ! 0x20 \<noteq> NULL then timer_interrupt (u\<lparr>in_external_intr := True, yield_on_return := False\<rparr>)
       else Some (unexpected_interrupt 0x20 (u\<lparr>in_external_intr := True, yield_on_return := False\<rparr>))) = Some s2"
    and p: "pic_end_of_interrupt 0x20 (s2\<lparr>in_external_intr := False\<rparr>) = Some s3"
    and y: "(if yield_on_return s3 then thread_yield [] s3 else Some s3) = Some s'"
    using d by (auto simp: take_timer_interrupt_def intr_handler_def intr_disable_eq u_def [symmetric]
        bind_eq_Some_conv Let_def split: if_splits)
  have c2: "same_core u s2"
  proof (cases "intr_handlers u ! 0x20 = NULL")
    case True
    then have "s2 = unexpected_interrupt 0x20 (u\<lparr>in_external_intr := True, yield_on_return := False\<rparr>)"
      using h by simp
    then show ?thesis using same_core_trans [OF same_core_cpu(1) same_core_cpu(5)] by simp
  next
    case False
    then have "thread_tick (u\<lparr>in_external_intr := True, yield_on_return := False, ticks := ticks u + 1\<rparr>) = Some s2"
      using h by (simp add: timer_interrupt_def)
    then show ?thesis by (rule same_core_trans [OF same_core_cpu(6) thread_tick_core])
  qed
  then have c3: "same_core u s3" using pic_end_core [OF p] same_core_cpu(2) same_core_trans by blast
  have "loop_ref (kframes u (running_thread u)) = None" by (simp add: u_def)
  then have ok3: "sched_ok s3" and l3: "loop_ref (kframes s3 (running_thread s3)) = None"
    using ok_core [OF oku c3] c3 by (simp_all add: same_core_def)
  show ?thesis using y ok3 ok_thread_yield [OF ok3 l3] by (auto split: if_splits)
qed

theorem ok_kstep: "kstep s s' \<Longrightarrow> sched_ok s \<Longrightarrow> sched_ok s'"
  by (erule kstep.cases) (auto intro: ok_resume_frame ok_do_call ok_take_timer_interrupt)

section \<open>Booting\<close>

text \<open>While the system boots there is one thread, with the frames \<open>ks\<close>.\<close>

definition booting :: "ptr \<Rightarrow> frame list \<Rightarrow> 'a sched_state_scheme \<Rightarrow> bool" where
  "booting t ks s = (running_thread s = t \<and> initial_thread s = t \<and> idle_thread s = NULL \<and> ready_list s = []
    \<and> live s = {t} \<and> kframes s = (\<lambda>_. [])(t := ks) \<and> waiters s = (\<lambda>_. []))"

lemma booting_thread_init:
  assumes "thread_init t (boot_state t) = Some s" "t \<noteq> NULL"
  shows "booting t [Call_lock_acquire tid_lock [Initial_tid], Func 0] s \<and> st s t = Some THREAD_RUNNING
    \<and> val s = (\<lambda>a. case a of Lock_semaphore _ \<Rightarrow> 1 | _ \<Rightarrow> 0) \<and> hold s = (\<lambda>_. 0)"
  using assms
  by (auto simp: thread_init_def boot_state_def lock_init_def sema_init_def init_thread_def upd_sema_def
      intr_disable_def intr_set_level_def set_status_def upd_thread_def push_frames_def booting_def
      live_def st_def val_def hold_def waiters_def fun_eq_iff intr_get_level_def bind_eq_Some_conv Let_def
      split: if_splits sema_ref.splits)

lemma ok_thread_init:
  assumes "thread_init t (boot_state t) = Some s" "t \<noteq> NULL"
  shows "sched_ok s"
proof -
  note b = booting_thread_init [OF assms, unfolded booting_def]
  have live: "live s = {t}" using b by simp
  have stt: "st s p = Some THREAD_RUNNING \<longleftrightarrow> p = t" "st s p \<noteq> Some THREAD_BLOCKED" "st s p \<noteq> Some THREAD_READY"
    "st s p \<noteq> Some THREAD_DYING" for p
    using b live by (cases "p = t"; auto simp: live_def)+
  have "inv_run s" "inv_ready s" "inv_wait s" "inv_blocked s" "inv_intr s"
    using b stt by (simp_all add: inv_run_def inv_ready_def inv_wait_def inv_blocked_def inv_intr_def)
  moreover have "inv_stack s" "inv_create s" "inv_idle s"
    using b stt live by (auto simp: inv_stack_iff stack_at_def inv_create_def inv_idle_def acquire_ok_def live_def)
  moreover have "inv_lock s" "inv_wake s"
    using b live by (simp_all add: inv_lock_def pending_def inv_wake_def)
  ultimately show ?thesis using live assms(2) by (simp add: sched_defs)
qed

lemma booting_pop: "booting t (f # ks) s \<Longrightarrow> booting t ks (pop_frame s)"
  by (auto simp: booting_def pop_frame_def waiters_def live_def st_def fun_eq_iff)

lemma booting_core:
  "booting t ks s \<Longrightarrow> same_core s s' \<Longrightarrow> booting t (k @ ks) (push_frames k s')"
  by (auto simp: booting_def same_core_def live_def fun_eq_iff)

lemma booting_resume:
  assumes "booting t (f # ks) s" "resume_frame s = Some s'"
  shows "run_frame f (pop_frame s) = Some s' \<and> booting t ks (pop_frame s)"
  using assms booting_pop [OF assms(1)] by (simp add: resume_frame_def booting_def)

lemma booting_acquire:
  assumes b: "booting t ks s" and d: "lock_acquire l k s = Some s'"
  shows "booting t (Set_holder l # k @ ks) s'"
proof -
  define s1 where "s1 = s\<lparr>eflags := eflags s AND NOT FLAG_IF\<rparr>"
  have sd: "sema_down_loop (Lock_semaphore l) (intr_get_level s) (Set_holder l # k) s1 = Some s'"
    using d by (auto simp: lock_acquire_def sema_down_def intr_disable_eq s1_def bind_eq_Some_conv split: if_splits)
  have "sema_value (semas s1 (Lock_semaphore l)) \<noteq> 0"
  proof
    assume "sema_value (semas s1 (Lock_semaphore l)) = 0"
    then have "\<exists>u. schedule u = Some s' \<and> ready_list u = [] \<and> idle_thread u = NULL"
      using sd b by (auto simp: sema_down_loop_def thread_block_def set_status_some bind_eq_Some_conv Let_def
          s1_def booting_def split: if_splits)
    then show False by (auto simp: schedule_def next_thread_to_run_def is_thread_def bind_eq_Some_conv Let_def
        split: if_splits)
  qed
  then obtain old s2 where
    l: "intr_set_level (intr_get_level s) (upd_sema (Lock_semaphore l) (sema_value_update (\<lambda>v. v - 1)) s1) = Some (old, s2)"
    and s': "s' = push_frames (Set_holder l # k) s2"
    using sd by (auto simp: sema_down_loop_def bind_eq_Some_conv)
  obtain e where s2: "s2 = (upd_sema (Lock_semaphore l) (sema_value_update (\<lambda>v. v - 1)) s1)\<lparr>eflags := e\<rparr>"
    using intr_set_level_some [OF l] by blast
  have "booting t ks s2"
    using b by (simp add: booting_def s2 s1_def val_upd_value live_def)
  then show ?thesis using booting_core [of t ks s2 s2 "Set_holder l # k"] s' by simp
qed

lemma booting_holder: "booting t ks s \<Longrightarrow> booting t ks (s\<lparr>holder := h\<rparr>)"
  by (simp add: booting_def waiters_def [abs_def] live_def st_def)

lemma booting_release:
  assumes b: "booting t ks s" and d: "lock_release l k s = Some s'"
  shows "booting t (Call_sema_up (Lock_semaphore l) # k @ ks) s'"
proof -
  have s': "s' = push_frames (Call_sema_up (Lock_semaphore l) # k) (s\<lparr>holder := (holder s)(l := NULL)\<rparr>)"
    using d by (auto simp: lock_release_def bind_eq_Some_conv split: if_splits)
  have "booting t ks (s\<lparr>holder := (holder s)(l := NULL)\<rparr>)"
    by (rule booting_holder [OF b])
  then show ?thesis using booting_core [OF _ same_core_refl, of t ks _ "Call_sema_up (Lock_semaphore l) # k"] s' by simp
qed

lemma booting_up:
  assumes b: "booting t ks s" and d: "sema_up a s = Some s'"
  shows "booting t ks s'"
proof -
  have "sema_waiters (semas s a) = []" using b by (auto simp: booting_def waiters_def fun_eq_iff)
  then obtain old where l: "intr_set_level (intr_get_level s)
      (upd_sema a (sema_value_update (\<lambda>v. v + 1)) (s\<lparr>eflags := eflags s AND NOT FLAG_IF\<rparr>)) = Some (old, s')"
    using d by (auto simp: sema_up_def intr_disable_eq bind_eq_Some_conv split: if_splits)
  obtain e where "s' = (upd_sema a (sema_value_update (\<lambda>v. v + 1)) (s\<lparr>eflags := eflags s AND NOT FLAG_IF\<rparr>))\<lparr>eflags := e\<rparr>"
    using intr_set_level_some [OF l] by blast
  then show ?thesis using b by (simp add: booting_def val_upd_value live_def)
qed

lemma ok_boot:
  assumes bt: "boot t i c = Some s" and t: "t \<noteq> NULL" "i \<noteq> t"
  shows "sched_ok s"
proof -
  obtain s0 s1 s2 s3 s4 s5 where i0: "thread_init t (boot_state t) = Some s0"
    and r1: "resume_frame s0 = Some s1" and r2: "resume_frame s1 = Some s2" and r3: "resume_frame s2 = Some s3"
    and r4: "resume_frame s3 = Some s4" and r5: "resume_frame s4 = Some s5"
    and ts: "thread_start i c s5 = Some s"
    using bt by (auto simp: boot_def bind_eq_Some_conv)
  have ok5: "sched_ok s5"
    using ok_thread_init [OF i0 t(1)] r1 r2 r3 r4 r5 ok_resume_frame by blast
  have b0: "booting t [Call_lock_acquire tid_lock [Initial_tid], Func 0] s0"
    using booting_thread_init [OF i0 t(1)] by blast
  have b1: "booting t [Set_holder tid_lock, Initial_tid, Func 0] s1"
    using booting_resume [OF b0 r1] booting_acquire [of t "[Func 0]" "pop_frame s0" tid_lock "[Initial_tid]" s1] by simp
  have b2: "booting t [Initial_tid, Func 0] s2"
    using booting_resume [OF b1 r2] by (auto simp: bind_eq_Some_conv intro: booting_holder)
  obtain n where b3: "booting t [Call_sema_up (Lock_semaphore tid_lock), Set_initial_tid n, Func 0] s3"
  proof -
    let ?p = "pop_frame s2"
    have p: "booting t [Func 0] ?p" and l: "lock_release tid_lock [Set_initial_tid (next_tid ?p)]
        (?p\<lparr>next_tid := next_tid ?p + 1\<rparr>) = Some s3"
      using booting_resume [OF b2 r3] by (simp_all add: initial_tid_def)
    have "booting t [Func 0] (?p\<lparr>next_tid := next_tid ?p + 1\<rparr>)"
      using p by (simp add: booting_def waiters_def [abs_def] live_def st_def)
    then have "booting t (Call_sema_up (Lock_semaphore tid_lock) # [Set_initial_tid (next_tid ?p)] @ [Func 0]) s3"
      by (rule booting_release [OF _ l])
    then show thesis using that by simp
  qed
  have b4: "booting t [Set_initial_tid n, Func 0] s4"
    using booting_resume [OF b3 r4] booting_up [of t "[Set_initial_tid n, Func 0]" "pop_frame s3" "Lock_semaphore tid_lock" s4] by simp
  have b5: "booting t [Func 0] s5"
  proof -
    have p: "booting t [Func 0] (pop_frame s4)" and
      u: "upd_thread (initial_thread (pop_frame s4)) (tid_update (\<lambda>_. n)) (pop_frame s4) = Some s5"
      using booting_resume [OF b4 r5] by simp_all
    have "same_core (pop_frame s4) s5" by (rule upd_thread_core [OF u]) simp
    then show ?thesis using booting_core [OF p, of s5 "[]"] by simp
  qed
  define u where "u = upd_sema (Sema idle_started_sema) (\<lambda>_. \<lparr>sema_value = 0, sema_waiters = []\<rparr>) s5"
  let ?k = "[Call_intr_enable, Call_sema_down (Sema idle_started_sema) []]"
  have tc: "thread_create ''idle'' PRI_MIN (Fn_idle idle_started_sema) 0 i c (push_frames ?k u) = Some s"
    using ts by (auto simp: thread_start_def sema_init_def u_def split: if_splits)
  have w5: "waiters s5 (Sema idle_started_sema) = []" using b5 by (simp add: booting_def)
  have oku: "sched_ok u" unfolding u_def by (rule ok_reset_sema [OF ok5 w5]) simp
  have bu: "booting t [Func 0] u"
    using b5 by (auto simp: booting_def u_def waiters_def live_def fun_eq_iff)
  have ku: "kframes u (running_thread u) = [Func 0]" using bu by (simp add: booting_def)
  have "quiet [] ?k u" by (rule quiet_api [OF oku ku]) (auto simp: down_ok_def)
  then have okk: "sched_ok (push_frames ?k u)" using ok_quiet [of "[]" u ?k u] oku by simp
  have "i \<notin> live u" using bu t(2) by (simp add: booting_def)
  then have "threads u i = None" by (simp add: live_def st_def)
  moreover have "running_thread u \<noteq> idle_thread u" using api_facts [OF oku ku] by simp
  ultimately show ?thesis
    using ok_thread_create [OF okk _ _ _ _ _ _ tc] bu t(2) by (auto simp: booting_def)
qed

lemma ok_reachable: "reachable s \<Longrightarrow> sched_ok s"
  by (induction rule: reachable.induct) (auto intro: ok_boot ok_kstep)


lemmas run_defs = thread_init_def lock_init_def sema_init_def init_thread_def upd_sema_def intr_disable_def
  intr_set_level_def intr_enable_def set_status_def upd_thread_def push_frames_def intr_get_level_def
  intr_context_def PRI_DEFAULT_def PRI_MIN_def PRI_MAX_def tid_lock_def file_lock_def resume_frame_def
  pop_frame_def lock_acquire_def lock_held_by_current_thread_def thread_current_def is_thread_def
  sema_down_def sema_down_loop_def initial_tid_def lock_release_def sema_up_def thread_start_def
  idle_started_sema_def thread_create_def

definition ex_boot :: sched_state where
  "ex_boot = the (boot 0x1000 0x2000 0x3000)"

definition ex_held :: sched_state where
  "ex_held = the (resume_frame ex_boot)"

lemma ex_boot_some: "boot 0x1000 0x2000 0x3000 = Some ex_boot"
proof -
  have "\<exists>s. boot 0x1000 0x2000 0x3000 = Some s" by (simp add: boot_def boot_state_def run_defs)
  then show ?thesis by (auto simp: ex_boot_def)
qed

lemma ex_held_some: "resume_frame ex_boot = Some ex_held" "holder ex_held tid_lock = 0x1000"
proof -
  have "\<exists>s b. boot 0x1000 0x2000 0x3000 = Some b \<and> resume_frame b = Some s \<and> holder s tid_lock = 0x1000"
    by (simp add: boot_def boot_state_def run_defs)
  then show "resume_frame ex_boot = Some ex_held" "holder ex_held tid_lock = 0x1000"
    by (auto simp: ex_boot_some ex_held_def)
qed

lemma ex_reachable: "reachable ex_boot" "reachable ex_held"
  using reachable.start [OF ex_boot_some] reachable.step [OF _ kstep.resume [OF ex_held_some(1)]] by simp_all

section \<open>Properties\<close>

text \<open>C2. The queues of the scheduler are consistent in every reachable state, whatever the threads do
  and wherever the timer interrupts them: exactly the current thread is running; the ready list has no
  duplicates and holds exactly the ready threads other than the idle thread; the wait list of each
  semaphore has no duplicates and holds only blocked threads; no thread is on two lists, which is what
  allows one list element per thread to serve them all.\<close>

theorem scheduler_queues:
  assumes "reachable s"
  shows "(\<forall>t. map_option status (threads s t) = Some THREAD_RUNNING \<longleftrightarrow> t = running_thread s)
    \<and> distinct (ready_list s)
    \<and> (\<forall>t. t \<in> set (ready_list s) \<longleftrightarrow>
          map_option status (threads s t) = Some THREAD_READY \<and> t \<noteq> idle_thread s)
    \<and> (\<forall>a. distinct (sema_waiters (semas s a)))
    \<and> (\<forall>a t. t \<in> set (sema_waiters (semas s a)) \<longrightarrow>
          map_option status (threads s t) = Some THREAD_BLOCKED \<and> t \<notin> set (ready_list s)
          \<and> (\<forall>b. t \<in> set (sema_waiters (semas s b)) \<longrightarrow> b = a))"
proof -
  have ok: "sched_ok s" by (rule ok_reachable [OF assms])
  have run: "\<And>t. map_option status (threads s t) = Some THREAD_RUNNING \<longleftrightarrow> t = running_thread s"
    using ok_run [OF ok] by (simp add: st_def)
  have rd: "distinct (ready_list s)" "\<And>t. t \<in> set (ready_list s) \<longleftrightarrow>
      map_option status (threads s t) = Some THREAD_READY \<and> t \<noteq> idle_thread s"
    using ok by (simp_all add: sched_defs inv_ready_def st_def)
  have w: "\<And>a. distinct (sema_waiters (semas s a))" "\<And>a t. t \<in> set (sema_waiters (semas s a)) \<longleftrightarrow>
      map_option status (threads s t) = Some THREAD_BLOCKED \<and> loop_ref (kframes s t) = Some a"
    using ok by (simp_all add: sched_defs inv_wait_def waiters_def st_def)
  have q: "map_option status (threads s t) = Some THREAD_BLOCKED \<and> t \<notin> set (ready_list s)"
    if "t \<in> set (sema_waiters (semas s a))" for t a
    using that rd(2) [of t] w(2) [of t a] by auto
  have u: "b = a" if "t \<in> set (sema_waiters (semas s a))" "t \<in> set (sema_waiters (semas s b))" for t a b
    using that w(2) [of t a] w(2) [of t b] by auto
  show ?thesis
    by (intro conjI allI impI run rd w(1)) (rule q [THEN conjunct1] q [THEN conjunct2] u, assumption+)+
qed

theorem scheduler_queues_witness: "reachable ex_held \<and> distinct (ready_list ex_held)
    \<and> map_option status (threads ex_held (running_thread ex_held)) = Some THREAD_RUNNING"
  using scheduler_queues [OF ex_reachable(2)] ex_reachable(2) by blast

text \<open>C1. Mutual exclusion: in every reachable state, while a lock has a holder its semaphore is 0 and
  no thread is between taking the semaphore in \<^verbatim>\<open>lock_acquire\<close> and storing itself as the holder;
  and at most one thread is ever in that window.\<close>

theorem lock_mutual_exclusion:
  assumes "reachable s"
  shows "(holder s l \<noteq> NULL \<longrightarrow> sema_value (semas s (Lock_semaphore l)) = 0
            \<and> (\<forall>t. Set_holder l \<notin> set (kframes s t)))
    \<and> (\<forall>t u. Set_holder l \<in> set (kframes s t) \<longrightarrow> Set_holder l \<in> set (kframes s u) \<longrightarrow> t = u)"
proof -
  have ok: "sched_ok s" by (rule ok_reachable [OF assms])
  have fin: "finite (live s)" by (rule ok_stack(2) [OF ok])
  have tot: "val s (Lock_semaphore l) + hold s l + pending s l = 1" using ok by (simp add: sched_defs inv_lock_def)
  have tk: "Set_holder l \<in> set ks \<Longrightarrow> 1 \<le> toks l ks" for ks
    by (induction ks) auto
  have lv: "Set_holder l \<in> set (kframes s t) \<Longrightarrow> t \<in> live s" for t
    using live_no_frames(2) [OF ok, of t] by (cases "t \<in> live s") auto
  have p1: "1 \<le> pending s l" if t: "Set_holder l \<in> set (kframes s t)" for t
    using pending_split [OF fin lv [OF t], of l] tk [OF t] by simp
  have "holder s l \<noteq> NULL \<longrightarrow> sema_value (semas s (Lock_semaphore l)) = 0
      \<and> (\<forall>t. Set_holder l \<notin> set (kframes s t))"
  proof
    assume "holder s l \<noteq> NULL"
    then have h: "hold s l = 1" by (simp add: hold_def)
    then have "val s (Lock_semaphore l) = 0" "pending s l = 0" using tot by linarith+
    then show "sema_value (semas s (Lock_semaphore l)) = 0 \<and> (\<forall>t. Set_holder l \<notin> set (kframes s t))"
      using p1 by (force simp: val_def unat_eq_zero)
  qed
  moreover have "t = u" if t: "Set_holder l \<in> set (kframes s t)" and u: "Set_holder l \<in> set (kframes s u)" for t u
  proof (rule ccontr)
    assume ne: "t \<noteq> u"
    have "u \<in> live s - {t}" using lv [OF u] ne by simp
    then have "toks l (kframes s u) \<le> (\<Sum>t\<in>live s - {t}. toks l (kframes s t))"
      using fin by (intro member_le_sum) auto
    then have "2 \<le> pending s l" using pending_split [OF fin lv [OF t], of l] tk [OF t] tk [OF u] by linarith
    then show False using tot by linarith
  qed
  ultimately show ?thesis by blast
qed

theorem lock_mutual_exclusion_witness: "reachable ex_held \<and> holder ex_held tid_lock = 0x1000
    \<and> sema_value (semas ex_held (Lock_semaphore tid_lock)) = 0"
  using lock_mutual_exclusion [OF ex_reachable(2), of tid_lock] ex_reachable(2) ex_held_some(2) by simp

text \<open>C3. No lost wake-up: in every reachable state, a semaphore on which threads wait has no more units
  than there are threads that were woken (or just arrived) and are about to test it again. So a
  unit never sits unused beside a sleeping waiter with nobody on the way to take it.\<close>

theorem semaphore_no_lost_wakeup:
  assumes "reachable s"
  shows "sema_waiters (semas s a) = []
    \<or> unat (sema_value (semas s a))
        \<le> card {t. map_option status (threads s t) \<in> {Some THREAD_RUNNING, Some THREAD_READY}
                  \<and> (\<exists>lv k r. kframes s t = Sema_down_loop a lv k # r)}"
proof -
  have ok: "sched_ok s" by (rule ok_reachable [OF assms])
  have "t \<in> awake s a \<longleftrightarrow> map_option status (threads s t) \<in> {Some THREAD_RUNNING, Some THREAD_READY}
      \<and> (\<exists>lv k r. kframes s t = Sema_down_loop a lv k # r)" for t
  proof -
    have "loop_ref (kframes s t) = Some a \<longleftrightarrow> (\<exists>lv k r. kframes s t = Sema_down_loop a lv k # r)"
      using loop_ref_Some by auto
    moreover have "st s t = Some THREAD_DYING \<Longrightarrow> kframes s t = []"
      using ok_stack(1) [OF ok, of t] by (simp add: stack_at_def)
    ultimately show ?thesis
      unfolding awake_def st_def [symmetric]
      by (cases "st s t") (auto, metis thread_status.exhaust)
  qed
  then have "awake s a = {t. map_option status (threads s t) \<in> {Some THREAD_RUNNING, Some THREAD_READY}
      \<and> (\<exists>lv k r. kframes s t = Sema_down_loop a lv k # r)}" by blast
  moreover have "waiters s a \<noteq> [] \<longrightarrow> val s a \<le> card (awake s a)"
    using ok by (simp add: sched_defs inv_wake_def)
  ultimately show ?thesis by (auto simp: waiters_def val_def)
qed

theorem semaphore_no_lost_wakeup_witness:
  "reachable ex_held \<and> (sema_waiters (semas ex_held (Sema 4)) = []
    \<or> unat (sema_value (semas ex_held (Sema 4)))
        \<le> card {t. map_option status (threads ex_held t) \<in> {Some THREAD_RUNNING, Some THREAD_READY}
                  \<and> (\<exists>lv k r. kframes ex_held t = Sema_down_loop (Sema 4) lv k # r)})"
  using semaphore_no_lost_wakeup [OF ex_reachable(2), of "Sema 4"] ex_reachable(2) by blast

end
