(* ===== verification/Lib_String.thy ===== *)
theory Lib_String
  imports Prelude
begin

text \<open>
  The string library, \<^verbatim>\<open>lib/string.c\<close>, on a byte memory. A pointer is an address and 0 is
  the null pointer. The loops that stop at a null byte are \<^theory_text>\<open>partial_function (option)\<close>:
  a string without terminator gives \<^term>\<open>None\<close>, as does a failed assertion.
\<close>

section \<open>Blocks of memory\<close>

type_synonym cmem = "nat \<Rightarrow> byte"

fun copy_up :: "nat \<Rightarrow> nat \<Rightarrow> nat \<Rightarrow> cmem \<Rightarrow> cmem" where
  "copy_up dst src 0 m = m"
| "copy_up dst src (Suc n) m = copy_up (dst + 1) (src + 1) n (m(dst := m src))"

fun copy_down :: "nat \<Rightarrow> nat \<Rightarrow> nat \<Rightarrow> cmem \<Rightarrow> cmem" where
  "copy_down dst src 0 m = m"
| "copy_down dst src (Suc n) m = copy_down dst src n (m(dst + n := m (src + n)))"

definition memcpy :: "nat \<Rightarrow> nat \<Rightarrow> nat \<Rightarrow> cmem \<Rightarrow> (nat \<times> cmem) option" where
  "memcpy dst src sz m = do {
     kassert (dst \<noteq> NULL \<or> sz = 0);
     kassert (src \<noteq> NULL \<or> sz = 0);
     Some (dst, copy_up dst src sz m)
   }"

text \<open>\<^verbatim>\<open>memmove\<close> returns its working pointer: the end of the block after an upward copy.\<close>

definition memmove :: "nat \<Rightarrow> nat \<Rightarrow> nat \<Rightarrow> cmem \<Rightarrow> (nat \<times> cmem) option" where
  "memmove dst src sz m = do {
     kassert (dst \<noteq> NULL \<or> sz = 0);
     kassert (src \<noteq> NULL \<or> sz = 0);
     if dst < src then Some (dst + sz, copy_up dst src sz m)
     else Some (dst, copy_down dst src sz m)
   }"

fun memcmp_loop :: "nat \<Rightarrow> nat \<Rightarrow> nat \<Rightarrow> cmem \<Rightarrow> int" where
  "memcmp_loop a b 0 m = 0"
| "memcmp_loop a b (Suc n) m =
    (if m a \<noteq> m b then (if m a > m b then 1 else -1) else memcmp_loop (a + 1) (b + 1) n m)"

definition memcmp :: "nat \<Rightarrow> nat \<Rightarrow> nat \<Rightarrow> cmem \<Rightarrow> int option" where
  "memcmp a b sz m = do {
     kassert (a \<noteq> NULL \<or> sz = 0);
     kassert (b \<noteq> NULL \<or> sz = 0);
     Some (memcmp_loop a b sz m)
   }"

fun memchr_loop :: "nat \<Rightarrow> byte \<Rightarrow> nat \<Rightarrow> cmem \<Rightarrow> nat" where
  "memchr_loop block ch 0 m = NULL"
| "memchr_loop block ch (Suc n) m = (if m block = ch then block else memchr_loop (block + 1) ch n m)"

definition memchr :: "nat \<Rightarrow> byte \<Rightarrow> nat \<Rightarrow> cmem \<Rightarrow> nat option" where
  "memchr block ch sz m = do {
     kassert (block \<noteq> NULL \<or> sz = 0);
     Some (memchr_loop block ch sz m)
   }"

fun memset_loop :: "nat \<Rightarrow> byte \<Rightarrow> nat \<Rightarrow> cmem \<Rightarrow> cmem" where
  "memset_loop dst v 0 m = m"
| "memset_loop dst v (Suc n) m = memset_loop (dst + 1) v n (m(dst := v))"

definition memset :: "nat \<Rightarrow> byte \<Rightarrow> nat \<Rightarrow> cmem \<Rightarrow> (nat \<times> cmem) option" where
  "memset dst v sz m = do {
     kassert (dst \<noteq> NULL \<or> sz = 0);
     Some (dst, memset_loop dst v sz m)
   }"

section \<open>Strings\<close>

partial_function (option) strcmp_loop :: "nat \<Rightarrow> nat \<Rightarrow> cmem \<Rightarrow> int option" where
  [code]: "strcmp_loop a b m =
    (if m a \<noteq> 0 \<and> m a = m b then strcmp_loop (a + 1) (b + 1) m
     else Some (if m a < m b then -1 else if m a > m b then 1 else 0))"

definition strcmp :: "nat \<Rightarrow> nat \<Rightarrow> cmem \<Rightarrow> int option" where
  "strcmp a b m = do {
     kassert (a \<noteq> NULL);
     kassert (b \<noteq> NULL);
     strcmp_loop a b m
   }"

partial_function (option) strchr_loop :: "nat \<Rightarrow> byte \<Rightarrow> cmem \<Rightarrow> nat option" where
  [code]: "strchr_loop s c m =
    (if m s = c then Some s else if m s = 0 then Some NULL else strchr_loop (s + 1) c m)"

definition strchr :: "nat \<Rightarrow> byte \<Rightarrow> cmem \<Rightarrow> nat option" where
  "strchr s c m = do { kassert (s \<noteq> NULL); strchr_loop s c m }"

partial_function (option) strcspn_loop :: "nat \<Rightarrow> nat \<Rightarrow> nat \<Rightarrow> cmem \<Rightarrow> nat option" where
  [code]: "strcspn_loop len string stop m =
    (if m (string + len) = 0 then Some len
     else do {
       r \<leftarrow> strchr stop (m (string + len)) m;
       if r \<noteq> NULL then Some len else strcspn_loop (len + 1) string stop m
     })"

definition strcspn :: "nat \<Rightarrow> nat \<Rightarrow> cmem \<Rightarrow> nat option" where
  "strcspn string stop m = strcspn_loop 0 string stop m"

partial_function (option) strpbrk :: "nat \<Rightarrow> nat \<Rightarrow> cmem \<Rightarrow> nat option" where
  [code]: "strpbrk string stop m =
    (if m string = 0 then Some NULL
     else do {
       r \<leftarrow> strchr stop (m string) m;
       if r \<noteq> NULL then Some string else strpbrk (string + 1) stop m
     })"

partial_function (option) strrchr_loop :: "nat \<Rightarrow> nat \<Rightarrow> byte \<Rightarrow> cmem \<Rightarrow> nat option" where
  [code]: "strrchr_loop p string c m =
    (if m string = 0 then Some p
     else strrchr_loop (if m string = c then string else p) (string + 1) c m)"

definition strrchr :: "nat \<Rightarrow> byte \<Rightarrow> cmem \<Rightarrow> nat option" where
  "strrchr string c m = strrchr_loop NULL string c m"

partial_function (option) strspn_loop :: "nat \<Rightarrow> nat \<Rightarrow> nat \<Rightarrow> cmem \<Rightarrow> nat option" where
  [code]: "strspn_loop len string skip m =
    (if m (string + len) = 0 then Some len
     else do {
       r \<leftarrow> strchr skip (m (string + len)) m;
       if r = NULL then Some len else strspn_loop (len + 1) string skip m
     })"

definition strspn :: "nat \<Rightarrow> nat \<Rightarrow> cmem \<Rightarrow> nat option" where
  "strspn string skip m = strspn_loop 0 string skip m"

partial_function (option) strlen_loop :: "nat \<Rightarrow> nat \<Rightarrow> cmem \<Rightarrow> nat option" where
  [code]: "strlen_loop p string m =
    (if m p = 0 then Some (p - string) else strlen_loop (p + 1) string m)"

definition strlen :: "nat \<Rightarrow> cmem \<Rightarrow> nat option" where
  "strlen string m = do { kassert (string \<noteq> NULL); strlen_loop string string m }"

function strnlen_loop :: "nat \<Rightarrow> nat \<Rightarrow> nat \<Rightarrow> cmem \<Rightarrow> nat" where
  "strnlen_loop len string maxlen m =
    (if m (string + len) \<noteq> 0 \<and> len < maxlen then strnlen_loop (len + 1) string maxlen m else len)"
  by pat_completeness auto
termination by (relation "measure (\<lambda>(len, string, maxlen, m). maxlen - len)") auto

declare strnlen_loop.simps [simp del]

definition strnlen :: "nat \<Rightarrow> nat \<Rightarrow> cmem \<Rightarrow> nat" where
  "strnlen string maxlen m = strnlen_loop 0 string maxlen m"

function strstr_loop :: "nat \<Rightarrow> nat \<Rightarrow> nat \<Rightarrow> nat \<Rightarrow> nat \<Rightarrow> cmem \<Rightarrow> nat option" where
  "strstr_loop i last_i haystack needle needle_len m =
    (if i \<le> last_i then do {
       r \<leftarrow> memcmp (haystack + i) needle needle_len m;
       if r = 0 then Some (haystack + i) else strstr_loop (i + 1) last_i haystack needle needle_len m
     } else Some NULL)"
  by pat_completeness auto
termination
  by (relation "measure (\<lambda>(i, last_i, haystack, needle, needle_len, m). last_i + 1 - i)") auto

declare strstr_loop.simps [simp del]

definition strstr :: "nat \<Rightarrow> nat \<Rightarrow> cmem \<Rightarrow> nat option" where
  "strstr haystack needle m = do {
     haystack_len \<leftarrow> strlen haystack m;
     needle_len \<leftarrow> strlen needle m;
     if haystack_len \<ge> needle_len
     then strstr_loop 0 (haystack_len - needle_len) haystack needle needle_len m
     else Some NULL
   }"

text \<open>\<^verbatim>\<open>strtok_r\<close> returns the token, the saved position and the memory.\<close>

partial_function (option) strtok_skip :: "nat \<Rightarrow> nat \<Rightarrow> cmem \<Rightarrow> nat option" where
  [code]: "strtok_skip s delimiters m = do {
     r \<leftarrow> strchr delimiters (m s) m;
     if r \<noteq> NULL \<and> m s \<noteq> 0 then strtok_skip (s + 1) delimiters m else Some s
   }"

partial_function (option) strtok_scan :: "nat \<Rightarrow> nat \<Rightarrow> cmem \<Rightarrow> nat option" where
  [code]: "strtok_scan s delimiters m = do {
     r \<leftarrow> strchr delimiters (m s) m;
     if r = NULL then strtok_scan (s + 1) delimiters m else Some s
   }"

definition strtok_r :: "nat \<Rightarrow> nat \<Rightarrow> nat \<Rightarrow> cmem \<Rightarrow> (nat \<times> nat \<times> cmem) option" where
  "strtok_r s delimiters saved m = do {
     kassert (delimiters \<noteq> NULL);
     let s = (if s = NULL then saved else s);
     kassert (s \<noteq> NULL);
     s \<leftarrow> strtok_skip s delimiters m;
     if m s = 0 then Some (NULL, s, m)
     else do {
       let token = s;
       s \<leftarrow> strtok_scan s delimiters m;
       if m s \<noteq> 0 then Some (token, s + 1, m(s := 0)) else Some (token, s, m)
     }
   }"

definition strlcpy :: "nat \<Rightarrow> nat \<Rightarrow> nat \<Rightarrow> cmem \<Rightarrow> (nat \<times> cmem) option" where
  "strlcpy dst src sz m = do {
     kassert (dst \<noteq> NULL);
     kassert (src \<noteq> NULL);
     src_len \<leftarrow> strlen src m;
     if sz > 0 then do {
       let dst_len = (if src_len < sz - 1 then src_len else sz - 1);
       (_, m) \<leftarrow> memcpy dst src dst_len m;
       Some (src_len, m(dst + dst_len := 0))
     } else Some (src_len, m)
   }"

definition strlcat :: "nat \<Rightarrow> nat \<Rightarrow> nat \<Rightarrow> cmem \<Rightarrow> (nat \<times> cmem) option" where
  "strlcat dst src sz m = do {
     kassert (dst \<noteq> NULL);
     kassert (src \<noteq> NULL);
     src_len \<leftarrow> strlen src m;
     dst_len \<leftarrow> strlen dst m;
     if sz > 0 \<and> dst_len < sz then do {
       let copy_cnt = (if src_len < sz - dst_len - 1 then src_len else sz - dst_len - 1);
       (_, m) \<leftarrow> memcpy (dst + dst_len) src copy_cnt m;
       Some (src_len + dst_len, m(dst + dst_len + copy_cnt := 0))
     } else Some (src_len + dst_len, m)
   }"

section \<open>Blocks\<close>

lemma copy_up_at:
  assumes "dst < src \<or> src + n \<le> dst \<or> dst = src"
  shows "copy_up dst src n m a = (if dst \<le> a \<and> a < dst + n then m (src + (a - dst)) else m a)"
  using assms
proof (induction n arbitrary: dst src m)
  case (Suc n)
  have "copy_up dst src (Suc n) m a =
    (if dst + 1 \<le> a \<and> a < dst + 1 + n then (m(dst := m src)) (src + 1 + (a - (dst + 1)))
     else (m(dst := m src)) a)"
    unfolding copy_up.simps by (rule Suc.IH) (use Suc.prems in auto)
  also have "\<dots> = (if dst \<le> a \<and> a < dst + Suc n then m (src + (a - dst)) else m a)"
  proof (cases "dst + 1 \<le> a \<and> a < dst + 1 + n")
    case True
    then have e: "src + 1 + (a - (dst + 1)) = src + (a - dst)" by linarith
    have "src + (a - dst) \<noteq> dst \<or> m src = m (src + (a - dst))" using True Suc.prems by auto
    then show ?thesis unfolding e using True by auto
  qed auto
  finally show ?case .
qed auto

lemma copy_down_at:
  assumes "src \<le> dst"
  shows "copy_down dst src n m a = (if dst \<le> a \<and> a < dst + n then m (src + (a - dst)) else m a)"
  using assms by (induction n arbitrary: m) (auto simp: not_less less_Suc_eq)

lemma memset_loop_at: "memset_loop dst v n m a = (if dst \<le> a \<and> a < dst + n then v else m a)"
  by (induction n arbitrary: dst m) auto

lemma memcmp_loop_zero:
  "memcmp_loop a b n m = 0 \<longleftrightarrow> (\<forall>i<n. m (a + i) = m (b + i))"
proof (induction n arbitrary: a b)
  case (Suc n)
  have "(\<forall>i<Suc n. m (a + i) = m (b + i)) \<longleftrightarrow> m a = m b \<and> (\<forall>i<n. m (a + 1 + i) = m (b + 1 + i))"
    by (simp add: All_less_Suc2)
  then show ?case using Suc.IH [of "a + 1" "b + 1"] by simp
qed simp

section \<open>Null-terminated strings\<close>

text \<open>\<open>cstr m p xs\<close>: the bytes \<open>xs\<close>, none of them null, stand at \<open>p\<close> with a terminator.\<close>

fun cstr :: "cmem \<Rightarrow> nat \<Rightarrow> byte list \<Rightarrow> bool" where
  "cstr m p [] \<longleftrightarrow> m p = 0"
| "cstr m p (x # xs) \<longleftrightarrow> m p = x \<and> x \<noteq> 0 \<and> cstr m (p + 1) xs"

lemma cstr_null_notin: "cstr m p xs \<Longrightarrow> 0 \<notin> set xs"
  by (induction xs arbitrary: p) auto

lemma cstr_nth: "cstr m p xs \<Longrightarrow> i < length xs \<Longrightarrow> m (p + i) = xs ! i"
proof (induction xs arbitrary: p i)
  case (Cons x xs)
  then show ?case using Cons.IH [of "p + 1" "i - 1"] by (cases i) auto
qed simp

lemma cstr_end: "cstr m p xs \<Longrightarrow> m (p + length xs) = 0"
proof (induction xs arbitrary: p)
  case (Cons x xs)
  then show ?case using Cons.IH [of "p + 1"] by simp
qed simp

lemma cstrI:
  "0 \<notin> set xs \<Longrightarrow> (\<And>i. i < length xs \<Longrightarrow> m (p + i) = xs ! i) \<Longrightarrow> m (p + length xs) = 0 \<Longrightarrow>
   cstr m p xs"
proof (induction xs arbitrary: p)
  case (Cons x xs)
  have "cstr m (p + 1) xs"
  proof (rule Cons.IH)
    show "m (p + 1 + i) = xs ! i" if "i < length xs" for i using Cons.prems(2) [of "Suc i"] that by simp
  qed (use Cons.prems in auto)
  then show ?case using Cons.prems(1) Cons.prems(2) [of 0] by auto
qed simp

lemma cstr_drop: "cstr m p xs \<Longrightarrow> i \<le> length xs \<Longrightarrow> cstr m (p + i) (drop i xs)"
proof (induction xs arbitrary: p i)
  case (Cons x xs)
  then show ?case using Cons.IH [of "p + 1" "i - 1"] by (cases i) auto
qed simp

lemma cstr_cong:
  assumes "cstr m p xs" "\<And>a. p \<le> a \<Longrightarrow> a \<le> p + length xs \<Longrightarrow> m' a = m a"
  shows "cstr m' p xs"
  using assms by (induction xs arbitrary: p) auto

lemma strlen_loop_cstr: "cstr m p xs \<Longrightarrow> s \<le> p \<Longrightarrow> strlen_loop p s m = Some (p + length xs - s)"
  by (induction xs arbitrary: p) (simp_all add: strlen_loop.simps)

lemma strlen_cstr: "cstr m p xs \<Longrightarrow> p \<noteq> NULL \<Longrightarrow> strlen p m = Some (length xs)"
  by (simp add: strlen_def strlen_loop_cstr)

lemma strchr_cstr:
  assumes "cstr m p xs" "p \<noteq> NULL"
  shows "strchr p c m = Some (if c \<in> set xs \<or> c = 0 then p + length (takeWhile (\<lambda>x. x \<noteq> c) xs) else NULL)"
proof -
  have "strchr_loop p c m =
    Some (if c \<in> set xs \<or> c = 0 then p + length (takeWhile (\<lambda>x. x \<noteq> c) xs) else NULL)"
    using assms(1)
  proof (induction xs arbitrary: p)
    case (Cons x xs)
    have "strchr_loop (p + 1) c m =
      Some (if c \<in> set xs \<or> c = 0 then p + 1 + length (takeWhile (\<lambda>x. x \<noteq> c) xs) else NULL)"
      using Cons by simp
    then show ?case using Cons.prems by (auto simp: strchr_loop.simps [of p])
  qed (simp add: strchr_loop.simps)
  then show ?thesis using assms(2) by (simp add: strchr_def)
qed

lemma strchr_found:
  assumes "cstr m p xs" "p \<noteq> NULL"
  obtains r where "strchr p c m = Some r" "r \<noteq> NULL \<longleftrightarrow> c \<in> set xs \<or> c = 0"
  using strchr_cstr [OF assms, of c] assms(2) by fastforce

section \<open>Tokens\<close>

text \<open>
  The specification of tokenising: the maximal runs of bytes that are not delimiters. One call of
  \<^verbatim>\<open>strtok_r\<close> takes the first of them and leaves the string of the others.
\<close>

function tokens :: "byte set \<Rightarrow> byte list \<Rightarrow> byte list list" where
  "tokens D xs =
    (let ys = dropWhile (\<lambda>x. x \<in> D) xs in
     if ys = [] then []
     else takeWhile (\<lambda>x. x \<notin> D) ys # tokens D (dropWhile (\<lambda>x. x \<notin> D) ys))"
  by pat_completeness auto
termination
proof (relation "measure (\<lambda>(D, xs). length xs)")
  fix D :: "byte set" and xs ys :: "byte list"
  assume ys: "ys = dropWhile (\<lambda>x. x \<in> D) xs" "ys \<noteq> []"
  then have "hd ys \<notin> D" using hd_dropWhile by blast
  with ys(2) have "length (dropWhile (\<lambda>x. x \<notin> D) ys) < length ys"
    by (cases ys) (auto simp: le_imp_less_Suc length_dropWhile_le)
  also have "\<dots> \<le> length xs" by (simp add: ys(1) length_dropWhile_le)
  finally show "((D, dropWhile (\<lambda>x. x \<notin> D) ys), (D, xs)) \<in> measure (\<lambda>(D, xs). length xs)" by simp
qed simp

declare tokens.simps [simp del]

lemma tokens_skip_delim: "x \<in> D \<Longrightarrow> tokens D (x # xs) = tokens D xs"
  by (simp add: tokens.simps [of D "x # xs"] tokens.simps [of D xs])

lemma strtok_skip_cstr:
  assumes "cstr m delims ds" "delims \<noteq> NULL" "cstr m s xs"
  shows "strtok_skip s delims m = Some (s + length (takeWhile (\<lambda>x. x \<in> set ds) xs))"
  using assms(3)
proof (induction xs arbitrary: s)
  case Nil
  obtain r where "strchr delims (m s) m = Some r" by (rule strchr_found [OF assms(1,2)])
  then show ?case using Nil by (simp add: strtok_skip.simps [of s])
next
  case (Cons x xs)
  obtain r where r: "strchr delims (m s) m = Some r" "r \<noteq> NULL \<longleftrightarrow> m s \<in> set ds \<or> m s = 0"
    by (rule strchr_found [OF assms(1,2)])
  have "strtok_skip (s + 1) delims m = Some (s + 1 + length (takeWhile (\<lambda>x. x \<in> set ds) xs))"
    using Cons by simp
  then show ?case using Cons.prems r by (auto simp: strtok_skip.simps [of s])
qed

lemma strtok_scan_cstr:
  assumes "cstr m delims ds" "delims \<noteq> NULL" "cstr m s xs"
  shows "strtok_scan s delims m = Some (s + length (takeWhile (\<lambda>x. x \<notin> set ds) xs))"
  using assms(3)
proof (induction xs arbitrary: s)
  case Nil
  obtain r where "strchr delims (m s) m = Some r" "r \<noteq> NULL \<longleftrightarrow> m s \<in> set ds \<or> m s = 0"
    by (rule strchr_found [OF assms(1,2)])
  then show ?case using Nil by (simp add: strtok_scan.simps [of s])
next
  case (Cons x xs)
  obtain r where r: "strchr delims (m s) m = Some r" "r \<noteq> NULL \<longleftrightarrow> m s \<in> set ds \<or> m s = 0"
    by (rule strchr_found [OF assms(1,2)])
  have "strtok_scan (s + 1) delims m = Some (s + 1 + length (takeWhile (\<lambda>x. x \<notin> set ds) xs))"
    using Cons by simp
  then show ?case using Cons.prems r by (auto simp: strtok_scan.simps [of s])
qed

lemma cstr_cut:
  assumes "cstr m p xs" "n \<le> length xs"
  shows "cstr (m(p + n := 0)) p (take n xs)"
proof (rule cstrI)
  show "0 \<notin> set (take n xs)" using cstr_null_notin [OF assms(1)] in_set_takeD by fastforce
qed (use assms cstr_nth [OF assms(1)] in auto)

text \<open>
  One call on the string \<open>xs\<close>: with no token left it returns the null pointer, otherwise the token
  is a terminated string inside the buffer, and the saved position holds the rest.
\<close>

lemma strtok_r_cstr:
  assumes d: "cstr m delims ds" "delims \<noteq> NULL"
    and s: "cstr m s xs" "s \<noteq> NULL"
    and start: "p = s \<or> p = NULL \<and> saved = s"
  shows "if tokens (set ds) xs = [] then strtok_r p delims saved m = Some (NULL, s + length xs, m)
    else \<exists>tok saved' m' rest.
      strtok_r p delims saved m = Some (tok, saved', m') \<and> s \<le> tok \<and>
      tok + length (hd (tokens (set ds) xs)) \<le> saved' \<and> saved' + length rest = s + length xs \<and>
      cstr m' tok (hd (tokens (set ds) xs)) \<and> cstr m' saved' rest \<and>
      tokens (set ds) rest = tl (tokens (set ds) xs) \<and>
      (\<forall>a. a < s \<or> s + length xs \<le> a \<longrightarrow> m' a = m a)"
proof -
  let ?D = "set ds"
  define ws where "ws = takeWhile (\<lambda>x. x \<in> ?D) xs"
  define ys where "ys = dropWhile (\<lambda>x. x \<in> ?D) xs"
  define t where "t = takeWhile (\<lambda>x. x \<notin> ?D) ys"
  define r where "r = dropWhile (\<lambda>x. x \<notin> ?D) ys"
  have split: "xs = ws @ ys" "ys = t @ r" by (simp_all add: ws_def ys_def t_def r_def)
  have toks: "tokens ?D xs = (if ys = [] then [] else t # tokens ?D r)"
    by (simp add: tokens.simps [of ?D xs] ys_def t_def r_def Let_def)
  have ys: "cstr m (s + length ws) ys" using cstr_drop [OF s(1), of "length ws"] by (simp add: split(1))
  have r: "cstr m (s + length ws + length t) r"
    using cstr_drop [OF ys, of "length t"] by (simp add: split(2))
  have cut: "cstr (m(s + length ws + length t := 0)) (s + length ws) t"
    using cstr_cut [OF ys, of "length t"] by (simp add: split(2))
  have p0: "(if p = NULL then saved else p) = s" using start s(2) by auto
  have skip: "strtok_skip s delims m = Some (s + length ws)"
    unfolding ws_def by (rule strtok_skip_cstr [OF d s(1)])
  have scan: "strtok_scan (s + length ws) delims m = Some (s + length ws + length t)"
    unfolding t_def by (rule strtok_scan_cstr [OF d ys])
  have run: "strtok_r p delims saved m =
    (if ys = [] then Some (NULL, s + length ws, m)
     else if r = [] then Some (s + length ws, s + length ws + length t, m)
     else Some (s + length ws, s + length ws + length t + 1, m(s + length ws + length t := 0)))"
    using d(2) s(2) ys r by (cases ys; cases r) (simp_all add: strtok_r_def p0 skip scan)
  show ?thesis
  proof (cases "ys = []")
    case True
    moreover have "length ws = length xs" using True split(1) by simp
    ultimately show ?thesis unfolding toks run by simp
  next
    case False
    show ?thesis
    proof (cases r)
      case Nil
      then have "cstr m (s + length ws) t" using cut r by (simp add: fun_upd_idem)
      moreover have "length xs = length ws + length t" using split Nil by simp
      moreover have "tokens ?D r = tokens ?D []" "cstr m (s + length ws + length t) []" using Nil r by simp_all
      ultimately show ?thesis unfolding toks run using False Nil by (auto intro!: exI [of _ "[]"])
    next
      case (Cons y rest)
      have y: "y \<in> ?D" using Cons hd_dropWhile [of "\<lambda>x. x \<notin> ?D" ys] by (simp add: r_def)
      have "cstr (m(s + length ws + length t := 0)) (s + length ws + length t + 1) rest"
        by (rule cstr_cong [where m = m]) (use r Cons in auto)
      moreover have "length xs = length ws + length t + 1 + length rest" using split Cons by simp
      moreover have "tokens ?D r = tokens ?D rest" using Cons y by (simp add: tokens_skip_delim)
      ultimately show ?thesis unfolding toks run using False Cons cut by (auto intro!: exI [of _ rest])
    qed
  qed
qed

section \<open>Searching and comparing\<close>

lemma strspn_loop_cstr:
  assumes k: "cstr m skip ks" "skip \<noteq> NULL"
  shows "cstr m (s + n) xs \<Longrightarrow> strspn_loop n s skip m = Some (n + length (takeWhile (\<lambda>x. x \<in> set ks) xs))"
proof (induction xs arbitrary: n)
  case (Cons x xs)
  obtain r where r: "strchr skip (m (s + n)) m = Some r" "r \<noteq> NULL \<longleftrightarrow> m (s + n) \<in> set ks \<or> m (s + n) = 0"
    by (rule strchr_found [OF k])
  have "strspn_loop (n + 1) s skip m = Some (n + 1 + length (takeWhile (\<lambda>x. x \<in> set ks) xs))"
    using Cons by simp
  then show ?case using Cons.prems r by (auto simp: strspn_loop.simps [of n])
qed (simp add: strspn_loop.simps)

lemma strcspn_loop_cstr:
  assumes k: "cstr m stop ks" "stop \<noteq> NULL"
  shows "cstr m (s + n) xs \<Longrightarrow> strcspn_loop n s stop m = Some (n + length (takeWhile (\<lambda>x. x \<notin> set ks) xs))"
proof (induction xs arbitrary: n)
  case (Cons x xs)
  obtain r where r: "strchr stop (m (s + n)) m = Some r" "r \<noteq> NULL \<longleftrightarrow> m (s + n) \<in> set ks \<or> m (s + n) = 0"
    by (rule strchr_found [OF k])
  have "strcspn_loop (n + 1) s stop m = Some (n + 1 + length (takeWhile (\<lambda>x. x \<notin> set ks) xs))"
    using Cons by simp
  then show ?case using Cons.prems r by (auto simp: strcspn_loop.simps [of n])
qed (simp add: strcspn_loop.simps)

lemma strspn_strcspn_cstr:
  assumes "cstr m k ks" "k \<noteq> NULL" "cstr m s xs"
  shows "strspn s k m = Some (length (takeWhile (\<lambda>x. x \<in> set ks) xs))"
    and "strcspn s k m = Some (length (takeWhile (\<lambda>x. x \<notin> set ks) xs))"
  using strspn_loop_cstr [OF assms(1,2), of s 0 xs] strcspn_loop_cstr [OF assms(1,2), of s 0 xs] assms(3)
  by (simp_all add: strspn_def strcspn_def)

lemma strcmp_cstr:
  assumes "cstr m a xs" "cstr m b ys" "a \<noteq> NULL" "b \<noteq> NULL"
  shows "strcmp a b m = Some (if ord_class.lexordp xs ys then -1 else if ord_class.lexordp ys xs then 1 else 0)"
proof -
  have "strcmp_loop a b m = Some (if ord_class.lexordp xs ys then -1 else if ord_class.lexordp ys xs then 1 else 0)"
    using assms(1,2)
  proof (induction xs arbitrary: a b ys)
    case Nil
    then show ?case by (cases ys) (auto simp: strcmp_loop.simps word_gt_0)
  next
    case (Cons x xs)
    show ?case
    proof (cases ys)
      case Nil
      then show ?thesis using Cons.prems by (auto simp: strcmp_loop.simps word_gt_0)
    next
      case (Cons y ys')
      then show ?thesis using Cons.IH [of "a + 1" "b + 1" ys'] Cons.prems
        by (auto simp: strcmp_loop.simps [of a])
    qed
  qed
  then show ?thesis using assms(3,4) by (simp add: strcmp_def)
qed

lemma strnlen_cstr: "cstr m p xs \<Longrightarrow> strnlen p n m = min (length xs) n"
proof -
  have "strnlen_loop k p n m = (if k \<le> min (length xs) n then min (length xs) n else k)"
    if "cstr m p xs" "k \<le> length xs" for k
    using that
  proof (induction k p n m rule: strnlen_loop.induct)
    case (1 k p n m)
    have "m (p + k) \<noteq> 0 \<longleftrightarrow> k < length xs"
      using cstr_nth [OF 1(2), of k] cstr_end [OF 1(2)] cstr_null_notin [OF 1(2)] 1(3)
      by (metis le_neq_implies_less nth_mem order_less_irrefl)
    then show ?case using 1 by (subst strnlen_loop.simps) auto
  qed
  from this [of 0] show "cstr m p xs \<Longrightarrow> ?thesis" by (simp add: strnlen_def)
qed

text \<open>The offset at which \<open>ns\<close> occurs in \<open>hs\<close>.\<close>

definition occurs_at :: "byte list \<Rightarrow> byte list \<Rightarrow> nat \<Rightarrow> bool" where
  "occurs_at ns hs i \<longleftrightarrow> i + length ns \<le> length hs \<and> take (length ns) (drop i hs) = ns"

lemma memcmp_occurs:
  assumes "cstr m h hs" "cstr m n ns" "n \<noteq> NULL" "h \<noteq> NULL" "i + length ns \<le> length hs"
  obtains r where "memcmp (h + i) n (length ns) m = Some r" "r = 0 \<longleftrightarrow> occurs_at ns hs i"
proof -
  have "(\<forall>j<length ns. m (h + i + j) = m (n + j)) \<longleftrightarrow> take (length ns) (drop i hs) = ns"
    using cstr_nth [OF assms(1), of "i + _"] cstr_nth [OF assms(2)] assms(5)
    by (auto simp: list_eq_iff_nth_eq add.assoc)
  then show ?thesis using that assms by (simp add: memcmp_def memcmp_loop_zero occurs_at_def)
qed

lemma strstr_loop_cstr:
  assumes "cstr m h hs" "cstr m n ns" "n \<noteq> NULL" "h \<noteq> NULL" "length ns \<le> length hs"
  shows "(\<exists>i. j \<le> i \<and> occurs_at ns hs i \<and> (\<forall>i'. j \<le> i' \<and> i' < i \<longrightarrow> \<not> occurs_at ns hs i') \<and>
             strstr_loop j (length hs - length ns) h n (length ns) m = Some (h + i)) \<or>
         (\<forall>i. j \<le> i \<longrightarrow> \<not> occurs_at ns hs i) \<and>
             strstr_loop j (length hs - length ns) h n (length ns) m = Some NULL"
proof (induction "length hs + 1 - j" arbitrary: j rule: less_induct)
  case less
  show ?case
  proof (cases "j \<le> length hs - length ns")
    case True
    then have "j + length ns \<le> length hs" using assms(5) by linarith
    from memcmp_occurs [OF assms(1-4) this] obtain r where
      r: "memcmp (h + j) n (length ns) m = Some r" "r = 0 \<longleftrightarrow> occurs_at ns hs j" .
    note step = strstr_loop.simps [of j "length hs - length ns" h n "length ns" m]
    show ?thesis
    proof (cases "occurs_at ns hs j")
      case True
      then show ?thesis using r \<open>j \<le> _\<close> by (intro disjI1 exI [of _ j]) (auto simp: step)
    next
      case False
      have eq: "strstr_loop j (length hs - length ns) h n (length ns) m =
        strstr_loop (j + 1) (length hs - length ns) h n (length ns) m"
        using False r \<open>j \<le> _\<close> by (simp add: step)
      have ge: "j \<le> i \<longleftrightarrow> i = j \<or> j + 1 \<le> i" for i by auto
      have "length hs + 1 - (j + 1) < length hs + 1 - j" using \<open>j \<le> _\<close> by linarith
      from less [OF this] show ?thesis unfolding eq ge using False by blast
    qed
  next
    case False
    then show ?thesis using assms(5) by (auto simp: strstr_loop.simps occurs_at_def)
  qed
qed

lemma strlcpy_cstr:
  assumes src: "cstr m src xs" "src \<noteq> NULL" and dst: "dst \<noteq> NULL"
    and apart: "src + length xs < dst \<or> dst + sz \<le> src"
  shows "\<exists>m'. strlcpy dst src sz m = Some (length xs, m') \<and>
    (0 < sz \<longrightarrow> cstr m' dst (take (sz - 1) xs)) \<and> (\<forall>a. a < dst \<or> dst + sz \<le> a \<longrightarrow> m' a = m a)"
proof (cases "sz = 0")
  case True
  then show ?thesis using src dst by (simp add: strlcpy_def strlen_cstr [OF src])
next
  case False
  define n where "n = min (length xs) (sz - 1)"
  define m' where "m' = (copy_up dst src n m)(dst + n := 0)"
  have n: "(if length xs < sz - 1 then length xs else sz - 1) = n" by (simp add: n_def)
  have "n < sz" using False by (auto simp: n_def)
  have at: "copy_up dst src n m a = (if dst \<le> a \<and> a < dst + n then m (src + (a - dst)) else m a)" for a
    by (rule copy_up_at) (use apart \<open>n < sz\<close> in \<open>auto simp: n_def\<close>)
  have "strlcpy dst src sz m = Some (length xs, m')"
    using False src(2) dst n by (simp add: strlcpy_def strlen_cstr [OF src] memcpy_def m'_def Let_def split: if_splits)
  moreover have "cstr m' dst (take (sz - 1) xs)"
  proof (rule cstrI)
    show "0 \<notin> set (take (sz - 1) xs)" using cstr_null_notin [OF src(1)] in_set_takeD by fastforce
    show "m' (dst + i) = take (sz - 1) xs ! i" if "i < length (take (sz - 1) xs)" for i
    proof -
      have "i < n" "i < length xs" "i < sz - 1" using that by (auto simp: n_def)
      then show ?thesis using cstr_nth [OF src(1), of i] by (simp add: m'_def at)
    qed
  qed (simp add: m'_def n_def min.commute)
  moreover have "\<forall>a. a < dst \<or> dst + sz \<le> a \<longrightarrow> m' a = m a" using \<open>n < sz\<close> by (auto simp: m'_def at)
  ultimately show ?thesis by blast
qed

lemma strlcat_cstr:
  assumes src: "cstr m src xs" "src \<noteq> NULL" and dst: "cstr m dst ys" "dst \<noteq> NULL"
    and apart: "src + length xs < dst \<or> dst + sz \<le> src" and fits: "length ys < sz"
  shows "\<exists>m'. strlcat dst src sz m = Some (length xs + length ys, m') \<and>
    cstr m' dst (take (sz - 1) (ys @ xs)) \<and> (\<forall>a. a < dst \<or> dst + sz \<le> a \<longrightarrow> m' a = m a)"
proof -
  define k where "k = min (length xs) (sz - length ys - 1)"
  define d where "d = dst + length ys"
  define m' where "m' = (copy_up d src k m)(d + k := 0)"
  have k: "(if length xs < sz - length ys - 1 then length xs else sz - length ys - 1) = k" by (simp add: k_def)
  have kn: "length ys + k < sz" using fits by (auto simp: k_def)
  have at: "copy_up d src k m a = (if d \<le> a \<and> a < d + k then m (src + (a - d)) else m a)" for a
    by (rule copy_up_at) (use apart kn in \<open>auto simp: k_def d_def\<close>)
  have "strlcat dst src sz m = Some (length xs + length ys, m')"
    using fits src(2) dst(2) k
    by (simp add: strlcat_def strlen_cstr [OF src] strlen_cstr [OF dst] memcpy_def m'_def d_def)
  moreover have len: "length (take (sz - 1) (ys @ xs)) = length ys + k" using fits by (auto simp: k_def)
  moreover have "cstr m' dst (take (sz - 1) (ys @ xs))"
  proof (rule cstrI)
    show "0 \<notin> set (take (sz - 1) (ys @ xs))"
      using cstr_null_notin [OF src(1)] cstr_null_notin [OF dst(1)] by (auto dest: in_set_takeD)
    show "m' (dst + i) = take (sz - 1) (ys @ xs) ! i" if "i < length (take (sz - 1) (ys @ xs))" for i
    proof (cases "i < length ys")
      case True
      then have "m' (dst + i) = m (dst + i)" using at [of "dst + i"] by (simp add: m'_def d_def)
      then show ?thesis using True fits cstr_nth [OF dst(1), of i] by (simp add: nth_append)
    next
      case False
      then have i: "i - length ys < length xs" "i < length ys + k" "length ys \<le> i" using that len by (auto simp: k_def)
      then have "m' (dst + i) = m (src + (i - length ys))" using at [of "dst + i"] by (simp add: m'_def d_def)
      then show ?thesis using that i cstr_nth [OF src(1), of "i - length ys"] by (simp add: nth_append)
    qed
    show "m' (dst + length (take (sz - 1) (ys @ xs))) = 0" unfolding len by (simp add: m'_def d_def add.assoc)
  qed
  moreover have "\<forall>a. a < dst \<or> dst + sz \<le> a \<longrightarrow> m' a = m a" using kn at by (auto simp: m'_def d_def)
  ultimately show ?thesis by blast
qed

section \<open>Properties\<close>

text \<open>A memory with the bytes \<open>xs\<close> and a terminator stored at an address, for the witnesses.\<close>

fun put_str :: "nat \<Rightarrow> byte list \<Rightarrow> cmem \<Rightarrow> cmem" where
  "put_str p [] m = m(p := 0)"
| "put_str p (x # xs) m = put_str (p + 1) xs (m(p := x))"

text \<open>
  C19. \<^verbatim>\<open>memmove\<close> copies a block of any size between regions that may overlap in either
  direction: afterwards every destination byte is the byte its source had before the call and no
  other byte of the memory changes. The pointer it returns is the destination only when the copy
  ran downwards; after an upward copy it is the end of the destination block.
\<close>

theorem memmove_correct:
  assumes "dst \<noteq> NULL" "src \<noteq> NULL"
  shows "memmove dst src n m =
    Some (if dst < src then dst + n else dst,
          \<lambda>a. if dst \<le> a \<and> a < dst + n then m (src + (a - dst)) else m a)"
  using assms by (auto simp: memmove_def fun_eq_iff copy_up_at copy_down_at)

theorem memmove_correct_witness:
  "\<exists>m'. memmove 5 6 3 (put_str 6 [1, 2, 3] (\<lambda>_. 9)) = Some (8, m') \<and> map m' [4..<9] = [9, 1, 2, 3, 3]"
  using memmove_correct [of 5 6 3 "put_str 6 [1, 2, 3] (\<lambda>_. 9)"] by (simp add: upt_rec)

text \<open>
  C18. A call of \<^verbatim>\<open>strtok_r\<close> on a string, given directly or by the saved position,
  returns. When the string has no token left the result is the null pointer and nothing is
  modified. Otherwise the result is a terminated string holding the first token, it lies inside
  the buffer, the saved position holds a terminated string whose tokens are exactly the remaining
  ones, and no byte outside the string is modified.
\<close>

theorem strtok_r_tokens:
  assumes "cstr m delims ds" "delims \<noteq> NULL" "cstr m s xs" "s \<noteq> NULL"
    and "p = s \<or> p = NULL \<and> saved = s"
  shows "if tokens (set ds) xs = [] then strtok_r p delims saved m = Some (NULL, s + length xs, m)
    else \<exists>tok saved' m' rest.
      strtok_r p delims saved m = Some (tok, saved', m') \<and> s \<le> tok \<and>
      tok + length (hd (tokens (set ds) xs)) \<le> saved' \<and> saved' + length rest = s + length xs \<and>
      cstr m' tok (hd (tokens (set ds) xs)) \<and> cstr m' saved' rest \<and>
      tokens (set ds) rest = tl (tokens (set ds) xs) \<and>
      (\<forall>a. a < s \<or> s + length xs \<le> a \<longrightarrow> m' a = m a)"
  by (rule strtok_r_cstr [OF assms])

theorem strtok_r_tokens_witness:
  "\<exists>tok saved' m' rest. strtok_r 10 1 0 (put_str 10 [32, 97, 98, 32, 99] (put_str 1 [32] (\<lambda>_. 0))) =
     Some (tok, saved', m') \<and> cstr m' tok [97, 98] \<and> cstr m' saved' rest \<and> tokens {32} rest = [[99]]"
proof -
  have t: "tokens {32} [32, 97, 98, 32, 99] = [[97, 98], [99]]"
    by (simp add: tokens.simps)
  show ?thesis
    using strtok_r_tokens [of "put_str 10 [32, 97, 98, 32, 99] (put_str 1 [32] (\<lambda>_. 0))" 1 "[32]" 10
        "[32, 97, 98, 32, 99]" 10 0]
    by (auto simp: t)
qed

text \<open>
  C20. \<^verbatim>\<open>strlcpy\<close> to a destination apart from the source returns the length of the source
  and never writes outside the \<open>sz\<close> bytes it was given; when there is room for a terminator the
  destination becomes a terminated string with the first \<open>sz - 1\<close> bytes of the source.
\<close>

theorem strlcpy_bounded:
  assumes "cstr m src xs" "src \<noteq> NULL" "dst \<noteq> NULL" "src + length xs < dst \<or> dst + sz \<le> src"
  shows "\<exists>m'. strlcpy dst src sz m = Some (length xs, m') \<and>
    (0 < sz \<longrightarrow> cstr m' dst (take (sz - 1) xs)) \<and> (\<forall>a. a < dst \<or> dst + sz \<le> a \<longrightarrow> m' a = m a)"
  by (rule strlcpy_cstr [OF assms])

theorem strlcpy_bounded_witness:
  "\<exists>m'. strlcpy 50 10 3 (put_str 10 [97, 98, 99, 100] (\<lambda>_. 7)) = Some (4, m') \<and>
    cstr m' 50 [97, 98] \<and> m' 53 = 7"
  using strlcpy_bounded [of "put_str 10 [97, 98, 99, 100] (\<lambda>_. 7)" 10 "[97, 98, 99, 100]" 50 3] by auto

end
