(* ===== verification/Lib_Arith.thy ===== *)
theory Lib_Arith
  imports Prelude "HOL-Library.Signed_Division"
begin

text \<open>
  The 64-bit division routines of \<^verbatim>\<open>lib/arithmetic.c\<close>, which the compiler calls on a
  machine whose divide instruction takes a 32-bit divisor. All values are machine words.
  \<^term>\<open>None\<close> is the divide error of the processor.
\<close>

text \<open>The DIVL instruction: it traps when the divisor is 0 or the quotient needs more than 32 bits.\<close>

definition divl :: "u64 \<Rightarrow> u32 \<Rightarrow> u32 option" where
  "divl n d =
    (if d = 0 \<or> 2 ^ 32 \<le> unat n div unat d then None else Some (ucast (n div ucast d)))"

definition nlz :: "u32 \<Rightarrow> nat" where
  "nlz x = (
     let (n, x) = (if x \<le> 0x0000FFFF then (16, push_bit 16 x) else (0, x));
         (n, x) = (if x \<le> 0x00FFFFFF then (n + 8, push_bit 8 x) else (n, x));
         (n, x) = (if x \<le> 0x0FFFFFFF then (n + 4, push_bit 4 x) else (n, x));
         (n, x) = (if x \<le> 0x3FFFFFFF then (n + 2, push_bit 2 x) else (n, x))
     in if x \<le> 0x7FFFFFFF then n + 1 else n)"

definition udiv64 :: "u64 \<Rightarrow> u64 \<Rightarrow> u64 option" where
  "udiv64 n d = (
     if drop_bit 32 d = 0 then do {
       let b = push_bit 32 (1 :: u64);
       let n1 = (ucast (drop_bit 32 n) :: u32);
       let n0 = (ucast n :: u32);
       let d0 = (ucast d :: u32);
       if d0 = 0 then None
       else do {
         q \<leftarrow> divl (b * ucast (n1 mod d0) + ucast n0) d0;
         Some (ucast q + b * ucast (n1 div d0))
       }
     }
     else if n < d then Some 0
     else do {
       let d1 = (ucast (drop_bit 32 d) :: u32);
       let s = nlz d1;
       r \<leftarrow> divl (drop_bit 1 n) (ucast (drop_bit 32 (push_bit s d)));
       let q = (ucast (drop_bit (31 - s) r) :: u64);
       Some (if n - (q - 1) * d < d then q - 1 else q)
     })"

definition umod64 :: "u64 \<Rightarrow> u64 \<Rightarrow> u32 option" where
  "umod64 n d = do { q \<leftarrow> udiv64 n d; Some (ucast (n - d * q)) }"

definition sdiv64 :: "u64 \<Rightarrow> u64 \<Rightarrow> u64 option" where
  "sdiv64 n d = do {
     let n_abs = (if 0 \<le> sint n then n else - n);
     let d_abs = (if 0 \<le> sint d then d else - d);
     q_abs \<leftarrow> udiv64 n_abs d_abs;
     Some (if (sint n < 0) = (sint d < 0) then q_abs else - q_abs)
   }"

definition smod64 :: "u64 \<Rightarrow> u64 \<Rightarrow> u32 option" where
  "smod64 n d = do { q \<leftarrow> sdiv64 n d; Some (ucast (n - d * q)) }"

text \<open>The entry points the compiler calls; the 32-bit remainders are widened again.\<close>

definition divdi3 :: "u64 \<Rightarrow> u64 \<Rightarrow> u64 option" where
  "divdi3 n d = sdiv64 n d"

definition moddi3 :: "u64 \<Rightarrow> u64 \<Rightarrow> u64 option" where
  "moddi3 n d = map_option scast (smod64 n d)"

definition udivdi3 :: "u64 \<Rightarrow> u64 \<Rightarrow> u64 option" where
  "udivdi3 n d = udiv64 n d"

definition umoddi3 :: "u64 \<Rightarrow> u64 \<Rightarrow> u64 option" where
  "umoddi3 n d = map_option ucast (umod64 n d)"

section \<open>Leading zeros\<close>

lemma unat_push_bit_small:
  fixes x :: "'a::len word"
  assumes "unat x * 2 ^ k < 2 ^ LENGTH('a)"
  shows "unat (push_bit k x) = unat x * 2 ^ k"
proof -
  have "unat (push_bit k x) = (unat x * 2 ^ k) mod 2 ^ LENGTH('a)"
    by (simp only: unsigned_push_bit_eq) (simp add: take_bit_eq_mod push_bit_eq_mult)
  then show ?thesis using assms by simp
qed

text \<open>One step of the search: the argument has its leading bit above bit \<open>a\<close>, and is shifted.\<close>

lemma nlz_step:
  fixes x :: u32
  assumes "unat x < 2 ^ (32 - k)" "k \<le> 32"
  shows "unat (push_bit k x) = unat x * 2 ^ k"
proof (rule unat_push_bit_small)
  have "unat x * 2 ^ k < 2 ^ (32 - k) * 2 ^ k" using assms by simp
  then show "unat x * 2 ^ k < 2 ^ LENGTH(32)" using assms by (simp add: power_add [symmetric])
qed

lemma nlz_normalises:
  assumes "x \<noteq> 0"
  shows "nlz x \<le> 31" "2 ^ 31 \<le> unat x * 2 ^ nlz x" "unat x * 2 ^ nlz x < 2 ^ 32"
proof -
  define x1 n1 where "x1 = (if x \<le> 0xFFFF then push_bit 16 x else x)" and "n1 = (if x \<le> 0xFFFF then 16 else 0 :: nat)"
  define x2 n2 where "x2 = (if x1 \<le> 0xFFFFFF then push_bit 8 x1 else x1)" and "n2 = (if x1 \<le> 0xFFFFFF then n1 + 8 else n1)"
  define x3 n3 where "x3 = (if x2 \<le> 0xFFFFFFF then push_bit 4 x2 else x2)" and "n3 = (if x2 \<le> 0xFFFFFFF then n2 + 4 else n2)"
  define x4 n4 where "x4 = (if x3 \<le> 0x3FFFFFFF then push_bit 2 x3 else x3)" and "n4 = (if x3 \<le> 0x3FFFFFFF then n3 + 2 else n3)"
  have nlz: "nlz x = (if x4 \<le> 0x7FFFFFFF then n4 + 1 else n4)"
    by (simp add: nlz_def x1_def n1_def x2_def n2_def x3_def n3_def x4_def n4_def Let_def split: prod.splits)
  have "0 < unat x" "unat x < 2 ^ 32" using assms unsigned_less [of x, where 'a = nat] by (simp_all add: unat_gt_0)
  have 1: "unat x1 = unat x * 2 ^ n1" "2 ^ 16 \<le> unat x1" "unat x1 < 2 ^ 32" "n1 \<le> 16"
    using nlz_step [of x 16] \<open>0 < unat x\<close> \<open>unat x < 2 ^ 32\<close>
    by (auto simp: x1_def n1_def word_le_nat_alt)
  have 2: "unat x2 = unat x * 2 ^ n2" "2 ^ 24 \<le> unat x2" "unat x2 < 2 ^ 32" "n2 \<le> 24"
    using nlz_step [of x1 8] 1 by (auto simp: x2_def n2_def word_le_nat_alt power_add)
  have 3: "unat x3 = unat x * 2 ^ n3" "2 ^ 28 \<le> unat x3" "unat x3 < 2 ^ 32" "n3 \<le> 28"
    using nlz_step [of x2 4] 2 by (auto simp: x3_def n3_def word_le_nat_alt power_add)
  have 4: "unat x4 = unat x * 2 ^ n4" "2 ^ 30 \<le> unat x4" "unat x4 < 2 ^ 32" "n4 \<le> 30"
    using nlz_step [of x3 2] 3 by (auto simp: x4_def n4_def word_le_nat_alt power_add)
  have 5: "unat x * 2 ^ nlz x = (if x4 \<le> 0x7FFFFFFF then unat x4 * 2 else unat x4)"
    using 4(1) by (simp add: nlz)
  show "nlz x \<le> 31" using 4(4) by (simp add: nlz)
  show "2 ^ 31 \<le> unat x * 2 ^ nlz x" "unat x * 2 ^ nlz x < 2 ^ 32"
    using 4(2,3) unfolding 5 by (auto simp: word_le_nat_alt)
qed

section \<open>The estimate of the quotient\<close>

text \<open>
  The long case divides by the top 32 bits of the normalised divisor. With \<open>D\<close> the divisor cut to
  these bits, the estimate \<open>n div D\<close> is the quotient or one more.
\<close>

lemma quotient_estimate:
  fixes n d D :: nat
  assumes "0 < D" "D \<le> d" "(n div d + 1) * (d - D) \<le> D"
  shows "n div D = n div d \<or> n div D = n div d + 1"
proof -
  have lo: "n div d \<le> n div D" using assms(1,2) by (rule div_le_mono2 [OF _ _])
  have "n < (n div d + 1) * d" using assms(1,2) by (metis add.commute div_less_iff_less_mult less_add_one less_le_trans)
  also have "\<dots> = (n div d + 1) * D + (n div d + 1) * (d - D)"
    using assms(2) by (simp add: distrib_left [symmetric] del: add_mult_distrib)
  also have "\<dots> \<le> (n div d + 2) * D" using assms(3) by (simp add: algebra_simps)
  finally have "n div D < n div d + 2" using assms(1) by (simp add: div_less_iff_less_mult)
  then show ?thesis using lo by linarith
qed

lemma normalised_cut:
  fixes n d s :: nat
  assumes s: "s \<le> 31" and norm: "2 ^ 63 \<le> d * 2 ^ s" "d * 2 ^ s < 2 ^ 64" and n: "n < 2 ^ 64"
  defines "v \<equiv> d * 2 ^ s div 2 ^ 32"
  defines "D \<equiv> v * 2 ^ (32 - s)"
  shows "2 ^ 31 \<le> v" "v < 2 ^ 32" "0 < D" "D \<le> d" "(n div d + 1) * (d - D) \<le> D"
proof -
  show v: "2 ^ 31 \<le> v" "v < 2 ^ 32" using norm by (simp_all add: v_def)
  have p: "2 ^ 32 = 2 ^ (32 - s) * (2 :: nat) ^ s" using s by (simp add: power_add [symmetric])
  have "v * 2 ^ 32 \<le> d * 2 ^ s" "d * 2 ^ s < v * 2 ^ 32 + 2 ^ 32"
    unfolding v_def by (simp_all add: div_times_less_eq_dividend dividend_less_div_times)
  then have "D * 2 ^ s \<le> d * 2 ^ s" "d * 2 ^ s < (D + 2 ^ (32 - s)) * 2 ^ s"
    unfolding D_def p by (simp_all add: algebra_simps)
  then have Dd: "D \<le> d" "d < D + 2 ^ (32 - s)" by simp_all
  show "0 < D" "D \<le> d" using v Dd by (simp_all add: D_def)
  have D63: "2 ^ (63 - s) \<le> D"
  proof -
    have "63 - s = 31 + (32 - s)" using s by simp
    then have "2 ^ (63 - s) = 2 ^ 31 * (2 :: nat) ^ (32 - s)" by (simp only: power_add)
    then show ?thesis using v(1) by (simp add: D_def)
  qed
  have "n div d < 2 ^ (s + 1)"
  proof -
    have "(2 :: nat) ^ 64 = 2 ^ (s + 1) * 2 ^ (63 - s)" using s by (simp add: power_add [symmetric])
    also have "\<dots> \<le> 2 ^ (s + 1) * d" using D63 Dd(1) by (meson le_trans mult_le_mono2)
    finally have "n < 2 ^ (s + 1) * d" using n by linarith
    then show ?thesis using \<open>0 < D\<close> Dd(1) by (simp add: div_less_iff_less_mult)
  qed
  then have "(n div d + 1) * (d - D) \<le> 2 ^ (s + 1) * (2 ^ (32 - s) - 1)"
    using Dd by (intro mult_le_mono) auto
  also have "\<dots> = 2 ^ 33 - 2 ^ (s + 1)"
  proof -
    have "2 ^ (s + 1) * 2 ^ (32 - s) = (2 :: nat) ^ 33" using s by (simp add: power_add [symmetric])
    then show ?thesis by (simp add: diff_mult_distrib2)
  qed
  also have "\<dots> \<le> 2 ^ (63 - s)"
  proof (cases "s = 31")
    case False
    then have "(2 :: nat) ^ 33 \<le> 2 ^ (63 - s)" using s by (intro power_increasing) auto
    then show ?thesis by simp
  qed simp
  finally show "(n div d + 1) * (d - D) \<le> D" using D63 by linarith
qed

section \<open>Division\<close>

lemma unat_drop_bit: "unat (drop_bit k x) = unat x div 2 ^ k" for x :: "'a::len word"
  by (simp only: unsigned_drop_bit_eq)
    (simp add: drop_bit_eq_div take_bit_nat_eq_self unsigned_less [where 'a = nat])

lemma unat_narrow: "unat x < 2 ^ 32 \<Longrightarrow> unat (ucast x :: u32) = unat x" for x :: u64
  by (simp add: unsigned_ucast_eq take_bit_nat_eq_self)

lemma unat_low: "unat (ucast x :: u32) = unat x mod 2 ^ 32" for x :: u64
  unfolding unsigned_ucast_eq take_bit_eq_mod by simp

lemma unat_wide: "unat (ucast y :: u64) = unat y" for y :: u32
proof -
  have "unat y < 2 ^ 64" using unsigned_less [of y, where 'a = nat] by simp
  then show ?thesis by (simp add: unsigned_ucast_eq take_bit_nat_eq_self)
qed

lemma unat64_less: "unat x < 2 ^ 64" for x :: u64
  using unsigned_less [of x, where 'a = nat] by simp

lemma unat_high: "unat (ucast (drop_bit 32 x) :: u32) = unat x div 2 ^ 32" for x :: u64
proof -
  have "unat (drop_bit 32 x) < 2 ^ 32" unfolding unat_drop_bit using unat64_less [of x] by simp
  then show ?thesis using unat_narrow unat_drop_bit by metis
qed

lemma unat_add64: "unat x + unat y < 2 ^ 64 \<Longrightarrow> unat (x + y) = unat x + unat y" for x y :: u64
  unfolding unat_word_ariths(1) by simp

lemma unat_mult64: "unat x * unat y < 2 ^ 64 \<Longrightarrow> unat (x * y) = unat x * unat y" for x y :: u64
  unfolding unat_word_ariths(2) by simp

lemma divl_some:
  assumes "d \<noteq> 0" "unat n div unat d < 2 ^ 32"
  obtains q where "divl n d = Some q" "unat q = unat n div unat d"
proof -
  have "unat (n div ucast d) = unat n div unat d" by (simp only: unat_div unat_wide)
  then have "unat (ucast (n div ucast d) :: u32) = unat n div unat d" using assms(2) by (simp add: unat_narrow)
  then show ?thesis using that assms by (simp add: divl_def)
qed

lemma long_division_step:
  fixes v w :: nat
  assumes "0 < w"
  shows "(b * (v div b mod w) + v mod b) div w + b * (v div b div w) = v div w"
proof -
  have "v = b * (v div b) + v mod b" by simp
  also have "v div b = v div b mod w + w * (v div b div w)" by simp
  finally have "v = (b * (v div b mod w) + v mod b) + w * (b * (v div b div w))"
    by (simp only: distrib_left) (simp add: mult.left_commute)
  then have "v div w = ((b * (v div b mod w) + v mod b) + w * (b * (v div b div w))) div w" by simp
  then show ?thesis using assms by simp
qed

lemma udiv64_short:
  assumes "drop_bit 32 d = 0" "d \<noteq> 0"
  shows "udiv64 n d = Some (n div d)"
proof -
  define n1 n0 d0 where "n1 = (ucast (drop_bit 32 n) :: u32)" and "n0 = (ucast n :: u32)" and "d0 = (ucast d :: u32)"
  define b where "b = push_bit 32 (1 :: u64)"
  have b: "unat b = 2 ^ 32" by (simp add: b_def)
  have "unat d div 2 ^ 32 = 0" using assms(1) unat_drop_bit [of 32 d] by simp
  then have d0: "unat d0 = unat d" by (simp add: d0_def unat_low)
  then have pos: "0 < unat d" "d0 \<noteq> 0" using assms(2) by (metis unat_gt_0, metis unat_eq_zero)
  have n: "unat n1 = unat n div 2 ^ 32" "unat n0 = unat n mod 2 ^ 32"
    by (simp only: n1_def unat_high, simp only: n0_def unat_low)
  let ?r = "unat n1 mod unat d0"
  have r: "?r < 2 ^ 32" using unsigned_less [of "n1 mod d0", where 'a = nat] by (simp add: unat_mod)
  have n0: "unat n0 < 2 ^ 32" by (simp add: n(2))
  have prod: "unat (b * ucast (n1 mod d0)) = 2 ^ 32 * ?r"
    by (subst unat_mult64) (use r in \<open>simp_all add: b unat_wide unat_mod\<close>)
  have sum: "unat (b * ucast (n1 mod d0) + ucast n0) = 2 ^ 32 * ?r + unat n0"
    by (subst unat_add64) (use r n0 in \<open>simp_all add: prod unat_wide\<close>)
  have "2 ^ 32 * ?r + unat n0 < 2 ^ 32 * unat d0"
  proof -
    have "?r + 1 \<le> unat d0" using pos d0 by (simp add: Suc_leI)
    then have "2 ^ 32 * (?r + 1) \<le> 2 ^ 32 * unat d0" by simp
    then show ?thesis using n0 by simp
  qed
  then have "unat (b * ucast (n1 mod d0) + ucast n0) div unat d0 < 2 ^ 32"
    unfolding sum using pos d0 by (simp add: div_less_iff_less_mult)
  from divl_some [OF pos(2) this] obtain q where
    q: "divl (b * ucast (n1 mod d0) + ucast n0) d0 = Some q"
      "unat q = (2 ^ 32 * ?r + unat n0) div unat d0" unfolding sum .
  have total: "unat q + 2 ^ 32 * (unat n1 div unat d0) = unat n div unat d"
    unfolding q(2) n d0 by (rule long_division_step [OF pos(1)])
  have small: "unat n div unat d < 2 ^ 64" by (rule le_less_trans [OF div_le_dividend unat64_less])
  have p2: "unat (b * ucast (n1 div d0)) = 2 ^ 32 * (unat n1 div unat d0)"
    by (subst unat_mult64) (use total small in \<open>simp_all add: b unat_wide unat_div\<close>)
  have "unat (ucast q + b * ucast (n1 div d0)) = unat n div unat d"
    by (subst unat_add64) (use total small in \<open>simp_all add: p2 unat_wide\<close>)
  then have "ucast q + b * ucast (n1 div d0) = n div d" by (metis unat_div word_unat_eq_iff)
  moreover have "b = 4294967296" by (simp add: b_def)
  ultimately show ?thesis using assms(1) pos(2) q(1)
    by (simp add: udiv64_def n1_def [symmetric] n0_def [symmetric] d0_def [symmetric])
qed

text \<open>The correction after the estimate: one too large is noticed, the right quotient is kept.\<close>

lemma correct_estimate:
  fixes n d q :: u64
  assumes d: "d \<noteq> 0" and nd: "d \<le> n" and q: "unat q = unat n div unat d \<or> unat q = unat n div unat d + 1"
  shows "(if n - (q - 1) * d < d then q - 1 else q) = n div d"
proof -
  let ?Q = "unat n div unat d"
  have pos: "0 < unat d" "unat d \<le> unat n" using d nd by (simp_all add: unat_gt_0 word_le_nat_alt)
  then have Q: "1 \<le> ?Q" by (simp add: Suc_leI div_greater_zero_iff)
  then have q0: "q \<noteq> 0" using q by auto
  have q1: "unat (q - 1) = unat q - 1" by (rule unat_minus_one [OF q0])
  have le: "(unat q - 1) * unat d \<le> unat n"
  proof -
    have "unat q - 1 \<le> ?Q" using q by auto
    then show ?thesis using div_times_less_eq_dividend [of "unat n" "unat d"] by (meson le_trans mult_le_mono1)
  qed
  then have prod: "unat ((q - 1) * d) = (unat q - 1) * unat d"
    using unat64_less [of n] by (subst unat_mult64) (simp_all add: q1)
  then have diff: "unat (n - (q - 1) * d) = unat n - (unat q - 1) * unat d"
    using le by (simp add: unat_sub word_le_nat_alt)
  have m: "unat n = ?Q * unat d + unat n mod unat d" "unat n mod unat d < unat d" using pos by simp_all
  have test: "n - (q - 1) * d < d \<longleftrightarrow> unat q = ?Q + 1"
  proof (cases "unat q = ?Q")
    case True
    have "?Q * unat d = (?Q - 1) * unat d + unat d" using Q by (metis Suc_diff_1 Suc_le_lessD One_nat_def mult_Suc add.commute)
    then have "\<not> unat n - (?Q - 1) * unat d < unat d" using m by linarith
    then show ?thesis using True unfolding word_less_nat_alt diff by simp
  next
    case False
    then have "unat q = ?Q + 1" using q by blast
    then show ?thesis using m(2) unfolding word_less_nat_alt diff by (simp add: minus_div_mult_eq_mod)
  qed
  have "unat (if n - (q - 1) * d < d then q - 1 else q) = ?Q"
    unfolding test if_distrib [of unat] q1 using q by (elim disjE) simp_all
  then show ?thesis unfolding word_unat_eq_iff unat_div .
qed

lemma udiv64_long:
  assumes hi: "drop_bit 32 d \<noteq> 0" and nd: "d \<le> n"
  shows "udiv64 n d = Some (n div d)"
proof -
  define d1 where "d1 = (ucast (drop_bit 32 d) :: u32)"
  define s where "s = nlz d1"
  define v where "v = (ucast (drop_bit 32 (push_bit s d)) :: u32)"
  have d1: "unat d1 = unat d div 2 ^ 32" by (simp only: d1_def unat_high)
  have "unat d1 \<noteq> 0" using hi unfolding d1 unat_drop_bit [symmetric] by (metis unat_eq_zero)
  then have "d1 \<noteq> 0" by auto
  note z = nlz_normalises [OF this, folded s_def]
  have p: "2 ^ 32 = 2 ^ (32 - s) * (2 :: nat) ^ s" using z(1) by (simp add: power_add [symmetric])
  have "unat d1 < 2 ^ (32 - s)" using z(3) unfolding p by simp
  then have up: "unat d < 2 ^ (32 - s) * 2 ^ 32" unfolding d1 by (simp add: div_less_iff_less_mult)
  have norm: "2 ^ 63 \<le> unat d * 2 ^ s" "unat d * 2 ^ s < 2 ^ 64"
  proof -
    have "2 ^ 63 \<le> 2 ^ 32 * (unat d1 * 2 ^ s)" using z(2) by simp
    also have "\<dots> = (unat d1 * 2 ^ 32) * 2 ^ s" by simp
    also have "\<dots> \<le> unat d * 2 ^ s" unfolding d1 by (intro mult_le_mono1 div_times_less_eq_dividend)
    finally show "2 ^ 63 \<le> unat d * 2 ^ s" .
    have "unat d * 2 ^ s < (2 ^ (32 - s) * 2 ^ 32) * 2 ^ s" using up by simp
    also have "\<dots> = 2 ^ 64" using p by (simp add: mult.commute mult.left_commute)
    finally show "unat d * 2 ^ s < 2 ^ 64" .
  qed
  have v: "unat v = unat d * 2 ^ s div 2 ^ 32"
    unfolding v_def unat_high using norm(2) by (subst unat_push_bit_small) simp_all
  note cut = normalised_cut [OF z(1) norm unat64_less [of n], folded v]
  have half: "unat (drop_bit 1 n) = unat n div 2" using unat_drop_bit [of 1 n] by simp
  have "unat n div 2 < 2 ^ 63" using unat64_less [of n] by simp
  also have "\<dots> \<le> 2 ^ 32 * unat v" using cut(1) by simp
  finally have "unat (drop_bit 1 n) div unat v < 2 ^ 32"
    unfolding half using cut(1) by (simp add: div_less_iff_less_mult)
  moreover have "v \<noteq> 0" using cut(1) by auto
  ultimately obtain r where r: "divl (drop_bit 1 n) v = Some r" "unat r = unat n div 2 div unat v"
    using divl_some [of v "drop_bit 1 n"] unfolding half by blast
  define q where "q = (ucast (drop_bit (31 - s) r) :: u64)"
  have "unat q = unat n div 2 div unat v div 2 ^ (31 - s)" by (simp only: q_def unat_wide unat_drop_bit r(2))
  also have "\<dots> = unat n div (unat v * 2 ^ (32 - s))"
  proof -
    have "32 - s = Suc (31 - s)" using z(1) by simp
    then show ?thesis by (simp add: div_mult2_eq [symmetric] ac_simps)
  qed
  finally have "unat q = unat n div unat d \<or> unat q = unat n div unat d + 1"
    using quotient_estimate [OF cut(3,4,5)] by simp
  moreover have "d \<noteq> 0" using hi by auto
  ultimately have "(if n - (q - 1) * d < d then q - 1 else q) = n div d" using nd by (intro correct_estimate)
  then show ?thesis using hi nd r(1)
    by (simp add: udiv64_def d1_def [symmetric] s_def [symmetric] v_def [symmetric] q_def [symmetric] not_less [symmetric])
qed

lemma udiv64_div:
  assumes "d \<noteq> 0"
  shows "udiv64 n d = Some (n div d)"
proof (cases "drop_bit 32 d = 0 \<or> d \<le> n")
  case True
  then show ?thesis using assms udiv64_short udiv64_long by blast
next
  case False
  then have "n div d = 0" by (simp add: word_le_nat_alt div_word_less word_less_nat_alt not_le)
  then show ?thesis using False by (simp add: udiv64_def not_le)
qed

section \<open>Signed division\<close>

lemma abs_word: "unat (if 0 \<le> sint x then x else - x) = nat \<bar>sint x\<bar>" for x :: u64
proof (cases "0 \<le> sint x")
  case True
  then have "sint x = uint x" using sint_lt [of x] by (simp add: uint_sint take_bit_int_eq_self)
  then show ?thesis using True by simp
next
  case False
  have "uint (- x) = - sint x"
  proof -
    have "- x = word_of_int (- sint x)" by simp
    moreover have "- sint x \<le> 2 ^ 63" using sint_ge [of x] by simp
    ultimately show ?thesis using False by (simp only: uint_word_of_int_eq) (simp add: take_bit_int_eq_self)
  qed
  then show ?thesis using False by (simp add: unat_eq_nat_uint)
qed

lemma sdiv64_div:
  assumes "d \<noteq> 0"
  shows "sdiv64 n d = Some (word_of_int (sint n sdiv sint d))"
proof -
  define na da where "na = (if 0 \<le> sint n then n else - n)" and "da = (if 0 \<le> sint d then d else - d)"
  have abs: "uint na = \<bar>sint n\<bar>" "uint da = \<bar>sint d\<bar>"
    unfolding na_def da_def uint_nat abs_word by simp_all
  have "da \<noteq> 0" using assms by (simp add: da_def)
  then have q: "udiv64 na da = Some (na div da)" by (rule udiv64_div)
  have w: "na div da = word_of_int (\<bar>sint n\<bar> div \<bar>sint d\<bar>)" by (simp only: word_div_def abs)
  have d0: "sint d \<noteq> 0" using assms by (simp only: signed_eq_0_iff) simp
  have "(if (sint n < 0) = (sint d < 0) then na div da else - (na div da)) = word_of_int (sint n sdiv sint d)"
    unfolding w using d0 by (auto simp: signed_divide_int_def sgn_if)
  then show ?thesis
    by (simp only: sdiv64_def na_def [symmetric] da_def [symmetric] q Let_def bind.bind_lunit)
qed

lemma umod64_mod:
  assumes "d \<noteq> 0"
  shows "umod64 n d = Some (ucast (n mod d))"
  by (simp add: umod64_def udiv64_div [OF assms] minus_mult_div_eq_mod)

section \<open>Properties\<close>

text \<open>
  C21. For every dividend and every nonzero divisor the division routine that the compiler calls
  for unsigned 64-bit division returns, without a divide error, the exact quotient. This covers
  the short case (two 32-bit divisions) and the long case (an estimate from the normalised
  divisor that is corrected by one).
\<close>

theorem udivdi3_correct:
  assumes "d \<noteq> 0"
  shows "udivdi3 n d = Some (n div d)"
  using udiv64_div [OF assms] by (simp add: udivdi3_def)

theorem udivdi3_correct_witness: "udivdi3 0xFFFFFFFFFFFFFFFF 0x100000001 = Some 0xFFFFFFFF"
  using udivdi3_correct [of "0x100000001" "0xFFFFFFFFFFFFFFFF"] by simp

text \<open>
  C22. Signed 64-bit division returns the quotient truncated towards zero for every dividend and
  every nonzero divisor; the one quotient that does not fit, the least value divided by -1, wraps
  around.
\<close>

theorem divdi3_correct:
  assumes "d \<noteq> 0"
  shows "divdi3 n d = Some (word_of_int (sint n sdiv sint d))"
  using sdiv64_div [OF assms] by (simp add: divdi3_def)

theorem divdi3_correct_witness: "divdi3 (- 7) 2 = Some (- 3)"
  using divdi3_correct [of 2 "- 7"] by (simp add: signed_divide_int_def)

text \<open>
  C23. Unsigned 64-bit remainder. The helper returns a 32-bit value, so the entry point the
  compiler calls returns the remainder exactly when it fits in 32 bits, and otherwise a wrong
  value, the remainder cut to its low 32 bits.
\<close>

theorem umoddi3_truncates:
  assumes "d \<noteq> 0"
  shows "umoddi3 n d = Some (take_bit 32 (n mod d)) \<and>
    (umoddi3 n d = Some (n mod d) \<longleftrightarrow> unat (n mod d) < 2 ^ 32)"
proof -
  have w: "ucast (ucast x :: u32) = take_bit 32 x" for x :: u64
    by (rule bit_word_eqI) (simp add: bit_ucast_iff bit_take_bit_iff)
  have "take_bit 32 x = x \<longleftrightarrow> unat x < 2 ^ 32" for x :: u64
    unfolding word_unat_eq_iff unsigned_take_bit_eq by (rule take_bit_nat_eq_self_iff)
  then show ?thesis by (simp add: umoddi3_def umod64_mod [OF assms] w)
qed

theorem umoddi3_truncates_witness: "umoddi3 0x500000007 0x1000000000 = Some 7"
  using umoddi3_truncates [of "0x1000000000" "0x500000007"] by (simp add: take_bit_eq_mod)

end
