(* ===== verification/Lib_Stdlib.thy ===== *)
theory Lib_Stdlib
  imports Lib_String
begin

text \<open>
  \<^verbatim>\<open>lib/stdlib.c\<close>: heap sort, binary search and \<^verbatim>\<open>atoi\<close>. An array of
  \<^verbatim>\<open>cnt\<close> elements of \<^verbatim>\<open>size\<close> bytes is the list of its elements, each a list of
  bytes; an access outside the array is \<^term>\<open>None\<close>. The comparison function of the caller is
  an argument, with its auxiliary data already applied.
\<close>

type_synonym elem = "byte list"
type_synonym compare = "elem \<Rightarrow> elem \<Rightarrow> int"

section \<open>Heap sort\<close>

text \<open>The element with a 1-based index.\<close>

definition elem_at :: "elem list \<Rightarrow> nat \<Rightarrow> elem option" where
  "elem_at array idx = (if 1 \<le> idx \<and> idx \<le> length array then Some (array ! (idx - 1)) else None)"

definition swap_elem_byte :: "nat \<Rightarrow> nat \<Rightarrow> nat \<Rightarrow> elem list \<Rightarrow> elem list" where
  "swap_elem_byte a b i array = (
     let t = array ! a ! i;
         array = array[a := (array ! a)[i := array ! b ! i]]
     in array[b := (array ! b)[i := t]])"

definition do_swap :: "elem list \<Rightarrow> nat \<Rightarrow> nat \<Rightarrow> nat \<Rightarrow> elem list option" where
  "do_swap array a_idx b_idx sz = do {
     _ \<leftarrow> elem_at array a_idx;
     _ \<leftarrow> elem_at array b_idx;
     Some (fold (swap_elem_byte (a_idx - 1) (b_idx - 1)) [0..<sz] array)
   }"

definition do_compare :: "elem list \<Rightarrow> nat \<Rightarrow> nat \<Rightarrow> compare \<Rightarrow> int option" where
  "do_compare array a_idx b_idx compare = do {
     a \<leftarrow> elem_at array a_idx;
     b \<leftarrow> elem_at array b_idx;
     Some (compare a b)
   }"

text \<open>The choice of the largest among a node and its children.\<close>

definition heapify_max :: "elem list \<Rightarrow> nat \<Rightarrow> nat \<Rightarrow> compare \<Rightarrow> nat option" where
  "heapify_max array i cnt compare = do {
     let left = 2 * i;
     let right = 2 * i + 1;
     max \<leftarrow> (if left \<le> cnt then do {
              c \<leftarrow> do_compare array left i compare;
              Some (if c > 0 then left else i)
            } else Some i);
     (if right \<le> cnt then do {
        c \<leftarrow> do_compare array right max compare;
        Some (if c > 0 then right else max)
      } else Some max)
   }"

partial_function (option) heapify ::
  "elem list \<Rightarrow> nat \<Rightarrow> nat \<Rightarrow> nat \<Rightarrow> compare \<Rightarrow> elem list option" where
  [code]: "heapify array i cnt sz compare = do {
     max \<leftarrow> heapify_max array i cnt compare;
     if max = i then Some array
     else do {
       array \<leftarrow> do_swap array i max sz;
       heapify array max cnt sz compare
     }
   }"

fun build_heap :: "nat \<Rightarrow> elem list \<Rightarrow> nat \<Rightarrow> nat \<Rightarrow> compare \<Rightarrow> elem list option" where
  "build_heap 0 array cnt sz compare = Some array"
| "build_heap (Suc i) array cnt sz compare = do {
     array \<leftarrow> heapify array (Suc i) cnt sz compare;
     build_heap i array cnt sz compare
   }"

fun sort_heap :: "nat \<Rightarrow> elem list \<Rightarrow> nat \<Rightarrow> compare \<Rightarrow> elem list option" where
  "sort_heap (Suc (Suc i)) array sz compare = do {
     array \<leftarrow> do_swap array 1 (Suc (Suc i)) sz;
     array \<leftarrow> heapify array 1 (Suc i) sz compare;
     sort_heap (Suc i) array sz compare
   }"
| "sort_heap i array sz compare = Some array"

text \<open>\<^verbatim>\<open>sort\<close>; \<^verbatim>\<open>qsort\<close> calls it through \<^verbatim>\<open>compare_thunk\<close>.\<close>

definition sort_array :: "elem list \<Rightarrow> nat \<Rightarrow> nat \<Rightarrow> compare \<Rightarrow> elem list option" where
  "sort_array array cnt sz compare = do {
     kassert (sz > 0);
     array \<leftarrow> build_heap (cnt div 2) array cnt sz compare;
     sort_heap cnt array sz compare
   }"

definition compare_thunk :: "compare \<Rightarrow> compare" where
  "compare_thunk aux a b = aux a b"

definition qsort :: "elem list \<Rightarrow> nat \<Rightarrow> nat \<Rightarrow> compare \<Rightarrow> elem list option" where
  "qsort array cnt sz compare = sort_array array cnt sz (compare_thunk compare)"

section \<open>Binary search\<close>

text \<open>\<^verbatim>\<open>first\<close> and \<^verbatim>\<open>last\<close> as element offsets; the result is the offset of the match.\<close>

function binary_search_loop :: "nat \<Rightarrow> nat \<Rightarrow> elem \<Rightarrow> elem list \<Rightarrow> compare \<Rightarrow> nat option option" where
  "binary_search_loop first lst key array compare =
    (if first < lst then
       let range = lst - first;
           middle = first + range div 2
       in if middle < length array then
            let cmp = compare key (array ! middle)
            in if cmp < 0 then binary_search_loop first middle key array compare
               else if cmp > 0 then binary_search_loop (middle + 1) lst key array compare
               else Some (Some middle)
          else None
     else Some None)"
  by pat_completeness auto
termination by (relation "measure (\<lambda>(first, lst, key, array, compare). lst - first)") auto

declare binary_search_loop.simps [simp del]

definition binary_search :: "elem \<Rightarrow> elem list \<Rightarrow> nat \<Rightarrow> compare \<Rightarrow> nat option option" where
  "binary_search key array cnt compare = binary_search_loop 0 cnt key array compare"

definition bsearch :: "elem \<Rightarrow> elem list \<Rightarrow> nat \<Rightarrow> compare \<Rightarrow> nat option option" where
  "bsearch key array cnt compare = binary_search key array cnt (compare_thunk compare)"

section \<open>Numbers from strings\<close>

text \<open>The character classes of \<^verbatim>\<open>lib/ctype.h\<close> that \<^verbatim>\<open>atoi\<close> uses.\<close>

definition isspace :: "byte \<Rightarrow> bool" where
  "isspace c \<longleftrightarrow> c = 32 \<or> c = 12 \<or> c = 10 \<or> c = 13 \<or> c = 9 \<or> c = 11"

definition isdigit :: "byte \<Rightarrow> bool" where
  "isdigit c \<longleftrightarrow> 48 \<le> c \<and> c \<le> 57"

partial_function (option) atoi_space :: "nat \<Rightarrow> cmem \<Rightarrow> nat option" where
  [code]: "atoi_space s m = (if isspace (m s) then atoi_space (s + 1) m else Some s)"

text \<open>The value is accumulated as a negative \<^verbatim>\<open>int\<close>, which wraps around.\<close>

partial_function (option) atoi_digits :: "u32 \<Rightarrow> nat \<Rightarrow> cmem \<Rightarrow> u32 option" where
  [code]: "atoi_digits v s m =
    (if isdigit (m s) then atoi_digits (v * 10 - (ucast (m s) - 48)) (s + 1) m else Some v)"

definition atoi :: "nat \<Rightarrow> cmem \<Rightarrow> u32 option" where
  "atoi s m = do {
     kassert (s \<noteq> NULL);
     s \<leftarrow> atoi_space s m;
     let (negative, s) = (if m s = 43 then (False, s + 1)
                          else if m s = 45 then (True, s + 1) else (False, s));
     v \<leftarrow> atoi_digits 0 s m;
     Some (if \<not> negative then - v else v)
   }"

section \<open>Swapping\<close>

lemma swap_elem_byte_fold:
  assumes "a < length xs" "b < length xs" "a \<noteq> b" "length (xs ! a) = sz" "length (xs ! b) = sz" "n \<le> sz"
  shows "fold (swap_elem_byte a b) [0..<n] xs =
    xs[a := take n (xs ! b) @ drop n (xs ! a), b := take n (xs ! a) @ drop n (xs ! b)]"
  using assms(6)
proof (induction n)
  case 0
  then show ?case by simp
next
  case (Suc n)
  then have IH: "fold (swap_elem_byte a b) [0..<n] xs =
    xs[a := take n (xs ! b) @ drop n (xs ! a), b := take n (xs ! a) @ drop n (xs ! b)]" and n: "n < sz"
    by simp_all
  have step: "(take n ys @ drop n zs)[n := ys ! n] = take (Suc n) ys @ drop (Suc n) zs"
    if "length ys = sz" "length zs = sz" for ys zs :: elem
    using that n by (intro nth_equalityI) (auto simp: nth_append nth_list_update min_def less_Suc_eq)
  have "fold (swap_elem_byte a b) [0..<Suc n] xs =
    swap_elem_byte a b n (xs[a := take n (xs ! b) @ drop n (xs ! a), b := take n (xs ! a) @ drop n (xs ! b)])"
    by (simp add: IH)
  also have "\<dots> = xs[a := (take n (xs ! b) @ drop n (xs ! a))[n := xs ! b ! n],
                     b := (take n (xs ! a) @ drop n (xs ! b))[n := xs ! a ! n]]"
    using assms(1-5) n
    by (simp add: swap_elem_byte_def Let_def nth_append list_update_swap [of a b] min_def)
  also have "\<dots> = xs[a := take (Suc n) (xs ! b) @ drop (Suc n) (xs ! a),
                     b := take (Suc n) (xs ! a) @ drop (Suc n) (xs ! b)]"
    by (simp add: step assms(4,5))
  finally show ?case .
qed

lemma swap_elem_byte_same: "swap_elem_byte a a i xs = xs"
  by (cases "a < length xs") (simp_all add: swap_elem_byte_def Let_def)

text \<open>Arrays of the given shape, and the exchange of two of their elements.\<close>

definition array_ok :: "nat \<Rightarrow> elem list \<Rightarrow> bool" where
  "array_ok sz xs \<longleftrightarrow> (\<forall>x \<in> set xs. length x = sz)"

definition swapped :: "elem list \<Rightarrow> nat \<Rightarrow> nat \<Rightarrow> elem list" where
  "swapped xs a b = xs[a - 1 := xs ! (b - 1), b - 1 := xs ! (a - 1)]"

lemma do_swap_some:
  assumes "array_ok sz xs" "1 \<le> a" "a \<le> length xs" "1 \<le> b" "b \<le> length xs"
  shows "do_swap xs a b sz = Some (swapped xs a b)"
proof -
  have "length (xs ! (a - 1)) = sz" "length (xs ! (b - 1)) = sz"
    using assms by (simp_all add: array_ok_def)
  moreover have "fold (swap_elem_byte c c) ks xs = xs" for c ks
    by (induction ks) (simp_all add: swap_elem_byte_same)
  ultimately show ?thesis
    using assms swap_elem_byte_fold [of "a - 1" xs "b - 1" sz sz]
    by (cases "a = b") (auto simp: do_swap_def elem_at_def swapped_def)
qed

lemma swapped_props:
  assumes "1 \<le> a" "a \<le> length xs" "1 \<le> b" "b \<le> length xs"
  shows "length (swapped xs a b) = length xs" "mset (swapped xs a b) = mset xs"
    "set (swapped xs a b) = set xs"
    "\<And>k. 1 \<le> k \<Longrightarrow> k \<le> length xs \<Longrightarrow> swapped xs a b ! (k - 1) =
       (if k = a then xs ! (b - 1) else if k = b then xs ! (a - 1) else xs ! (k - 1))"
    "\<And>n. a \<le> n \<Longrightarrow> b \<le> n \<Longrightarrow> drop n (swapped xs a b) = drop n xs"
proof -
  show m: "mset (swapped xs a b) = mset xs" unfolding swapped_def using assms by (intro mset_swap) auto
  then show "set (swapped xs a b) = set xs" by (metis set_mset_mset)
  show "length (swapped xs a b) = length xs" by (simp add: swapped_def)
  show "swapped xs a b ! (k - 1) = (if k = a then xs ! (b - 1) else if k = b then xs ! (a - 1) else xs ! (k - 1))"
    if "1 \<le> k" "k \<le> length xs" for k
    using assms that by (auto simp: swapped_def nth_list_update)
  show "drop n (swapped xs a b) = drop n xs" if "a \<le> n" "b \<le> n" for n
    using assms that by (simp add: swapped_def drop_update_cancel)
qed

lemma array_ok_set: "set ys = set xs \<Longrightarrow> array_ok sz ys = array_ok sz xs"
  by (simp add: array_ok_def)

section \<open>Heaps\<close>

text \<open>What the sort relies on: a comparison of the \<^verbatim>\<open>strcmp\<close> kind.\<close>

definition comparator :: "compare \<Rightarrow> bool" where
  "comparator c \<longleftrightarrow>
    (\<forall>x y. c x y > 0 \<longleftrightarrow> c y x < 0) \<and> (\<forall>x y z. c x y \<le> 0 \<longrightarrow> c y z \<le> 0 \<longrightarrow> c x z \<le> 0)"

abbreviation le_at :: "compare \<Rightarrow> elem list \<Rightarrow> nat \<Rightarrow> nat \<Rightarrow> bool" where
  "le_at c xs j k \<equiv> c (xs ! (j - 1)) (xs ! (k - 1)) \<le> 0"

lemma comparator_flip: "comparator c \<Longrightarrow> \<not> c x y \<le> 0 \<Longrightarrow> c y x \<le> 0"
  unfolding comparator_def by (metis less_imp_le not_le)

lemma comparator_gt: "comparator c \<Longrightarrow> 0 < c x y \<Longrightarrow> c y x \<le> 0"
  using comparator_flip by (metis not_le)

lemma comparator_trans: "comparator c \<Longrightarrow> c x y \<le> 0 \<Longrightarrow> c y z \<le> 0 \<Longrightarrow> c x z \<le> 0"
  unfolding comparator_def by blast

lemma comparator_refl: "comparator c \<Longrightarrow> c x x \<le> 0"
  using comparator_flip by blast

definition heap_from :: "compare \<Rightarrow> nat \<Rightarrow> nat \<Rightarrow> elem list \<Rightarrow> bool" where
  "heap_from c k n xs \<longleftrightarrow> (\<forall>j. 2 \<le> j \<and> j \<le> n \<and> k \<le> j div 2 \<longrightarrow> le_at c xs j (j div 2))"

text \<open>A heap from node \<open>k\<close> on, except that node \<open>i\<close> may be smaller than its children.\<close>

definition heap_except :: "compare \<Rightarrow> nat \<Rightarrow> nat \<Rightarrow> nat \<Rightarrow> elem list \<Rightarrow> bool" where
  "heap_except c k i n xs \<longleftrightarrow>
    (\<forall>j. 2 \<le> j \<and> j \<le> n \<and> k \<le> j div 2 \<and> j div 2 \<noteq> i \<longrightarrow> le_at c xs j (j div 2)) \<and>
    (\<forall>j. 2 \<le> j \<and> j \<le> n \<and> j div 2 = i \<and> 2 \<le> i \<and> k \<le> i div 2 \<longrightarrow> le_at c xs j (i div 2))"

lemma heapify_max_some:
  assumes c: "comparator c" and i: "1 \<le> i" "i \<le> n" "n \<le> length xs"
  obtains mx where "heapify_max xs i n c = Some mx" "mx \<le> n" "mx = i \<or> mx div 2 = i \<and> i < mx"
    "le_at c xs i mx" "\<And>j. 2 \<le> j \<Longrightarrow> j \<le> n \<Longrightarrow> j div 2 = i \<Longrightarrow> le_at c xs j mx"
proof -
  define m1 where "m1 = (if 2 * i \<le> n \<and> c (xs ! (2 * i - 1)) (xs ! (i - 1)) > 0 then 2 * i else i)"
  define mx where "mx = (if 2 * i + 1 \<le> n \<and> c (xs ! (2 * i + 1 - 1)) (xs ! (m1 - 1)) > 0 then 2 * i + 1 else m1)"
  have m1: "1 \<le> m1" "m1 \<le> n" "m1 = i \<or> m1 = 2 * i" using i by (auto simp: m1_def)
  have run: "heapify_max xs i n c = Some mx"
    using i m1(1,2) by (auto simp: heapify_max_def do_compare_def elem_at_def m1_def mx_def Let_def)
  have a: "le_at c xs i m1" "2 * i \<le> n \<Longrightarrow> le_at c xs (2 * i) m1"
    by (auto simp: m1_def not_less intro: comparator_refl [OF c] comparator_gt [OF c])
  have b: "le_at c xs m1 mx" "2 * i + 1 \<le> n \<Longrightarrow> le_at c xs (2 * i + 1) mx"
    by (auto simp: mx_def not_less intro: comparator_refl [OF c] comparator_gt [OF c])
  show ?thesis
  proof (rule that [OF run])
    show "mx \<le> n" "mx = i \<or> mx div 2 = i \<and> i < mx" using m1 i by (auto simp: mx_def)
    show "le_at c xs i mx" by (rule comparator_trans [OF c a(1) b(1)])
    show "le_at c xs j mx" if "2 \<le> j" "j \<le> n" "j div 2 = i" for j
    proof -
      have "j = 2 * i \<or> j = 2 * i + 1" using that(3) by presburger
      then show ?thesis using a(2) b that(2) comparator_trans [OF c] by blast
    qed
  qed
qed

lemma heap_except_swap:
  assumes h: "heap_except c k i n xs" and i: "1 \<le> i" "i \<le> n" "n \<le> length xs" "k \<le> i"
    and mx: "mx \<le> n" "mx div 2 = i" "i < mx" "le_at c xs i mx"
    and kids: "\<And>j. 2 \<le> j \<Longrightarrow> j \<le> n \<Longrightarrow> j div 2 = i \<Longrightarrow> le_at c xs j mx"
  shows "heap_except c k mx n (swapped xs i mx)"
proof -
  have pr: "1 \<le> i" "i \<le> length xs" "1 \<le> mx" "mx \<le> length xs" using i mx by linarith+
  have at: "swapped xs i mx ! (j - 1) = (if j = i then xs ! (mx - 1) else if j = mx then xs ! (i - 1) else xs ! (j - 1))"
    if "1 \<le> j" "j \<le> n" for j using swapped_props(4) [OF pr] that i(3) by simp
  have h1: "le_at c xs j (j div 2)" if "2 \<le> j" "j \<le> n" "k \<le> j div 2" "j div 2 \<noteq> i" for j
    using h that unfolding heap_except_def by blast
  have h2: "le_at c xs j (i div 2)" if "2 \<le> j" "j \<le> n" "j div 2 = i" "2 \<le> i" "k \<le> i div 2" for j
    using h that unfolding heap_except_def by blast
  have first: "le_at c (swapped xs i mx) j (j div 2)"
    if j: "2 \<le> j" "j \<le> n" "k \<le> j div 2" "j div 2 \<noteq> mx" for j
  proof -
    have d: "1 \<le> j div 2" "j div 2 \<le> n" "j div 2 < j" using j by linarith+
    consider "j = mx" | "j \<noteq> mx" "j div 2 = i" | "j = i" | "j \<noteq> mx" "j \<noteq> i" "j div 2 \<noteq> i" by blast
    then show ?thesis
    proof cases
      case 1
      then show ?thesis using mx d j at [of j] at [of "j div 2"] by simp
    next
      case 2
      then show ?thesis using kids [OF j(1,2)] d j at [of j] at [of "j div 2"] by simp
    next
      case 3
      then have i2: "i div 2 \<noteq> i" "i div 2 \<noteq> mx" "2 \<le> i" "1 \<le> i div 2" "i div 2 \<le> n" "k \<le> i div 2"
        using d j by simp_all
      have "2 \<le> mx" using i mx(3) by linarith
      from h2 [OF this mx(1,2) i2(3,6)] show ?thesis
        unfolding 3 at [OF i(1,2)] at [OF i2(4,5)] using i2(1,2) by simp
    next
      case 4
      then show ?thesis using h1 [of j] d j at [of j] at [of "j div 2"] by simp
    qed
  qed
  have second: "le_at c (swapped xs i mx) j (mx div 2)" if j: "2 \<le> j" "j \<le> n" "j div 2 = mx" for j
  proof -
    have "j \<noteq> mx" "j \<noteq> i" "1 \<le> j" using j mx(3) i(1) by linarith+
    then show ?thesis using h1 [of j] mx i j at [of j] at [of i] by simp
  qed
  show ?thesis unfolding heap_except_def using first second by blast
qed

lemma heapify_some:
  assumes c: "comparator c"
  shows "1 \<le> i \<Longrightarrow> i \<le> n \<Longrightarrow> n \<le> length xs \<Longrightarrow> k \<le> i \<Longrightarrow> array_ok sz xs \<Longrightarrow> heap_except c k i n xs \<Longrightarrow>
    \<exists>ys. heapify xs i n sz c = Some ys \<and> mset ys = mset xs \<and> drop n ys = drop n xs \<and> heap_from c k n ys"
proof (induction "n - i" arbitrary: i xs rule: less_induct)
  case less
  note i = less.prems(1-4)
  from heapify_max_some [OF c i(1-3)] obtain mx where
    run: "heapify_max xs i n c = Some mx" and mx: "mx \<le> n" "mx = i \<or> mx div 2 = i \<and> i < mx"
      "le_at c xs i mx" "\<And>j. 2 \<le> j \<Longrightarrow> j \<le> n \<Longrightarrow> j div 2 = i \<Longrightarrow> le_at c xs j mx" by blast
  show ?case
  proof (cases "mx = i")
    case True
    have "le_at c xs j (j div 2)" if j: "2 \<le> j" "j \<le> n" "k \<le> j div 2" for j
      using less.prems(6) mx(4) [OF j(1,2)] j True unfolding heap_except_def by (cases "j div 2 = i") auto
    then have "heap_from c k n xs" unfolding heap_from_def by blast
    then show ?thesis using run True by (simp add: heapify.simps [of xs])
  next
    case False
    then have m: "mx div 2 = i" "i < mx" using mx(2) by blast+
    have pr: "1 \<le> i" "i \<le> length xs" "1 \<le> mx" "mx \<le> length xs" using i mx(1) m by linarith+
    let ?ys = "swapped xs i mx"
    have "heap_except c k mx n ?ys"
      by (rule heap_except_swap [OF less.prems(6) i mx(1) m mx(3,4)])
    moreover have "array_ok sz ?ys" using less.prems(5) array_ok_set [OF swapped_props(3) [OF pr]] by simp
    moreover have "n - mx < n - i" "1 \<le> mx" "k \<le> mx" "n \<le> length ?ys"
      using m mx(1) i swapped_props(1) [OF pr] by linarith+
    ultimately obtain zs where zs: "heapify ?ys mx n sz c = Some zs" "mset zs = mset ?ys"
      "drop n zs = drop n ?ys" "heap_from c k n zs"
      using less.hyps [of mx ?ys] mx(1) by blast
    moreover have "heapify xs i n sz c = heapify ?ys mx n sz c"
      using run False do_swap_some [OF less.prems(5) pr] by (simp add: heapify.simps [of xs])
    ultimately show ?thesis using swapped_props(2) [OF pr] swapped_props(5) [OF pr i(2) mx(1)] by simp
  qed
qed

lemma build_heap_some:
  assumes c: "comparator c" and n: "n \<le> length xs" "array_ok sz xs" "i \<le> n" "heap_from c (Suc i) n xs"
  shows "\<exists>ys. build_heap i xs n sz c = Some ys \<and> mset ys = mset xs \<and> drop n ys = drop n xs \<and> heap_from c 1 n ys"
  using n
proof (induction i arbitrary: xs)
  case 0
  then show ?case by simp
next
  case (Suc i)
  have "heap_except c (Suc i) (Suc i) n xs"
    unfolding heap_except_def
  proof (intro conjI allI impI)
    fix j
    assume "2 \<le> j \<and> j \<le> n \<and> Suc i \<le> j div 2 \<and> j div 2 \<noteq> Suc i"
    then show "le_at c xs j (j div 2)" using Suc.prems(4) unfolding heap_from_def by simp
  next
    fix j
    assume "2 \<le> j \<and> j \<le> n \<and> j div 2 = Suc i \<and> 2 \<le> Suc i \<and> Suc i \<le> Suc i div 2"
    then have False by linarith
    then show "le_at c xs j (Suc i div 2)" ..
  qed
  moreover have "1 \<le> Suc i" by simp
  ultimately obtain ys where ys: "heapify xs (Suc i) n sz c = Some ys" "mset ys = mset xs"
    "drop n ys = drop n xs" "heap_from c (Suc i) n ys"
    using heapify_some [OF c _ Suc.prems(3) Suc.prems(1) le_refl Suc.prems(2)] by blast
  have "length ys = length xs" "set ys = set xs" using ys(2) by (metis size_mset, metis set_mset_mset)
  then have "array_ok sz ys" "n \<le> length ys" "i \<le> n"
    using Suc.prems(1-3) by (simp_all add: array_ok_def)
  from Suc.IH [OF this(2,1,3) ys(4)] show ?case using ys(1-3) by simp
qed

lemma heap_root_max:
  assumes c: "comparator c" and h: "heap_from c 1 n xs"
  shows "1 \<le> j \<Longrightarrow> j \<le> n \<Longrightarrow> le_at c xs j 1"
proof (induction j rule: less_induct)
  case (less j)
  show ?case
  proof (cases "j = 1")
    case True
    then show ?thesis using comparator_refl [OF c] by simp
  next
    case False
    then have "2 \<le> j" "1 \<le> j div 2" "j div 2 < j" "j div 2 \<le> n" using less.prems by linarith+
    moreover from this have "le_at c xs j (j div 2)" using h less.prems unfolding heap_from_def by blast
    ultimately show ?thesis using less.IH comparator_trans [OF c] by blast
  qed
qed

section \<open>Sorting\<close>

text \<open>The state of the second loop: a heap of the first \<open>i\<close> elements below a sorted tail.\<close>

definition sorting :: "compare \<Rightarrow> nat \<Rightarrow> elem list \<Rightarrow> bool" where
  "sorting c i xs \<longleftrightarrow> heap_from c 1 i xs \<and> sorted_wrt (\<lambda>x y. c x y \<le> 0) (drop i xs) \<and>
    (\<forall>x \<in> set (take i xs). \<forall>y \<in> set (drop i xs). c x y \<le> 0)"

lemma set_take_perm:
  assumes "mset ys = mset xs" "drop n ys = drop n xs"
  shows "set (take n ys) = set (take n xs)"
proof -
  have "mset (take n ys) + mset (drop n ys) = mset (take n xs) + mset (drop n xs)"
    using assms(1) by (simp flip: mset_append)
  then have "mset (take n ys) = mset (take n xs)" using assms(2) by simp
  then show ?thesis by (metis set_mset_mset)
qed

lemma sort_step:
  assumes c: "comparator c" and i: "2 \<le> i" "i \<le> length xs" and ok: "array_ok sz xs" and inv: "sorting c i xs"
  shows "\<exists>ys zs. do_swap xs 1 i sz = Some ys \<and> heapify ys 1 (i - 1) sz c = Some zs \<and>
    mset zs = mset xs \<and> sorting c (i - 1) zs"
proof -
  have pr: "1 \<le> (1::nat)" "1 \<le> length xs" "1 \<le> i" "i \<le> length xs" using i by linarith+
  let ?ys = "swapped xs 1 i"
  note sw = swapped_props [OF pr]
  have heap: "heap_from c 1 i xs" using inv by (simp add: sorting_def)
  have "le_at c ?ys j (j div 2)" if j: "2 \<le> j" "j \<le> i - 1" "j div 2 \<noteq> 1" for j
  proof -
    have "1 \<le> j" "j \<le> length xs" "1 \<le> j div 2" "j div 2 \<le> length xs" "j \<noteq> 1" "j \<noteq> i" "j div 2 \<noteq> i"
      using j i by linarith+
    then have "?ys ! (j - 1) = xs ! (j - 1)" "?ys ! (j div 2 - 1) = xs ! (j div 2 - 1)"
      using sw(4) [of j] sw(4) [of "j div 2"] j(3) by simp_all
    moreover have "j \<le> i" using j(2) by simp
    then have "le_at c xs j (j div 2)" using heap j \<open>1 \<le> j div 2\<close> unfolding heap_from_def by blast
    ultimately show ?thesis by simp
  qed
  then have ex: "heap_except c 1 1 (i - 1) ?ys" by (simp add: heap_except_def)
  have "array_ok sz ?ys" using ok sw(3) by (simp add: array_ok_def)
  moreover have "1 \<le> i - 1" "i - 1 \<le> length ?ys" using i sw(1) by linarith+
  ultimately obtain zs where zs: "heapify ?ys 1 (i - 1) sz c = Some zs" "mset zs = mset ?ys"
    "drop (i - 1) zs = drop (i - 1) ?ys" "heap_from c 1 (i - 1) zs"
    using heapify_some [OF c le_refl _ _ le_refl _ ex] by blast
  have top: "?ys ! (i - 1) = xs ! 0" using sw(4) [of i] i by simp
  have "drop (i - 1) ?ys = ?ys ! (i - 1) # drop (Suc (i - 1)) ?ys"
    by (rule Cons_nth_drop_Suc [symmetric]) (use i sw(1) in linarith)
  then have tail: "drop (i - 1) zs = xs ! 0 # drop i xs" using zs(3) top sw(5) [of i] i by simp
  have take: "set (take (i - 1) zs) \<subseteq> set (take i xs)"
  proof -
    have "set (take (i - 1) zs) = set (take (i - 1) ?ys)" using set_take_perm zs(2,3) by blast
    also have "\<dots> \<subseteq> set (take i ?ys)" by (rule set_take_subset_set_take) simp
    also have "\<dots> = set (take i xs)" by (rule set_take_perm) (use sw(2) sw(5) [of i] i in auto)
    finally show ?thesis .
  qed
  have root: "c x (xs ! 0) \<le> 0" if "x \<in> set (take i xs)" for x
  proof -
    from that obtain j where "j < i" "x = xs ! j" using i by (auto simp: in_set_conv_nth)
    then show ?thesis using heap_root_max [OF c heap, of "Suc j"] by simp
  qed
  have x0: "xs ! 0 \<in> set (take i xs)"
    using i by (metis Suc_le_lessD gr0I in_set_conv_nth length_take min.absorb2 not_numeral_le_zero nth_take numeral_2_eq_2)
  have "sorting c (i - 1) zs"
    using inv zs(4) take root x0 unfolding sorting_def tail by auto
  then show ?thesis using do_swap_some [OF ok pr] zs(1,2) sw(2) by auto
qed

lemma sort_heap_some:
  assumes c: "comparator c"
  shows "i \<le> length xs \<Longrightarrow> array_ok sz xs \<Longrightarrow> sorting c i xs \<Longrightarrow>
    \<exists>ys. sort_heap i xs sz c = Some ys \<and> mset ys = mset xs \<and> sorted_wrt (\<lambda>x y. c x y \<le> 0) ys"
proof (induction i arbitrary: xs rule: less_induct)
  case (less i)
  show ?case
  proof (cases "2 \<le> i")
    case True
    then obtain m where m: "i = Suc (Suc m)" by (cases i; cases "i - 1") auto
    from sort_step [OF c True less.prems] obtain ys zs where
      s: "do_swap xs 1 i sz = Some ys" "heapify ys 1 (i - 1) sz c = Some zs" "mset zs = mset xs" "sorting c (i - 1) zs"
      by blast
    have "length zs = length xs" "set zs = set xs" using s(3) by (metis size_mset, metis set_mset_mset)
    then have "i - 1 < i" "i - 1 \<le> length zs" "array_ok sz zs" using True less.prems(1,2) by (auto simp: array_ok_def)
    from less.IH [OF this s(4)] show ?thesis using s m by simp
  next
    case False
    then have "i = 0 \<or> i = Suc 0" by auto
    then have run: "sort_heap i xs sz c = Some xs" by (elim disjE) simp_all
    have "sorted_wrt (\<lambda>x y. c x y \<le> 0) (take i xs @ drop i xs)"
      unfolding sorted_wrt_append
    proof (intro conjI)
      have "length (take i xs) \<le> 1" using False by simp
      then show "sorted_wrt (\<lambda>x y. c x y \<le> 0) (take i xs)" by (cases "take i xs") auto
    qed (use less.prems(3) in \<open>auto simp: sorting_def\<close>)
    then show ?thesis using run by simp
  qed
qed

lemma sort_array_some:
  assumes c: "comparator c" and ok: "array_ok sz xs" "0 < sz"
  shows "\<exists>ys. sort_array xs (length xs) sz c = Some ys \<and> mset ys = mset xs \<and> sorted_wrt (\<lambda>x y. c x y \<le> 0) ys"
proof -
  have "heap_from c (Suc (length xs div 2)) (length xs) xs"
    unfolding heap_from_def by (metis div_le_mono not_less_eq_eq)
  then obtain ys where ys: "build_heap (length xs div 2) xs (length xs) sz c = Some ys" "mset ys = mset xs"
    "heap_from c 1 (length xs) ys"
    using build_heap_some [OF c le_refl ok(1), of "length xs div 2"] by (meson div_le_dividend)
  have l: "length ys = length xs" "set ys = set xs" using ys(2) by (metis size_mset, metis set_mset_mset)
  then have "array_ok sz ys" "sorting c (length xs) ys" using ok(1) ys(3) by (simp_all add: array_ok_def sorting_def)
  then show ?thesis using sort_heap_some [OF c, of "length xs" ys sz] l(1) ys(1,2) ok(2)
    by (auto simp: sort_array_def)
qed

section \<open>Searching\<close>

lemma comparator_less:
  assumes "comparator c" "c x y < 0" "c y z \<le> 0"
  shows "c x z < 0"
proof (rule ccontr)
  assume "\<not> c x z < 0"
  then have "\<not> c z x > 0" using assms(1) unfolding comparator_def by blast
  then have "c y x \<le> 0" using comparator_trans [OF assms(1,3)] by simp
  then show False using assms(1,2) unfolding comparator_def by (metis not_le)
qed

lemma comparator_greater:
  assumes "comparator c" "c x y > 0" "c z y \<le> 0"
  shows "c x z > 0"
proof (rule ccontr)
  assume "\<not> c x z > 0"
  then have "c x y \<le> 0" using comparator_trans [OF assms(1) _ assms(3)] by simp
  then show False using assms(2) by simp
qed

lemma binary_search_loop_some:
  assumes c: "comparator c" and sorted: "sorted_wrt (\<lambda>x y. c x y \<le> 0) xs"
  shows "first \<le> lst \<Longrightarrow> lst \<le> length xs \<Longrightarrow> (\<And>j. j < first \<Longrightarrow> c key (xs ! j) > 0) \<Longrightarrow>
    (\<And>j. lst \<le> j \<Longrightarrow> j < length xs \<Longrightarrow> c key (xs ! j) < 0) \<Longrightarrow>
    (\<exists>i < length xs. binary_search_loop first lst key xs c = Some (Some i) \<and> c key (xs ! i) = 0) \<or>
    binary_search_loop first lst key xs c = Some None \<and> (\<forall>x \<in> set xs. c key x \<noteq> 0)"
proof (induction "lst - first" arbitrary: first lst rule: less_induct)
  case less
  note step = binary_search_loop.simps [of first lst key xs c]
  show ?case
  proof (cases "first < lst")
    case False
    then have "\<forall>j < length xs. c key (xs ! j) \<noteq> 0"
      using less.prems(3,4) by (metis less_irrefl linorder_not_less order.strict_trans1)
    then show ?thesis using False by (auto simp: step in_set_conv_nth)
  next
    case True
    define mid where "mid = first + (lst - first) div 2"
    have mid: "first \<le> mid" "mid < lst" "mid < length xs" using True less.prems(2) by (auto simp: mid_def)
    have ord: "c (xs ! i) (xs ! j) \<le> 0" if "i \<le> j" "j < length xs" for i j
      using sorted that comparator_refl [OF c] by (cases "i = j") (auto simp: sorted_wrt_iff_nth_less)
    have run: "binary_search_loop first lst key xs c =
      (if c key (xs ! mid) < 0 then binary_search_loop first mid key xs c
       else if c key (xs ! mid) > 0 then binary_search_loop (mid + 1) lst key xs c else Some (Some mid))"
      using True mid(3) by (simp add: step Let_def mid_def)
    consider "c key (xs ! mid) < 0" | "c key (xs ! mid) > 0" | "c key (xs ! mid) = 0" by linarith
    then show ?thesis
    proof cases
      case 1
      have "mid - first < lst - first" "mid \<le> length xs" using mid by linarith+
      moreover have "c key (xs ! j) < 0" if "mid \<le> j" "j < length xs" for j
        using comparator_less [OF c 1 ord [OF that]] .
      ultimately show ?thesis using less.hyps [of mid first] mid(1) less.prems(3) 1 by (simp add: run)
    next
      case 2
      have "lst - (mid + 1) < lst - first" "mid + 1 \<le> lst" using mid by linarith+
      moreover have "c key (xs ! j) > 0" if "j < mid + 1" for j
        using comparator_greater [OF c 2 ord [of j mid]] that mid(3) by simp
      moreover have "binary_search_loop first lst key xs c = binary_search_loop (mid + 1) lst key xs c"
        using 2 by (simp add: run)
      ultimately show ?thesis using less.hyps [of lst "mid + 1"] less.prems(2,4) by simp
    next
      case 3
      then show ?thesis using mid(3) by (simp add: run)
    qed
  qed
qed

section \<open>Decimal numbers\<close>

text \<open>The value of a list of decimal digits.\<close>

definition dec_val :: "byte list \<Rightarrow> int" where
  "dec_val ds = foldl (\<lambda>v d. 10 * v + (uint d - 48)) 0 ds"

lemma atoi_space_skip:
  assumes "\<forall>w \<in> set ws. isspace w" "\<forall>i < length ws. m (s + i) = ws ! i" "\<not> isspace (m (s + length ws))"
  shows "atoi_space s m = Some (s + length ws)"
  using assms
proof (induction ws arbitrary: s)
  case Nil
  then show ?case by (simp add: atoi_space.simps)
next
  case (Cons w ws)
  have "m s = w" using Cons.prems(2) by (metis add_0_right length_greater_0_conv list.distinct(1) nth_Cons_0)
  moreover have "\<forall>i < length ws. m (s + 1 + i) = ws ! i" using Cons.prems(2) by fastforce
  ultimately show ?case using Cons.IH [of "s + 1"] Cons.prems by (simp add: atoi_space.simps [of s])
qed

lemma atoi_digits_run:
  assumes "\<forall>d \<in> set ds. isdigit d" "\<forall>i < length ds. m (s + i) = ds ! i" "\<not> isdigit (m (s + length ds))"
  shows "atoi_digits (word_of_int (- v)) s m =
    Some (word_of_int (- foldl (\<lambda>v d. 10 * v + (uint d - 48)) v ds))"
  using assms
proof (induction ds arbitrary: s v)
  case Nil
  then show ?case by (simp add: atoi_digits.simps)
next
  case (Cons d ds)
  have d: "m s = d" using Cons.prems(2) by (metis add_0_right length_greater_0_conv list.distinct(1) nth_Cons_0)
  have "(ucast d :: u32) = word_of_int (uint d)" by simp
  then have e: "word_of_int (- v) * 10 - (ucast d - 48) = (word_of_int (- (10 * v + (uint d - 48))) :: u32)"
    by simp
  have "isdigit d" using Cons.prems(1) by simp
  then have "atoi_digits (word_of_int (- v)) s m = atoi_digits (word_of_int (- (10 * v + (uint d - 48)))) (s + 1) m"
    unfolding atoi_digits.simps [of _ s] d e by simp
  moreover have "\<forall>i < length ds. m (s + 1 + i) = ds ! i" using Cons.prems(2) by fastforce
  ultimately show ?case using Cons.IH [of "s + 1" "10 * v + (uint d - 48)"] Cons.prems by simp
qed

lemma not_isdigit_0: "\<not> isdigit 0"
  by (simp add: isdigit_def)

lemma isdigit_classes:
  assumes "isdigit d"
  shows "\<not> isspace d" "d \<noteq> 43" "d \<noteq> 45" "d \<noteq> 0"
  using assms by (auto simp: isdigit_def isspace_def)

lemma atoi_cstr:
  assumes str: "cstr m s (ws @ sg @ ds @ rest)" "s \<noteq> NULL"
    and ws: "\<forall>w \<in> set ws. isspace w" and sg: "sg = [] \<or> sg = [43] \<or> sg = [45]"
    and ds: "ds \<noteq> []" "\<forall>d \<in> set ds. isdigit d" and rest: "rest = [] \<or> \<not> isdigit (hd rest)"
  shows "atoi s m = Some (word_of_int (if sg = [45] then - dec_val ds else dec_val ds))"
proof -
  have at: "m (s + i) = (ws @ sg @ ds @ rest) ! i" if "i < length (ws @ sg @ ds @ rest)" for i
    using cstr_nth [OF str(1) that] .
  have hd: "isdigit (hd ds)" using ds by simp
  have c: "m (s + length ws) = hd (sg @ ds)" using at [of "length ws"] ds(1) by (auto simp: nth_append hd_conv_nth hd_append)
  have "\<not> isspace (hd (sg @ ds))" using sg isdigit_classes(1) [OF hd] by (auto simp: isspace_def)
  then have space: "atoi_space s m = Some (s + length ws)"
    using ws at c by (intro atoi_space_skip) (auto simp: nth_append)
  define p where "p = s + length ws + length sg"
  have sgn: "(if m (s + length ws) = 43 then (False, s + length ws + 1)
      else if m (s + length ws) = 45 then (True, s + length ws + 1) else (False, s + length ws)) = (sg = [45], p)"
    using sg isdigit_classes(2,3) [OF hd] unfolding c by (auto simp: p_def)
  have digits: "\<forall>i < length ds. m (p + i) = ds ! i"
  proof (intro allI impI)
    fix i
    assume "i < length ds"
    then show "m (p + i) = ds ! i" using at [of "length ws + length sg + i"] by (simp add: p_def nth_append add.assoc)
  qed
  have "\<not> isdigit (m (p + length ds))"
  proof (cases rest)
    case Nil
    then have "m (p + length ds) = 0" using cstr_end [OF str(1)] by (simp add: p_def add.assoc)
    then show ?thesis using not_isdigit_0 by simp
  next
    case (Cons x xs)
    then have "m (p + length ds) = x"
      using at [of "length ws + length sg + length ds"] by (simp add: p_def nth_append add.assoc)
    then show ?thesis using rest Cons by simp
  qed
  from atoi_digits_run [OF ds(2) digits this, of 0]
  have "atoi_digits 0 p m = Some (word_of_int (- dec_val ds))" by (simp add: dec_val_def)
  then show ?thesis using str(2) unfolding atoi_def space by (simp add: sgn [simplified])
qed

section \<open>Properties\<close>

text \<open>The comparison of one-byte elements that the witnesses use.\<close>

definition compare_byte :: compare where
  "compare_byte x y = int (unat (hd x)) - int (unat (hd y))"

lemma comparator_compare_byte: "comparator compare_byte"
  by (auto simp: comparator_def compare_byte_def)

text \<open>
  C24. The heap sort behind \<^verbatim>\<open>qsort\<close>, given a comparison that is a total preorder of the
  \<^verbatim>\<open>strcmp\<close> kind, returns for every array of equally sized elements, never touches a byte
  outside the array, and leaves a permutation of the array in sorted order.
\<close>

theorem qsort_sorts:
  assumes "comparator c" "array_ok sz xs" "0 < sz"
  shows "\<exists>ys. qsort xs (length xs) sz c = Some ys \<and> mset ys = mset xs \<and> sorted_wrt (\<lambda>x y. c x y \<le> 0) ys"
proof -
  have "compare_thunk c = c" by (simp add: compare_thunk_def fun_eq_iff)
  then show ?thesis using sort_array_some [OF assms] by (simp add: qsort_def)
qed

theorem qsort_sorts_witness:
  "\<exists>ys. qsort [[3], [1], [2], [1]] 4 1 compare_byte = Some ys \<and> mset ys = {#[1], [1], [2], [3]#}"
proof -
  have "array_ok 1 [[3], [1], [2], [1]]" by (simp add: array_ok_def)
  from qsort_sorts [OF comparator_compare_byte this] show ?thesis by (auto simp: add_mset_commute eval_nat_numeral)
qed

text \<open>
  C25. Binary search in a sorted array returns, reads only elements of the array, and finds an
  element equal to the key exactly when the array has one.
\<close>

theorem bsearch_finds:
  assumes "comparator c" "sorted_wrt (\<lambda>x y. c x y \<le> 0) xs"
  shows "(\<exists>i < length xs. bsearch key xs (length xs) c = Some (Some i) \<and> c key (xs ! i) = 0) \<or>
    bsearch key xs (length xs) c = Some None \<and> (\<forall>x \<in> set xs. c key x \<noteq> 0)"
proof -
  have "compare_thunk c = c" by (simp add: compare_thunk_def fun_eq_iff)
  then show ?thesis using binary_search_loop_some [OF assms, of 0 "length xs" key]
    by (simp add: bsearch_def binary_search_def)
qed

theorem bsearch_finds_witness:
  "\<exists>i < 3. bsearch [5] [[1], [5], [9]] 3 compare_byte = Some (Some i)"
proof -
  have "sorted_wrt (\<lambda>x y. compare_byte x y \<le> 0) [[1], [5], [9]]" by (simp add: compare_byte_def)
  moreover have "compare_byte [5] [5] = 0" by (simp add: compare_byte_def)
  ultimately show ?thesis using bsearch_finds [OF comparator_compare_byte, of "[[1], [5], [9]]" "[5]"]
    by (auto simp: eval_nat_numeral)
qed

end
