(* ===== verification/Lib_Random.thy ===== *)
theory Lib_Random
  imports Prelude
begin

text \<open>
  The pseudo-random number generator of \<^verbatim>\<open>lib/random.c\<close>, an RC4 key stream. Its static
  variables are a record; the index arithmetic is on bytes and wraps around at 256.
\<close>

record rc4 =
  rc4_s :: "byte list"
  rc4_i :: byte
  rc4_j :: byte
  rc4_inited :: bool

definition swap_byte :: "nat \<Rightarrow> nat \<Rightarrow> byte list \<Rightarrow> byte list" where
  "swap_byte a b s = (let t = s ! a; s = s[a := s ! b] in s[b := t])"

text \<open>The bytes of the seed in memory order.\<close>

definition seed_byte :: "u32 \<Rightarrow> nat \<Rightarrow> byte" where
  "seed_byte seed k = ucast (drop_bit (8 * k) seed)"

definition rc4_schedule :: "u32 \<Rightarrow> nat \<Rightarrow> byte list \<times> byte \<Rightarrow> byte list \<times> byte" where
  "rc4_schedule seed i = (\<lambda>(s, j).
     let j = j + (s ! i + seed_byte seed (i mod 4)) in (swap_byte i (unat j) s, j))"

definition random_init :: "u32 \<Rightarrow> rc4 \<Rightarrow> rc4" where
  "random_init seed st = (
     if rc4_inited st then st
     else let s = map word_of_nat [0..<256];
              (s, j) = fold (rc4_schedule seed) [0..<256] (s, 0)
          in st\<lparr>rc4_s := s, rc4_i := 0, rc4_j := 0, rc4_inited := True\<rparr>)"

definition rc4_next :: "rc4 \<Rightarrow> byte \<times> rc4" where
  "rc4_next st = (
     let i = rc4_i st + 1;
         j = rc4_j st + rc4_s st ! unat i;
         s = swap_byte (unat i) (unat j) (rc4_s st);
         k = s ! unat i + s ! unat j
     in (s ! unat k, st\<lparr>rc4_s := s, rc4_i := i, rc4_j := j\<rparr>))"

fun random_bytes_loop :: "nat \<Rightarrow> rc4 \<Rightarrow> byte list \<times> rc4" where
  "random_bytes_loop 0 st = ([], st)"
| "random_bytes_loop (Suc n) st =
    (let (b, st) = rc4_next st; (bs, st) = random_bytes_loop n st in (b # bs, st))"

definition random_bytes :: "nat \<Rightarrow> rc4 \<Rightarrow> byte list \<times> rc4" where
  "random_bytes sz st =
    random_bytes_loop sz (if rc4_inited st then st else random_init 0 st)"

definition random_ulong :: "rc4 \<Rightarrow> u32 \<times> rc4" where
  "random_ulong st = (
     let (bs, st) = random_bytes 4 st
     in (ucast (bs ! 0) OR push_bit 8 (ucast (bs ! 1)) OR push_bit 16 (ucast (bs ! 2)) OR
         push_bit 24 (ucast (bs ! 3)), st))"

section \<open>The table is a permutation\<close>

text \<open>
  The state of the generator is well formed when it is uninitialised (all static variables are
  then 0) or its table holds each of the 256 byte values once.
\<close>

definition all_bytes :: "byte list" where
  "all_bytes = map word_of_nat [0..<256]"

definition rc4_ok :: "rc4 \<Rightarrow> bool" where
  "rc4_ok st \<longleftrightarrow> (rc4_inited st \<longrightarrow> mset (rc4_s st) = mset all_bytes)"

lemma unat_byte: "unat b < 256" for b :: byte
  using unsigned_less [of b, where 'a = nat] by simp

lemma all_bytes_all: "distinct all_bytes" "set all_bytes = UNIV" "length all_bytes = 256"
proof -
  show "distinct all_bytes"
    by (auto simp: all_bytes_def distinct_map inj_on_def unat_of_nat take_bit_nat_eq_self dest!: arg_cong [of _ _ unat])
  have "b \<in> set all_bytes" for b :: byte
  proof -
    have "b = word_of_nat (unat b)" by simp
    then show ?thesis unfolding all_bytes_def set_map using unat_byte [of b] by (intro image_eqI) auto
  qed
  then show "set all_bytes = UNIV" by blast
  show "length all_bytes = 256" by (simp add: all_bytes_def)
qed

lemma swap_byte_mset: "a < length s \<Longrightarrow> b < length s \<Longrightarrow> mset (swap_byte a b s) = mset s"
  unfolding swap_byte_def Let_def
  by (cases "a = b") (simp_all add: mset_swap nth_list_update)

lemma mset_all_bytes_length: "mset s = mset all_bytes \<Longrightarrow> length s = 256"
  by (metis all_bytes_all(3) size_mset)

lemma rc4_schedule_mset:
  assumes "mset (fst p) = mset all_bytes" "i < 256"
  shows "mset (fst (rc4_schedule seed i p)) = mset all_bytes"
  using assms mset_all_bytes_length [OF assms(1)] unat_byte
  by (cases p) (simp add: rc4_schedule_def Let_def swap_byte_mset)

lemma rc4_schedule_fold:
  assumes "mset (fst p) = mset all_bytes" "\<forall>i \<in> set is. i < 256"
  shows "mset (fst (fold (rc4_schedule seed) is p)) = mset all_bytes"
  using assms by (induction "is" arbitrary: p) (simp_all add: rc4_schedule_mset)

lemma random_init_ok:
  assumes "rc4_ok st"
  shows "rc4_ok (random_init seed st)" "rc4_inited (random_init seed st)"
proof -
  have "mset (fst (fold (rc4_schedule seed) [0..<256] (map word_of_nat [0..<256], 0))) = mset all_bytes"
    by (rule rc4_schedule_fold) (simp_all add: all_bytes_def)
  then show "rc4_ok (random_init seed st)" "rc4_inited (random_init seed st)"
    using assms by (auto simp: random_init_def rc4_ok_def Let_def split: prod.splits)
qed

lemma rc4_next_ok:
  assumes "rc4_ok st" "rc4_inited st"
  shows "rc4_ok (snd (rc4_next st))" "rc4_inited (snd (rc4_next st))"
  using assms mset_all_bytes_length [of "rc4_s st"] unat_byte
  by (simp_all add: rc4_next_def rc4_ok_def Let_def swap_byte_mset)

lemma random_bytes_loop_ok:
  assumes "rc4_ok st" "rc4_inited st"
  shows "rc4_ok (snd (random_bytes_loop n st)) \<and> rc4_inited (snd (random_bytes_loop n st)) \<and>
    length (fst (random_bytes_loop n st)) = n"
  using assms
proof (induction n arbitrary: st)
  case (Suc n)
  obtain b st' where b: "rc4_next st = (b, st')" by fastforce
  have "rc4_ok st'" "rc4_inited st'" using rc4_next_ok [OF Suc.prems] b by simp_all
  from Suc.IH [OF this] show ?case by (auto simp: b split: prod.splits)
qed simp

lemma random_bytes_split:
  "random_bytes (a + b) st =
    (let (xs, st) = random_bytes a st; (ys, st) = random_bytes b st in (xs @ ys, st))"
  if "rc4_ok st"
proof -
  define st0 where "st0 = (if rc4_inited st then st else random_init 0 st)"
  have st0: "rc4_ok st0" "rc4_inited st0" using that random_init_ok by (auto simp: st0_def)
  have loop: "random_bytes_loop (a + b) st1 =
    (let (xs, st) = random_bytes_loop a st1; (ys, st) = random_bytes_loop b st in (xs @ ys, st))" for st1
    by (induction a arbitrary: st1) (simp_all split: prod.splits)
  have "rc4_inited (snd (random_bytes_loop a st0))" using random_bytes_loop_ok [OF st0] by blast
  then show ?thesis unfolding random_bytes_def st0_def [symmetric] loop by (auto simp: Let_def split: prod.splits)
qed

section \<open>Properties\<close>

text \<open>
  C26. From every state of the generator, initialised or not, a request for bytes and a
  re-initialisation leave it initialised with a table that is a permutation of all 256 byte
  values. Exactly the requested number of bytes is produced, and a request of \<open>a + b\<close> bytes is the
  request of \<open>a\<close> followed by the one of \<open>b\<close>: the stream does not depend on how it is cut up. Once
  initialised, \<^verbatim>\<open>random_init\<close> changes nothing, whatever the seed.
\<close>

theorem random_stream:
  assumes "rc4_ok st" "random_bytes n st = (bs, st')"
  shows "rc4_inited st' \<and> distinct (rc4_s st') \<and> set (rc4_s st') = UNIV \<and> length bs = n \<and>
    random_init seed st' = st' \<and>
    random_bytes (n + k) st = (let (cs, st'') = random_bytes k st' in (bs @ cs, st''))"
proof -
  have "rc4_ok (if rc4_inited st then st else random_init 0 st)" "rc4_inited (if rc4_inited st then st else random_init 0 st)"
    using assms(1) random_init_ok by simp_all
  from random_bytes_loop_ok [OF this, of n] have ok: "rc4_ok st'" "rc4_inited st'" "length bs = n"
    using assms(2) by (simp_all add: random_bytes_def)
  have m: "mset (rc4_s st') = mset all_bytes" using ok(1,2) by (simp add: rc4_ok_def)
  have "distinct (rc4_s st')" using m all_bytes_all(1) by (metis mset_eq_imp_distinct_iff)
  moreover have "set (rc4_s st') = UNIV" using m all_bytes_all(2) by (metis set_mset_mset)
  moreover have "random_init seed st' = st'" using ok(2) by (simp add: random_init_def)
  ultimately show ?thesis using ok(2,3) by (simp add: random_bytes_split [OF assms(1)] assms(2))
qed

theorem random_stream_witness:
  "length (fst (random_bytes 5 \<lparr>rc4_s = [], rc4_i = 0, rc4_j = 0, rc4_inited = False\<rparr>)) = 5"
proof -
  have "rc4_ok \<lparr>rc4_s = [], rc4_i = 0, rc4_j = 0, rc4_inited = False\<rparr>" by (simp add: rc4_ok_def)
  from random_stream [OF this, of 5] show ?thesis by (metis prod.collapse)
qed

end
