(* ===== verification/Lib_Stdio.thy ===== *)
theory Lib_Stdio
  imports Lib_Stdlib
begin

text \<open>
  Formatted output, \<^verbatim>\<open>lib/stdio.c\<close>. A format is the memory from the format pointer
  on, the terminator and what follows it included; a string argument is the characters before its
  terminator. The characters that the source passes one by one to the output function are collected
  in a list. A \<^verbatim>\<open>va_list\<close> is the list of the arguments. Taking an argument of the wrong
  kind, reading beyond the memory given and overrunning the digit buffer are \<^term>\<open>None\<close>.
\<close>

section \<open>Conversions\<close>

datatype va_arg = Arg32 u32 | Arg64 u64 | Arg_str "string option"

type_synonym va_list = "va_arg list"

datatype conv_type = T_CHAR | T_SHORT | T_INT | T_INTMAX | T_LONG | T_LONGLONG | T_PTRDIFFT | T_SIZET

record printf_conversion =
  f_minus :: bool
  f_plus :: bool
  f_space :: bool
  f_pound :: bool
  f_zero :: bool
  f_group :: bool
  f_width :: int
  f_precision :: int
  f_type :: conv_type

record integer_base =
  b_base :: nat
  b_digits :: string
  b_x :: "char option"
  b_group :: nat

definition base_d :: integer_base where
  "base_d = \<lparr>b_base = 10, b_digits = ''0123456789'', b_x = None, b_group = 3\<rparr>"

definition base_o :: integer_base where
  "base_o = \<lparr>b_base = 8, b_digits = ''01234567'', b_x = None, b_group = 3\<rparr>"

definition base_x :: integer_base where
  "base_x = \<lparr>b_base = 16, b_digits = ''0123456789abcdef'', b_x = Some CHR ''x'', b_group = 4\<rparr>"

definition base_X :: integer_base where
  "base_X = \<lparr>b_base = 16, b_digits = ''0123456789ABCDEF'', b_x = Some CHR ''X'', b_group = 4\<rparr>"

text \<open>The arithmetic of a 32-bit \<^verbatim>\<open>int\<close>.\<close>

definition int32 :: "int \<Rightarrow> int" where
  "int32 x = signed_take_bit 31 x"

fun take32 :: "va_list \<Rightarrow> (u32 \<times> va_list) option" where
  "take32 (Arg32 w # args) = Some (w, args)"
| "take32 _ = None"

fun take64 :: "va_list \<Rightarrow> (u64 \<times> va_list) option" where
  "take64 (Arg64 w # args) = Some (w, args)"
| "take64 _ = None"

fun take_str :: "va_list \<Rightarrow> (string option \<times> va_list) option" where
  "take_str (Arg_str s # args) = Some (s, args)"
| "take_str _ = None"

text \<open>The terminator of a string, and the character a format pointer points at.\<close>

abbreviation NUL :: char where
  "NUL \<equiv> CHR 0x00"

definition peek :: "string \<Rightarrow> char option" where
  "peek format = (case format of [] \<Rightarrow> None | ch # _ \<Rightarrow> Some ch)"

definition char_digit :: "char \<Rightarrow> bool" where
  "char_digit c \<longleftrightarrow> isdigit (of_char c)"

section \<open>Parsing a conversion\<close>

fun parse_flags :: "string \<Rightarrow> printf_conversion \<Rightarrow> (string \<times> printf_conversion) option" where
  "parse_flags (ch # format) c =
    (if ch = CHR ''-'' then parse_flags format (c\<lparr>f_minus := True\<rparr>)
     else if ch = CHR ''+'' then parse_flags format (c\<lparr>f_plus := True\<rparr>)
     else if ch = CHR '' '' then parse_flags format (c\<lparr>f_space := True\<rparr>)
     else if ch = CHR ''#'' then parse_flags format (c\<lparr>f_pound := True\<rparr>)
     else if ch = CHR ''0'' then parse_flags format (c\<lparr>f_zero := True\<rparr>)
     else if ch = CHR 0x27 then parse_flags format (c\<lparr>f_group := True\<rparr>)
     else Some (ch # format, c))"
| "parse_flags [] c = None"

fun parse_number :: "int \<Rightarrow> string \<Rightarrow> (int \<times> string) option" where
  "parse_number v (ch # format) =
    (if char_digit ch then parse_number (int32 (v * 10 + of_char ch - 48)) format else Some (v, ch # format))"
| "parse_number v [] = None"

definition parse_width :: "string \<Rightarrow> printf_conversion \<Rightarrow> va_list \<Rightarrow> (string \<times> printf_conversion \<times> va_list) option" where
  "parse_width format c args = do {
     ch \<leftarrow> peek format;
     (w, format, args) \<leftarrow>
       (if ch = CHR ''*'' then do {
          (w, args) \<leftarrow> take32 args;
          Some (sint w, tl format, args)
        } else do {
          (w, format) \<leftarrow> parse_number 0 format;
          Some (w, format, args)
        });
     let c = (if w < 0 then c\<lparr>f_width := int32 (- w), f_minus := True\<rparr> else c\<lparr>f_width := w\<rparr>);
     Some (format, c, args)
   }"

definition parse_precision :: "string \<Rightarrow> printf_conversion \<Rightarrow> va_list \<Rightarrow> (string \<times> printf_conversion \<times> va_list) option" where
  "parse_precision format c args = do {
     ch \<leftarrow> peek format;
     (p, format, args) \<leftarrow>
       (if ch = CHR ''.'' then do {
          let format = tl format;
          ch \<leftarrow> peek format;
          (p, format, args) \<leftarrow>
            (if ch = CHR ''*'' then do {
               (p, args) \<leftarrow> take32 args;
               Some (sint p, tl format, args)
             } else do {
               (p, format) \<leftarrow> parse_number 0 format;
               Some (p, format, args)
             });
          Some (if p < 0 then -1 else p, format, args)
        } else Some (-1, format, args));
     let c = c\<lparr>f_precision := p\<rparr>;
     let c = (if p \<ge> 0 then c\<lparr>f_zero := False\<rparr> else c);
     Some (format, c, args)
   }"

definition parse_type :: "string \<Rightarrow> (conv_type \<times> string) option" where
  "parse_type format = do {
     ch \<leftarrow> peek format;
     if ch = CHR ''h'' then do {
       ch \<leftarrow> peek (tl format);
       Some (if ch = CHR ''h'' then (T_CHAR, tl (tl format)) else (T_SHORT, tl format))
     }
     else if ch = CHR ''j'' then Some (T_INTMAX, tl format)
     else if ch = CHR ''l'' then do {
       ch \<leftarrow> peek (tl format);
       Some (if ch = CHR ''l'' then (T_LONGLONG, tl (tl format)) else (T_LONG, tl format))
     }
     else if ch = CHR ''t'' then Some (T_PTRDIFFT, tl format)
     else if ch = CHR ''z'' then Some (T_SIZET, tl format)
     else Some (T_INT, format)
   }"

definition no_conversion :: printf_conversion where
  "no_conversion = \<lparr>f_minus = False, f_plus = False, f_space = False, f_pound = False, f_zero = False,
     f_group = False, f_width = 0, f_precision = -1, f_type = T_INT\<rparr>"

definition parse_conversion :: "string \<Rightarrow> va_list \<Rightarrow> (string \<times> printf_conversion \<times> va_list) option" where
  "parse_conversion format args = do {
     (format, c) \<leftarrow> parse_flags format no_conversion;
     let c = (if f_minus c then c\<lparr>f_zero := False\<rparr> else c);
     let c = (if f_plus c then c\<lparr>f_space := False\<rparr> else c);
     (format, c, args) \<leftarrow> parse_width format c args;
     (format, c, args) \<leftarrow> parse_precision format c args;
     (t, format) \<leftarrow> parse_type format;
     Some (format, c\<lparr>f_type := t\<rparr>, args)
   }"

section \<open>Formatting\<close>

definition output_dup :: "char \<Rightarrow> nat \<Rightarrow> string" where
  "output_dup ch cnt = replicate cnt ch"

text \<open>
  The digit buffer holds 64 characters. It is filled from the least significant digit; the list
  is in the order of the buffer.
\<close>

definition buf_put :: "char \<Rightarrow> string \<Rightarrow> string option" where
  "buf_put ch buf = (if length buf < 64 then Some (buf @ [ch]) else None)"

partial_function (option) digits_loop ::
  "nat \<Rightarrow> nat \<Rightarrow> string \<Rightarrow> integer_base \<Rightarrow> printf_conversion \<Rightarrow> string option" where
  [code]: "digits_loop v cnt buf b c =
    (if v > 0 then do {
       buf \<leftarrow> (if f_group c \<and> cnt > 0 \<and> cnt mod b_group b = 0 then buf_put CHR '','' buf else Some buf);
       buf \<leftarrow> buf_put (b_digits b ! (v mod b_base b)) buf;
       digits_loop (v div b_base b) (cnt + 1) buf b c
     } else Some buf)"

partial_function (option) zeros_loop :: "int \<Rightarrow> string \<Rightarrow> string option" where
  [code]: "zeros_loop precision buf =
    (if int (length buf) < precision \<and> length buf < 63 then do {
       buf \<leftarrow> buf_put CHR ''0'' buf;
       zeros_loop precision buf
     } else Some buf)"

definition sign_char :: "bool \<Rightarrow> bool \<Rightarrow> printf_conversion \<Rightarrow> char option" where
  "sign_char is_signed negative c =
    (if is_signed then
       if f_plus c then Some (if negative then CHR ''-'' else CHR ''+'')
       else if f_space c then Some (if negative then CHR ''-'' else CHR '' '')
       else if negative then Some CHR ''-'' else None
     else None)"

definition format_integer ::
  "nat \<Rightarrow> bool \<Rightarrow> bool \<Rightarrow> integer_base \<Rightarrow> printf_conversion \<Rightarrow> string option" where
  "format_integer v is_signed negative b c = do {
     let sign = sign_char is_signed negative c;
     let x = (if f_pound c \<and> v \<noteq> 0 then b_x b else None);
     buf \<leftarrow> digits_loop v 0 [] b c;
     let precision = (if f_precision c < 0 then 1 else f_precision c);
     buf \<leftarrow> zeros_loop precision buf;
     buf \<leftarrow> (if f_pound c \<and> b_base b = 8 \<and> (buf = [] \<or> List.last buf \<noteq> CHR ''0'')
             then buf_put CHR ''0'' buf else Some buf);
     let pad_cnt = nat (int32 (f_width c - int (length buf) - (if x \<noteq> None then 2 else 0) - (if sign \<noteq> None then 1 else 0)));
     Some ((if \<not> f_minus c \<and> \<not> f_zero c then output_dup CHR '' '' pad_cnt else []) @
           (case sign of None \<Rightarrow> [] | Some s \<Rightarrow> [s]) @
           (case x of None \<Rightarrow> [] | Some x \<Rightarrow> [CHR ''0'', x]) @
           (if f_zero c then output_dup CHR ''0'' pad_cnt else []) @
           rev buf @
           (if f_minus c then output_dup CHR '' '' pad_cnt else []))
   }"

definition format_string :: "string \<Rightarrow> nat \<Rightarrow> printf_conversion \<Rightarrow> string" where
  "format_string str len c =
    (if f_width c > int len \<and> \<not> f_minus c then output_dup CHR '' '' (nat (f_width c - int len)) else []) @
    take len str @
    (if f_width c > int len \<and> f_minus c then output_dup CHR '' '' (nat (f_width c - int len)) else [])"

section \<open>The interpreter of formats\<close>

definition signed_arg :: "conv_type \<Rightarrow> va_list \<Rightarrow> (int \<times> va_list) option" where
  "signed_arg t args = (
     if t = T_INTMAX \<or> t = T_LONGLONG then do { (w, args) \<leftarrow> take64 args; Some (sint w, args) }
     else do {
       (w, args) \<leftarrow> take32 args;
       Some (case t of
           T_CHAR \<Rightarrow> sint (ucast w :: byte)
         | T_SHORT \<Rightarrow> sint (ucast w :: u16)
         | T_SIZET \<Rightarrow> (let v = uint w in if v > (2 ^ 32 - 1) div 2 then v - (2 ^ 32 - 1) - 1 else v)
         | _ \<Rightarrow> sint w, args)
     })"

definition unsigned_arg :: "conv_type \<Rightarrow> va_list \<Rightarrow> (nat \<times> va_list) option" where
  "unsigned_arg t args = (
     if t = T_INTMAX \<or> t = T_LONGLONG then do { (w, args) \<leftarrow> take64 args; Some (unat w, args) }
     else do {
       (w, args) \<leftarrow> take32 args;
       Some (case t of
           T_CHAR \<Rightarrow> unat (ucast w :: byte)
         | T_SHORT \<Rightarrow> unat (ucast w :: u16)
         | _ \<Rightarrow> unat w, args)
     })"

text \<open>
  The conversions proper. \<^term>\<open>Some None\<close> stands for the ones that are not supported, which
  \<open>vprintf\<close> reports with a nested call.
\<close>

definition do_conversion ::
  "char \<Rightarrow> printf_conversion \<Rightarrow> va_list \<Rightarrow> (string \<times> va_list) option option" where
  "do_conversion ch c args = (
     if ch = CHR ''d'' \<or> ch = CHR ''i'' then do {
       (v, args) \<leftarrow> signed_arg (f_type c) args;
       out \<leftarrow> format_integer (nat \<bar>v\<bar>) True (v < 0) base_d c;
       Some (Some (out, args))
     }
     else if ch = CHR ''o'' \<or> ch = CHR ''u'' \<or> ch = CHR ''x'' \<or> ch = CHR ''X'' then do {
       (v, args) \<leftarrow> unsigned_arg (f_type c) args;
       let b = (if ch = CHR ''o'' then base_o else if ch = CHR ''u'' then base_d
                else if ch = CHR ''x'' then base_x else base_X);
       out \<leftarrow> format_integer v False False b c;
       Some (Some (out, args))
     }
     else if ch = CHR ''c'' then do {
       (w, args) \<leftarrow> take32 args;
       Some (Some (format_string [char_of (unat (ucast w :: byte))] 1 c, args))
     }
     else if ch = CHR ''s'' then do {
       (s, args) \<leftarrow> take_str args;
       let s = (case s of None \<Rightarrow> ''(null)'' | Some s \<Rightarrow> s);
       let len = (if f_precision c < 0 then length s else min (length s) (nat (f_precision c)));
       Some (Some (format_string s len c, args))
     }
     else if ch = CHR ''p'' then do {
       (w, args) \<leftarrow> take32 args;
       let c = c\<lparr>f_minus := False, f_plus := False, f_space := False, f_pound := True, f_zero := False, f_group := False\<rparr>;
       out \<leftarrow> format_integer (unat w) False False base_x c;
       Some (Some (out, args))
     }
     else Some None)"

partial_function (option) vprintf_out :: "string \<Rightarrow> va_list \<Rightarrow> string option" where
  [code]: "vprintf_out format args =
    (case format of
       [] \<Rightarrow> None
     | ch # format \<Rightarrow>
         if ch = NUL then Some []
         else if ch \<noteq> CHR ''%'' then do {
           out \<leftarrow> vprintf_out format args;
           Some (ch # out)
         }
         else do {
           ch \<leftarrow> peek format;
           if ch = CHR ''%'' then do {
             out \<leftarrow> vprintf_out (tl format) args;
             Some (CHR ''%'' # out)
           }
           else do {
             (format, c, args) \<leftarrow> parse_conversion format args;
             ch \<leftarrow> peek format;
             r \<leftarrow> do_conversion ch c args;
             (out, args) \<leftarrow> (case r of
                 Some r \<Rightarrow> Some r
               | None \<Rightarrow> do {
                   out \<leftarrow> vprintf_out
                     ((if ch \<in> set ''feEgGn'' then ''<<no %%%c in kernel>>'' else ''<<no %%%c conversion>>'') @ [NUL])
                     [Arg32 (of_char ch)];
                   Some (out, args)
                 });
             rest \<leftarrow> vprintf_out (tl format) args;
             Some (out @ rest)
           }
         })"

text \<open>A call with a terminated format.\<close>

definition printf_out :: "string \<Rightarrow> va_list \<Rightarrow> string option" where
  "printf_out format args = vprintf_out (format @ [NUL]) args"

section \<open>Output to a buffer\<close>

record vsnprintf_aux =
  aux_p :: nat
  aux_length :: int
  aux_max_length :: int

definition vsnprintf_helper :: "char \<Rightarrow> cmem \<times> vsnprintf_aux \<Rightarrow> cmem \<times> vsnprintf_aux" where
  "vsnprintf_helper ch = (\<lambda>(m, aux).
     let len = aux_length aux;
         aux = aux\<lparr>aux_length := int32 (len + 1)\<rparr>
     in if len < aux_max_length aux then (m(aux_p aux := of_char ch), aux\<lparr>aux_p := aux_p aux + 1\<rparr>) else (m, aux))"

definition vsnprintf :: "nat \<Rightarrow> nat \<Rightarrow> string \<Rightarrow> va_list \<Rightarrow> cmem \<Rightarrow> (int \<times> cmem) option" where
  "vsnprintf buffer buf_size format args m = do {
     let aux = \<lparr>aux_p = buffer, aux_length = 0, aux_max_length = int32 (if buf_size > 0 then int (buf_size - 1) else 0)\<rparr>;
     out \<leftarrow> vprintf_out format args;
     let (m, aux) = fold vsnprintf_helper out (m, aux);
     let m = (if buf_size > 0 then m(aux_p aux := 0) else m);
     Some (aux_length aux, m)
   }"

definition snprintf :: "nat \<Rightarrow> nat \<Rightarrow> string \<Rightarrow> va_list \<Rightarrow> cmem \<Rightarrow> (int \<times> cmem) option" where
  "snprintf buffer buf_size format args m = vsnprintf buffer buf_size format args m"

section \<open>Dumps and sizes\<close>

definition isprint :: "byte \<Rightarrow> bool" where
  "isprint c \<longleftrightarrow> 32 \<le> c \<and> c < 127"

definition print_all :: "(string \<times> va_list) list \<Rightarrow> string option" where
  "print_all ps = map_option concat (those (map (\<lambda>(f, args). printf_out f args) ps))"

text \<open>One line of a dump, and the loop over the lines.\<close>

definition hex_dump_line :: "nat \<Rightarrow> byte list \<Rightarrow> nat \<Rightarrow> nat \<Rightarrow> bool \<Rightarrow> string option" where
  "hex_dump_line ofs buf start stop ascii = print_all (
     [(''%08jx  '', [Arg64 (of_nat (ROUND_DOWN ofs 16))])] @
     map (\<lambda>_. (''   '', [])) [0..<start] @
     map (\<lambda>i. (''%02hhx%c'', [Arg32 (ucast (buf ! (i - start))), Arg32 (if i = 7 then of_char CHR ''-'' else of_char CHR '' '')]))
       [start..<stop] @
     (if ascii then
        map (\<lambda>_. (''   '', [])) [stop..<16] @ [(''|'', [])] @
        map (\<lambda>_. ('' '', [])) [0..<start] @
        map (\<lambda>i. (''%c'', [Arg32 (if isprint (buf ! (i - start)) then ucast (buf ! (i - start)) else of_char CHR ''.'')]))
          [start..<stop] @
        map (\<lambda>_. ('' '', [])) [stop..<16] @ [(''|'', [])]
      else []) @
     [([CHR 0x0A], [])])"

function hex_dump :: "nat \<Rightarrow> byte list \<Rightarrow> bool \<Rightarrow> string option" where
  "hex_dump ofs buf ascii =
    (if buf = [] then Some []
     else do {
       let start = ofs mod 16;
       let stop = (if 16 - start > length buf then start + length buf else 16);
       let n = stop - start;
       line \<leftarrow> hex_dump_line ofs buf start stop ascii;
       rest \<leftarrow> hex_dump (size_add ofs n) (drop n buf) ascii;
       Some (line @ rest)
     })"
  by pat_completeness auto
termination
proof (relation "measure (\<lambda>(ofs, buf, ascii). length buf)", simp)
  fix ofs ascii start stop n line and buf :: "byte list"
  assume "buf \<noteq> []" "start = ofs mod 16" "stop = (if 16 - start > length buf then start + length buf else 16)"
    "n = stop - start"
  moreover have "ofs mod 16 < 16" by simp
  ultimately have "0 < n" by (auto split: if_splits)
  with \<open>buf \<noteq> []\<close> show "((size_add ofs n, drop n buf, ascii), (ofs, buf, ascii)) \<in> measure (\<lambda>(ofs, buf, ascii). length buf)"
    by simp
qed

declare hex_dump.simps [simp del]

fun human_size_loop :: "nat \<Rightarrow> string list \<Rightarrow> nat \<times> string" where
  "human_size_loop sz (f # g # fs) = (if sz \<ge> 1024 then human_size_loop (sz div 1024) (g # fs) else (sz, f))"
| "human_size_loop sz [f] = (sz, f)"
| "human_size_loop sz [] = (sz, [])"

definition print_human_readable_size :: "u64 \<Rightarrow> string option" where
  "print_human_readable_size sz =
    (if sz = 1 then printf_out ''1 byte'' []
     else let (n, f) = human_size_loop (unat sz) [''bytes'', ''kB'', ''MB'', ''GB'', ''TB'']
          in printf_out ''%llu %s'' [Arg64 (of_nat n), Arg_str (Some f)])"

section \<open>The digit buffer\<close>

lemma digits_loop_some:
  assumes "8 \<le> b_base b"
  shows "v < 8 ^ k \<Longrightarrow> length buf + 2 * k \<le> 63 \<Longrightarrow>
    \<exists>ds. digits_loop v cnt buf b c = Some (buf @ ds) \<and> length ds \<le> 2 * k \<and> (ds = [] \<longleftrightarrow> v = 0)"
proof (induction k arbitrary: v cnt buf)
  case 0
  then show ?case by (simp add: digits_loop.simps)
next
  case (Suc k)
  show ?case
  proof (cases "v = 0")
    case True
    then show ?thesis by (simp add: digits_loop.simps)
  next
    case False
    define sep where "sep = (if f_group c \<and> cnt > 0 \<and> cnt mod b_group b = 0 then [CHR '',''] else [])"
    define d where "d = b_digits b ! (v mod b_base b)"
    have sep: "length sep \<le> 1" by (simp add: sep_def)
    have "v div b_base b \<le> v div 8" using assms by (simp add: div_le_mono2)
    also have "\<dots> < 8 ^ k" using Suc.prems(1) by (simp add: div_less_iff_less_mult mult.commute)
    finally obtain ds where ds: "digits_loop (v div b_base b) (cnt + 1) (buf @ sep @ [d]) b c = Some ((buf @ sep @ [d]) @ ds)"
        "length ds \<le> 2 * k"
      using Suc.IH [of "v div b_base b" "buf @ sep @ [d]" "cnt + 1"] Suc.prems(2) sep by auto
    have "digits_loop v cnt buf b c = digits_loop (v div b_base b) (cnt + 1) (buf @ sep @ [d]) b c"
      using False Suc.prems(2) sep by (auto simp: digits_loop.simps [of v] buf_put_def sep_def d_def)
    then show ?thesis using ds sep False by (intro exI [of _ "sep @ [d] @ ds"]) auto
  qed
qed

lemma zeros_loop_append:
  assumes "length buf \<le> 63"
  shows "\<exists>n. zeros_loop p buf = Some (buf @ replicate n CHR ''0'') \<and> length buf + n \<le> 63"
  using assms
proof (induction "63 - length buf" arbitrary: buf)
  case 0
  then show ?case by (subst zeros_loop.simps) (auto intro: exI [of _ 0])
next
  case (Suc k)
  show ?case
  proof (cases "int (length buf) < p")
    case True
    have step: "k = 63 - length (buf @ ''0'')" "length (buf @ ''0'') \<le> 63" using Suc.hyps(2) by simp_all
    obtain n where n: "zeros_loop p (buf @ ''0'') = Some ((buf @ ''0'') @ replicate n CHR ''0'')" "length (buf @ ''0'') + n \<le> 63"
      using Suc.hyps(1) [OF step] by blast
    have "length buf < 63" using Suc.hyps(2) by simp
    then have "zeros_loop p buf = zeros_loop p (buf @ ''0'')" using True by (subst zeros_loop.simps) (simp add: buf_put_def)
    then show ?thesis using n by (intro exI [of _ "Suc n"]) simp
  next
    case False
    then show ?thesis using Suc.prems by (subst zeros_loop.simps) (auto intro: exI [of _ 0])
  qed
qed

lemma int32_id: "- (2 ^ 31) \<le> x \<Longrightarrow> x < 2 ^ 31 \<Longrightarrow> int32 x = x"
  by (simp add: int32_def signed_take_bit_int_eq_self)

lemma int32_neg: "- (2 ^ 31) \<le> x \<Longrightarrow> x \<le> 0 \<Longrightarrow> nat (int32 x) = 0"
  by (simp add: int32_id)

lemma format_integer_some:
  assumes "v < 2 ^ 64" "b \<in> {base_d, base_o, base_x, base_X}" "0 \<le> f_width c" "f_width c < 2 ^ 31"
  shows "\<exists>out. format_integer v sg neg b c = Some out \<and> f_width c \<le> int (length out) \<and>
    (\<not> (f_minus c \<and> f_zero c) \<longrightarrow> int (length out) \<le> max (f_width c) 67)"
proof -
  have base: "8 \<le> b_base b" using assms(2) by (auto simp: base_d_def base_o_def base_x_def base_X_def)
  have "v < 8 ^ 22" using assms(1) by simp
  from digits_loop_some [OF base this, of "[]" 0 c] obtain ds where
    ds: "digits_loop v 0 [] b c = Some ds" "length ds \<le> 44" by auto
  define p where "p = (if f_precision c < 0 then 1 else f_precision c)"
  from zeros_loop_append [of ds p] obtain buf where z: "zeros_loop p ds = Some buf" "length buf \<le> 63" using ds(2) by auto
  define buf2 where "buf2 = (if f_pound c \<and> b_base b = 8 \<and> (buf = [] \<or> List.last buf \<noteq> CHR ''0'')
    then buf @ ''0'' else buf)"
  have buf2: "(if f_pound c \<and> b_base b = 8 \<and> (buf = [] \<or> List.last buf \<noteq> CHR ''0'')
      then buf_put CHR ''0'' buf else Some buf) = Some buf2" "length buf2 \<le> 64"
    using z(2) by (simp_all add: buf_put_def buf2_def)
  define sign where "sign = sign_char sg neg c"
  define x where "x = (if f_pound c \<and> v \<noteq> 0 then b_x b else None)"
  define len where "len = length buf2 + (if x \<noteq> None then 2 else 0) + (if sign \<noteq> None then 1 else 0)"
  have "int32 (f_width c - int (length buf2) - (if x \<noteq> None then 2 else 0) - (if sign \<noteq> None then 1 else 0)) = f_width c - int len"
    using buf2(2) assms(3,4) by (subst int32_id) (auto simp: len_def)
  then have out: "format_integer v sg neg b c = Some ((if \<not> f_minus c \<and> \<not> f_zero c then output_dup CHR '' '' (nat (f_width c - int len)) else []) @
           (case sign of None \<Rightarrow> [] | Some s \<Rightarrow> [s]) @ (case x of None \<Rightarrow> [] | Some x \<Rightarrow> [CHR ''0'', x]) @
           (if f_zero c then output_dup CHR ''0'' (nat (f_width c - int len)) else []) @ rev buf2 @
           (if f_minus c then output_dup CHR '' '' (nat (f_width c - int len)) else []))"
    unfolding format_integer_def Let_def ds(1) p_def [symmetric] bind.bind_lunit z(1)
      buf2(1) sign_def [symmetric] x_def [symmetric] by simp
  have "len \<le> 67" using buf2(2) by (simp add: len_def)
  then show ?thesis unfolding out using assms(3)
    by (cases x; cases sign; cases "f_minus c"; cases "f_zero c") (simp_all add: output_dup_def len_def)
qed

section \<open>Decimal output\<close>

fun le_digits :: "nat \<Rightarrow> string" where
  "le_digits v = (if v = 0 then [] else ''0123456789'' ! (v mod 10) # le_digits (v div 10))"

declare le_digits.simps [simp del]

lemma le_digits_loop:
  assumes "\<not> f_group c"
  shows "v < 10 ^ k \<Longrightarrow> length buf + k \<le> 63 \<Longrightarrow> digits_loop v cnt buf base_d c = Some (buf @ le_digits v)"
proof (induction k arbitrary: v cnt buf)
  case 0
  then show ?case by (simp add: digits_loop.simps le_digits.simps)
next
  case (Suc k)
  have "v div 10 < 10 ^ k" using Suc.prems(1) by (simp add: div_less_iff_less_mult mult.commute)
  then have "digits_loop (v div 10) (cnt + 1) (buf @ [''0123456789'' ! (v mod 10)]) base_d c =
    Some ((buf @ [''0123456789'' ! (v mod 10)]) @ le_digits (v div 10))"
    using Suc.prems(2) by (intro Suc.IH) simp_all
  then have "digits_loop v cnt buf base_d c = Some (buf @ le_digits v)" if "v \<noteq> 0"
    using assms Suc.prems(2) that
    by (simp add: digits_loop.simps [of v] le_digits.simps [of v] base_d_def buf_put_def)
  then show ?case by (cases "v = 0") (simp_all add: digits_loop.simps [of 0] le_digits.simps [of 0])
qed

lemma dec_val_append: "dec_val (ds @ [d]) = 10 * dec_val ds + (uint d - 48)"
  by (simp add: dec_val_def)

lemma uint_digit: "k < 10 \<Longrightarrow> uint (of_char (''0123456789'' ! k) :: byte) = 48 + int k"
proof -
  assume "k < 10"
  then have "k = 0 \<or> k = 1 \<or> k = 2 \<or> k = 3 \<or> k = 4 \<or> k = 5 \<or> k = 6 \<or> k = 7 \<or> k = 8 \<or> k = 9" by presburger
  then show ?thesis by (elim disjE) (simp_all add: nth_Cons')
qed

lemma le_digits_value: "dec_val (map of_char (rev (le_digits v))) = int v"
proof (induction v rule: le_digits.induct)
  case (1 v)
  show ?case
  proof (cases "v = 0")
    case True
    then show ?thesis by (simp add: le_digits.simps dec_val_def)
  next
    case False
    then have "dec_val (map of_char (rev (le_digits v))) =
      10 * dec_val (map of_char (rev (le_digits (v div 10)))) + (uint (of_char (''0123456789'' ! (v mod 10)) :: byte) - 48)"
      by (simp only: le_digits.simps [of v] if_False rev.simps map_append list.map dec_val_append)
    also have "\<dots> = 10 * int (v div 10) + int (v mod 10)" using 1 [OF False] by (simp add: uint_digit)
    also have "\<dots> = int v" by (metis mult_div_mod_eq of_nat_add of_nat_mult of_nat_numeral)
    finally show ?thesis .
  qed
qed

lemma le_digits_digits: "d \<in> set (le_digits v) \<Longrightarrow> isdigit (of_char d)"
proof (induction v rule: le_digits.induct)
  case (1 v)
  have "isdigit (of_char (''0123456789'' ! (v mod 10)))"
    using uint_digit [of "v mod 10"] by (simp add: isdigit_def word_le_def)
  then show ?case using 1 by (cases "v = 0") (auto simp: le_digits.simps [of v] le_digits.simps [of 0])
qed

lemma le_digits_bound: "v < 10 ^ k \<Longrightarrow> length (le_digits v) \<le> k"
proof (induction k arbitrary: v)
  case (Suc k)
  then have "v div 10 < 10 ^ k" by (simp add: div_less_iff_less_mult mult.commute)
  then show ?case using Suc.IH [of "v div 10"] by (simp add: le_digits.simps [of v])
qed (simp add: le_digits.simps)

lemma format_decimal:
  assumes "\<bar>v\<bar> < 10 ^ 20"
  shows "format_integer (nat \<bar>v\<bar>) True (v < 0) base_d no_conversion =
    Some ((if v < 0 then ''-'' else []) @ (if v = 0 then ''0'' else rev (le_digits (nat \<bar>v\<bar>))))"
proof -
  have "digits_loop (nat \<bar>v\<bar>) 0 [] base_d no_conversion = Some (le_digits (nat \<bar>v\<bar>))"
    using le_digits_loop [of no_conversion "nat \<bar>v\<bar>" 20 "[]" 0] assms by (simp add: no_conversion_def nat_less_iff)
  moreover define ds where "ds = (if v = 0 then ''0'' else le_digits (nat \<bar>v\<bar>))"
  moreover have "zeros_loop 1 (le_digits (nat \<bar>v\<bar>)) = Some ds"
  proof (cases "v = 0")
    case True
    then show ?thesis by (simp add: le_digits.simps zeros_loop.simps buf_put_def ds_def)
  next
    case False
    then have "le_digits (nat \<bar>v\<bar>) \<noteq> []" by (simp add: le_digits.simps)
    then show ?thesis using False by (subst zeros_loop.simps) (simp add: not_less Suc_leI ds_def)
  qed
  moreover have "length ds \<le> 20" using le_digits_bound [of "nat \<bar>v\<bar>" 20] assms by (auto simp: ds_def nat_less_iff)
  ultimately have "format_integer (nat \<bar>v\<bar>) True (v < 0) base_d no_conversion = Some ((if v < 0 then ''-'' else []) @ rev ds)"
    by (simp add: format_integer_def no_conversion_def sign_char_def base_d_def output_dup_def int32_neg)
  then show ?thesis by (simp add: ds_def)
qed

lemma printf_d: "printf_out ''%d'' [Arg32 w] = format_integer (nat \<bar>sint w\<bar>) True (sint w < 0) base_d no_conversion"
proof -
  have nc: "no_conversion\<lparr>f_width := 0\<rparr> = no_conversion" "no_conversion\<lparr>f_precision := -1\<rparr> = no_conversion"
    "no_conversion\<lparr>f_type := T_INT\<rparr> = no_conversion" by (simp_all add: no_conversion_def)
  have flags: "f_minus no_conversion = False" "f_plus no_conversion = False" "f_type no_conversion = T_INT"
    by (simp_all add: no_conversion_def)
  have "parse_conversion [CHR ''d'', NUL] args = Some ([CHR ''d'', NUL], no_conversion, args)" for args
    by (simp add: parse_conversion_def parse_width_def parse_precision_def parse_type_def peek_def char_digit_def
        isdigit_def nc flags)
  then show ?thesis
    by (simp add: printf_out_def vprintf_out.simps [of "CHR ''%'' # _"] vprintf_out.simps [of "[NUL]"] peek_def do_conversion_def
        signed_arg_def flags split: option.splits)
qed

section \<open>Writing to a buffer\<close>

lemma vsnprintf_fold:
  assumes "l + length out < 2 ^ 31" "n < 2 ^ 31"
  shows "fold vsnprintf_helper out (m, \<lparr>aux_p = p + min l n, aux_length = int l, aux_max_length = int n\<rparr>) =
    (\<lambda>a. if p + l \<le> a \<and> a < p + min (l + length out) n then of_char (out ! (a - (p + l))) else m a,
     \<lparr>aux_p = p + min (l + length out) n, aux_length = int (l + length out), aux_max_length = int n\<rparr>)"
  using assms(1)
proof (induction out arbitrary: l m)
  case Nil
  then show ?case by (auto simp: fun_eq_iff)
next
  case (Cons ch out)
  let ?m = "if l < n then m(p + l := of_char ch) else m"
  have "vsnprintf_helper ch (m, \<lparr>aux_p = p + min l n, aux_length = int l, aux_max_length = int n\<rparr>) =
    (?m, \<lparr>aux_p = p + min (Suc l) n, aux_length = int (Suc l), aux_max_length = int n\<rparr>)"
    using Cons.prems by (auto simp: vsnprintf_helper_def int32_id)
  then have "fold vsnprintf_helper (ch # out) (m, \<lparr>aux_p = p + min l n, aux_length = int l, aux_max_length = int n\<rparr>) =
    fold vsnprintf_helper out (?m, \<lparr>aux_p = p + min (Suc l) n, aux_length = int (Suc l), aux_max_length = int n\<rparr>)"
    by simp
  also have "\<dots> = (\<lambda>a. if p + Suc l \<le> a \<and> a < p + min (Suc l + length out) n then of_char (out ! (a - (p + Suc l))) else ?m a,
     \<lparr>aux_p = p + min (Suc l + length out) n, aux_length = int (Suc l + length out), aux_max_length = int n\<rparr>)"
    using Cons.prems by (intro Cons.IH) simp
  also have "(\<lambda>a. if p + Suc l \<le> a \<and> a < p + min (Suc l + length out) n then of_char (out ! (a - (p + Suc l))) else ?m a) =
    (\<lambda>a. if p + l \<le> a \<and> a < p + min (l + length (ch # out)) n then of_char ((ch # out) ! (a - (p + l))) else m a)"
  proof (rule ext)
    fix a
    have e: "a - (p + l) = Suc (a - (p + Suc l))" if "p + l < a" using that by simp
    show "(if p + Suc l \<le> a \<and> a < p + min (Suc l + length out) n then of_char (out ! (a - (p + Suc l))) else ?m a) =
      (if p + l \<le> a \<and> a < p + min (l + length (ch # out)) n then of_char ((ch # out) ! (a - (p + l))) else m a)"
    proof (cases "a = p + l")
      case False
      then show ?thesis using e by (cases "p + l < a") auto
    qed auto
  qed
  finally show ?case by simp
qed

lemma vsnprintf_bounded:
  assumes out: "vprintf_out format args = Some out" "length out < 2 ^ 31" and sz: "buf_size \<le> 2 ^ 31"
  shows "\<exists>m'. vsnprintf buffer buf_size format args m = Some (int (length out), m') \<and>
    (\<forall>a. a < buffer \<or> buffer + buf_size \<le> a \<longrightarrow> m' a = m a) \<and>
    (\<forall>i < min (length out) (buf_size - 1). m' (buffer + i) = of_char (out ! i)) \<and>
    (0 < buf_size \<longrightarrow> m' (buffer + min (length out) (buf_size - 1)) = 0)"
proof -
  define n where "n = buf_size - 1"
  have n: "n < 2 ^ 31" using sz by (auto simp: n_def)
  have i32: "int32 (if buf_size > 0 then int (buf_size - 1) else 0) = int n" using n by (simp add: n_def int32_id)
  have "fold vsnprintf_helper out (m, \<lparr>aux_p = buffer, aux_length = 0, aux_max_length = int n\<rparr>) =
    (\<lambda>a. if buffer \<le> a \<and> a < buffer + min (length out) n then of_char (out ! (a - buffer)) else m a,
     \<lparr>aux_p = buffer + min (length out) n, aux_length = int (length out), aux_max_length = int n\<rparr>)"
    using vsnprintf_fold [of 0 out n m buffer] out(2) n by (simp cong: if_cong)
  then show ?thesis unfolding vsnprintf_def i32 out(1) by (cases "buf_size = 0") (auto simp: n_def)
qed

text \<open>
  A negative width taken from the arguments sets the minus flag after the zero flag was dropped
  for it, so the field is padded on both sides.
\<close>

lemma star_width_pads_twice: "printf_out ''%0*d'' [Arg32 (- 5), Arg32 3] = Some ''00003    ''"
proof -
  let ?c = "no_conversion\<lparr>f_zero := True, f_width := 5, f_minus := True\<rparr>"
  have "parse_conversion (''0*d'' @ [NUL]) [Arg32 (- 5), Arg32 3] = Some (''d'' @ [NUL], ?c, [Arg32 3])"
    by (simp add: parse_conversion_def parse_width_def parse_precision_def parse_type_def peek_def char_digit_def
        no_conversion_def int32_def)
  moreover have "digits_loop 3 0 [] base_d ?c = Some ''3''"
    by (simp add: digits_loop.simps [of 3] digits_loop.simps [of 0] base_d_def buf_put_def no_conversion_def)
  moreover have "zeros_loop 1 ''3'' = Some ''3''" by (simp add: zeros_loop.simps)
  ultimately have "format_integer 3 True False base_d ?c = Some ''00003    ''"
    by (simp add: format_integer_def sign_char_def no_conversion_def base_d_def output_dup_def eval_nat_numeral int32_def)
  then have "do_conversion CHR ''d'' ?c [Arg32 3] = Some (Some (''00003    '', []))"
    by (simp add: do_conversion_def signed_arg_def no_conversion_def)
  with \<open>parse_conversion _ _ = _\<close> show ?thesis
    by (simp add: printf_out_def vprintf_out.simps [of "CHR ''%'' # _"] vprintf_out.simps [of "[NUL]"] peek_def)
qed

section \<open>Incomplete conversions\<close>

text \<open>The parts of a conversion before its last character, with the arguments they take.\<close>

definition is_flag :: "char \<Rightarrow> bool" where
  "is_flag ch \<longleftrightarrow> ch \<in> set ''-+ #0'' \<or> ch = CHR 0x27"

fun number_field :: "string \<Rightarrow> va_list \<Rightarrow> bool" where
  "number_field w [] \<longleftrightarrow> list_all char_digit w"
| "number_field w [Arg32 a] \<longleftrightarrow> w = ''*''"
| "number_field w _ \<longleftrightarrow> False"

definition precision_field :: "string \<Rightarrow> va_list \<Rightarrow> bool" where
  "precision_field p ps \<longleftrightarrow> (case p of [] \<Rightarrow> ps = [] | ch # q \<Rightarrow> ch = CHR ''.'' \<and> number_field q ps)"

definition length_modifiers :: "string list" where
  "length_modifiers = [''h'', ''hh'', ''j'', ''l'', ''ll'', ''t'', ''z'']"

text \<open>A character at which the scans for flags and numbers stop.\<close>

definition stops :: "char \<Rightarrow> bool" where
  "stops ch \<longleftrightarrow> \<not> is_flag ch \<and> \<not> char_digit ch \<and> ch \<noteq> CHR ''*''"

lemma parse_flags_flag: "is_flag ch \<Longrightarrow> \<exists>c'. parse_flags (ch # xs) c = parse_flags xs c'"
  by (auto simp: is_flag_def)

lemma parse_flags_stop: "\<not> is_flag ch \<Longrightarrow> parse_flags (ch # xs) c = Some (ch # xs, c)"
  by (auto simp: is_flag_def)

lemma parse_flags_field:
  assumes "\<forall>ch \<in> set fl. is_flag ch" "number_field w ws" "stops y"
  shows "\<exists>w' c'. number_field w' ws \<and> parse_flags (fl @ w @ y # ys) c = Some (w' @ y # ys, c')"
  using assms(1)
proof (induction fl arbitrary: c)
  case Nil
  have digits: "\<exists>w' c'. list_all char_digit w' \<and> parse_flags (w @ y # ys) c = Some (w' @ y # ys, c')"
    if "list_all char_digit w" for w c
    using that
  proof (induction w arbitrary: c)
    case Nil
    then show ?case using assms(3) parse_flags_stop [of y ys c] by (auto simp: stops_def intro: exI [of _ "[]"])
  next
    case (Cons d w)
    show ?case
    proof (cases "is_flag d")
      case True
      then obtain c' where "parse_flags (d # w @ y # ys) c = parse_flags (w @ y # ys) c'" using parse_flags_flag by blast
      then show ?thesis using Cons.IH [of c'] Cons.prems by simp
    next
      case False
      then have "parse_flags ((d # w) @ y # ys) c = Some ((d # w) @ y # ys, c)"
        using parse_flags_stop [of d "w @ y # ys" c] by simp
      then show ?thesis using Cons.prems by blast
    qed
  qed
  show ?case
  proof (cases ws)
    case Nil
    then show ?thesis using digits [of w c] assms(2) by auto
  next
    case (Cons a as)
    then have "w = ''*''" using assms(2) by (cases a; cases as) auto
    then show ?thesis using Cons assms(2) by auto
  qed
next
  case (Cons f fl)
  then show ?case using parse_flags_flag [of f "fl @ w @ y # ys" c] by (auto simp del: parse_flags.simps)
qed

lemma parse_number_field:
  assumes "list_all char_digit w" "stops y"
  shows "\<exists>v'. parse_number v (w @ y # ys) = Some (v', y # ys)"
  using assms(1) by (induction w arbitrary: v) (use assms(2) in \<open>auto simp: stops_def\<close>)

lemma peek_field:
  assumes "list_all char_digit w" "stops y"
  shows "\<exists>ch. peek (w @ y # ys) = Some ch \<and> ch \<noteq> CHR ''*''"
  using assms by (cases w) (auto simp: peek_def stops_def char_digit_def isdigit_def)

lemma parse_width_field:
  assumes "number_field w ws" "stops y"
  shows "\<exists>c'. parse_width (w @ y # ys) c (ws @ args) = Some (y # ys, c', args)"
proof (cases ws)
  case Nil
  then have d: "list_all char_digit w" using assms(1) by simp
  from peek_field [OF d assms(2), of ys] parse_number_field [OF d assms(2), of 0 ys] show ?thesis
    using Nil by (auto simp: parse_width_def Let_def)
next
  case (Cons a as)
  then obtain v where "a = Arg32 v" "as = []" "w = ''*''" using assms(1) by (cases a; cases as) auto
  then show ?thesis using Cons by (simp add: parse_width_def peek_def Let_def)
qed

lemma parse_precision_field:
  assumes "precision_field p ps" "stops y" "y \<noteq> CHR ''.''"
  shows "\<exists>c'. parse_precision (p @ y # ys) c (ps @ args) = Some (y # ys, c', args)"
proof (cases p)
  case Nil
  then show ?thesis using assms by (auto simp: precision_field_def parse_precision_def peek_def Let_def)
next
  case p: (Cons ch q)
  then have q: "ch = CHR ''.''" "number_field q ps" using assms(1) by (simp_all add: precision_field_def)
  show ?thesis
  proof (cases ps)
    case Nil
    then have d: "list_all char_digit q" using q(2) by simp
    from peek_field [OF d assms(2), of ys] parse_number_field [OF d assms(2), of 0 ys] show ?thesis
      using Nil p q(1) by (auto simp: parse_precision_def peek_def [of "CHR ''.'' # _"] Let_def)
  next
    case (Cons a as)
    then obtain v where "a = Arg32 v" "as = []" "q = ''*''" using q(2) by (cases a; cases as) auto
    then show ?thesis using Cons p q(1) by (simp add: parse_precision_def peek_def Let_def)
  qed
qed

lemma modifier_stops:
  assumes "t = [] \<or> t \<in> set length_modifiers" "t @ NUL # xs = y # ys"
  shows "stops y" "y \<noteq> CHR ''.''" "\<exists>ty. parse_type (y # ys) = Some (ty, NUL # xs)"
  using assms
  by (auto simp: length_modifiers_def stops_def is_flag_def char_digit_def isdigit_def parse_type_def peek_def)

lemma precision_stops:
  assumes "precision_field p ps" "stops y" "p @ y # ys = z # zs"
  shows "stops z"
  using assms by (cases p) (auto simp: precision_field_def stops_def is_flag_def char_digit_def isdigit_def)

lemma parse_incomplete:
  assumes "\<forall>ch \<in> set fl. is_flag ch" "number_field w ws" "precision_field p ps" "t = [] \<or> t \<in> set length_modifiers"
  shows "\<exists>c. parse_conversion (fl @ w @ p @ t @ NUL # xs) (ws @ ps @ args) = Some (NUL # xs, c, args)"
proof -
  obtain y ys where y: "t @ NUL # xs = y # ys" by (cases "t @ NUL # xs") auto
  note m = modifier_stops [OF assms(4) y]
  obtain z zs where z: "p @ y # ys = z # zs" by (cases "p @ y # ys") auto
  note zs = precision_stops [OF assms(3) m(1) z]
  obtain w' c1 where f: "number_field w' ws" "parse_flags (fl @ w @ z # zs) no_conversion = Some (w' @ z # zs, c1)"
    using parse_flags_field [OF assms(1,2) zs] by blast
  define c2 where "c2 = (let c = (if f_minus c1 then c1\<lparr>f_zero := False\<rparr> else c1) in if f_plus c then c\<lparr>f_space := False\<rparr> else c)"
  obtain c3 where c3: "parse_width (w' @ z # zs) c2 (ws @ ps @ args) = Some (z # zs, c3, ps @ args)"
    using parse_width_field [OF f(1) zs] by blast
  obtain c4 where c4: "parse_precision (p @ y # ys) c3 (ps @ args) = Some (y # ys, c4, args)"
    using parse_precision_field [OF assms(3) m(1,2)] by blast
  obtain ty where ty: "parse_type (y # ys) = Some (ty, NUL # xs)" using m(3) by blast
  show ?thesis using f(2) c3 c4 ty unfolding parse_conversion_def y z c2_def by (simp add: Let_def)
qed

lemma vprintf_lit:
  assumes "\<forall>ch \<in> set lit. ch \<noteq> CHR ''%'' \<and> ch \<noteq> NUL"
  shows "vprintf_out (lit @ xs) args = map_option (\<lambda>out. lit @ out) (vprintf_out xs args)"
  using assms
proof (induction lit)
  case (Cons ch lit)
  then have "vprintf_out (ch # lit @ xs) args = vprintf_out (lit @ xs) args \<bind> (\<lambda>out. Some (ch # out))"
    by (simp add: vprintf_out.simps [of "ch # _"])
  then show ?case using Cons by (cases "vprintf_out xs args") simp_all
qed (simp add: option.map_ident_strong)

lemma vprintf_percent: "vprintf_out (CHR ''%'' # CHR ''%'' # xs) args = map_option (\<lambda>out. CHR ''%'' # out) (vprintf_out xs args)"
  by (cases "vprintf_out xs args") (simp_all add: vprintf_out.simps [of "CHR ''%'' # _"] peek_def)

lemma vprintf_c:
  "vprintf_out (CHR ''%'' # CHR ''c'' # xs) (Arg32 w # args) =
    map_option (\<lambda>out. char_of (unat (ucast w :: byte)) # out) (vprintf_out xs args)"
proof -
  have "parse_conversion (CHR ''c'' # xs) (Arg32 w # args) =
      Some (CHR ''c'' # xs, no_conversion\<lparr>f_width := 0, f_precision := -1, f_type := T_INT\<rparr>, Arg32 w # args)"
    by (simp add: parse_conversion_def parse_width_def parse_precision_def parse_type_def peek_def char_digit_def
        isdigit_def no_conversion_def)
  then show ?thesis
    by (cases "vprintf_out xs args")
      (simp_all add: vprintf_out.simps [of "CHR ''%'' # _"] peek_def do_conversion_def format_string_def no_conversion_def)
qed

lemma vprintf_unknown_NUL:
  "vprintf_out (''<<no %%%c conversion>>'' @ [NUL]) [Arg32 (of_char NUL)] = Some (''<<no %'' @ [NUL] @ '' conversion>>'')"
  using vprintf_lit [of "''<<no ''" "''%%%c conversion>>'' @ [NUL]" "[Arg32 (of_char NUL)]"]
    vprintf_lit [of "'' conversion>>''" "[NUL]" "[]"]
  by (simp add: vprintf_percent vprintf_c vprintf_out.simps [of "[NUL]"] char_of_def)

lemma vprintf_incomplete:
  assumes "\<forall>ch \<in> set fl. is_flag ch" "number_field w ws" "precision_field p ps" "t = [] \<or> t \<in> set length_modifiers"
  shows "vprintf_out (CHR ''%'' # fl @ w @ p @ t @ NUL # xs) (ws @ ps @ args) =
    map_option (\<lambda>out. ''<<no %'' @ [NUL] @ '' conversion>>'' @ out) (vprintf_out xs args)"
proof -
  let ?fmt = "fl @ w @ p @ t @ NUL # xs"
  obtain c where c: "parse_conversion ?fmt (ws @ ps @ args) = Some (NUL # xs, c, args)"
    using parse_incomplete [OF assms] by blast
  have "w = ''*'' \<or> list_all char_digit w" using assms(2) by (cases "(w, ws)" rule: number_field.cases) auto
  moreover have "\<not> is_flag CHR ''%''" "\<not> char_digit CHR ''%''" by (simp_all add: is_flag_def char_digit_def isdigit_def)
  moreover have "p = [] \<or> hd p = CHR ''.''" using assms(3) by (cases p) (auto simp: precision_field_def)
  moreover have "t = [] \<or> hd t \<noteq> CHR ''%''" using assms(4) by (auto simp: length_modifiers_def)
  ultimately have "hd ?fmt \<noteq> CHR ''%''" using assms(1) by (cases fl; cases w; cases p; cases t) auto
  then obtain ch where ch: "peek ?fmt = Some ch" "ch \<noteq> CHR ''%''" by (cases ?fmt) (auto simp: peek_def)
  have d: "do_conversion NUL c args = Some None" by (simp add: do_conversion_def)
  show ?thesis
    using c ch d vprintf_unknown_NUL
    by (cases "vprintf_out xs args") (simp_all add: vprintf_out.simps [of "CHR ''%'' # _"] peek_def [of "NUL # _"])
qed

section \<open>Properties\<close>

text \<open>
  C27. Printing a 32-bit integer with \<^verbatim>\<open>%d\<close> and reading the text back with
  \<^verbatim>\<open>atoi\<close> is the identity, for every value, the least one included, whose absolute value
  does not fit. Both calls return.
\<close>

theorem printf_atoi_roundtrip:
  "\<exists>str. printf_out ''%d'' [Arg32 w] = Some str \<and>
    (\<forall>m s. s \<noteq> NULL \<longrightarrow> cstr m s (map of_char str) \<longrightarrow> atoi s m = Some w)"
proof -
  define v where "v = sint w"
  define ds where "ds = (if v = 0 then ''0'' else rev (le_digits (nat \<bar>v\<bar>)))"
  have "- (2 ^ 31) \<le> v" "v < 2 ^ 31" using sint_ge [of w] sint_lt [of w] by (simp_all add: v_def)
  then have "\<bar>v\<bar> < 10 ^ 20" by simp
  from format_decimal [OF this] have out: "printf_out ''%d'' [Arg32 w] = Some ((if v < 0 then ''-'' else []) @ ds)"
    by (simp add: printf_d v_def ds_def)
  have "dec_val (map of_char (rev (le_digits (nat \<bar>v\<bar>)))) = \<bar>v\<bar>" using le_digits_value [of "nat \<bar>v\<bar>"] by simp
  then have val: "dec_val (map of_char ds) = \<bar>v\<bar>" by (auto simp: ds_def dec_val_def)
  have "isdigit (of_char d)" if "d \<in> set ds" for d
    using that le_digits_digits [of d "nat \<bar>v\<bar>"] by (cases "v = 0") (simp_all add: ds_def isdigit_def)
  moreover have "ds \<noteq> []" by (simp add: ds_def le_digits.simps [of "nat \<bar>v\<bar>"])
  ultimately have dig: "\<forall>d \<in> set (map of_char ds). isdigit d" "map of_char ds \<noteq> ([] :: byte list)" by auto
  have "atoi s m = Some w" if "s \<noteq> NULL" "cstr m s (map of_char ((if v < 0 then ''-'' else []) @ ds))" for m s
  proof -
    have "atoi s m = Some (word_of_int (if v < 0 then - \<bar>v\<bar> else \<bar>v\<bar>))"
      using atoi_cstr [of m s "[]" "map of_char (if v < 0 then ''-'' else [])" "map of_char ds" "[]"] that dig val
      by (cases "v < 0") simp_all
    also have "(if v < 0 then - \<bar>v\<bar> else \<bar>v\<bar>) = v" by simp
    finally show ?thesis by (simp add: v_def)
  qed
  then show ?thesis using out by blast
qed

theorem printf_atoi_roundtrip_witness:
  "\<exists>str. printf_out ''%d'' [Arg32 (- 5)] = Some str \<and>
    (cstr (put_str 1 [45, 53] (\<lambda>_. 0)) 1 (map of_char str) \<longrightarrow> atoi 1 (put_str 1 [45, 53] (\<lambda>_. 0)) = Some (- 5))"
proof -
  obtain str where "printf_out ''%d'' [Arg32 (- 5)] = Some str"
    "\<forall>m s. s \<noteq> NULL \<longrightarrow> cstr m s (map of_char str) \<longrightarrow> atoi s m = Some (- 5)"
    using printf_atoi_roundtrip [of "- 5"] by blast
  then show ?thesis by (intro exI [of _ str]) auto
qed

text \<open>
  C28. An integer conversion of any 64-bit value, with any flags, precision and nonnegative width
  of type \<^verbatim>\<open>int\<close> and in any of the four bases, returns without overrunning the 64-byte
  digit buffer, where every store is checked. It fills at least the requested field width, and,
  unless the field is padded on both sides, at most that width or 67 characters.
\<close>

theorem format_integer_buffer:
  assumes "v < 2 ^ 64" "b = base_d \<or> b = base_o \<or> b = base_x \<or> b = base_X" "0 \<le> f_width c" "f_width c < 2 ^ 31"
  shows "\<exists>out. format_integer v is_signed negative b c = Some out \<and> f_width c \<le> int (length out) \<and>
    (\<not> (f_minus c \<and> f_zero c) \<longrightarrow> int (length out) \<le> max (f_width c) 67)"
  by (rule format_integer_some [OF assms(1) _ assms(3,4)]) (use assms(2) in blast)

theorem format_integer_buffer_witness:
  "\<exists>out. format_integer 0xFFFFFFFFFFFFFFFF False False base_o
     (no_conversion\<lparr>f_group := True, f_pound := True, f_precision := 100, f_width := 80\<rparr>) = Some out \<and> length out = 80"
  using format_integer_buffer [of "0xFFFFFFFFFFFFFFFF" base_o
      "no_conversion\<lparr>f_group := True, f_pound := True, f_precision := 100, f_width := 80\<rparr>" False False]
  by (auto simp: no_conversion_def)

text \<open>
  C29. A format that ends inside a conversion is not handled. Whatever flags, width, precision and
  length modifier the conversion has when the terminator comes, after any literal text, the
  interpreter takes the terminator for an unknown conversion character, reports it, steps over it, and
  goes on to interpret the memory after the end of the format with the arguments that are left.
\<close>

theorem vprintf_incomplete_format:
  assumes "\<forall>ch \<in> set lit. ch \<noteq> CHR ''%'' \<and> ch \<noteq> NUL" and "\<forall>ch \<in> set fl. is_flag ch" "number_field w ws" "precision_field p ps"
    and "t = [] \<or> t \<in> set length_modifiers"
  shows "vprintf_out (lit @ ''%'' @ fl @ w @ p @ t @ [NUL] @ beyond) (ws @ ps @ args) =
    map_option (\<lambda>out. lit @ ''<<no %'' @ [NUL] @ '' conversion>>'' @ out) (vprintf_out beyond args)"
  using vprintf_lit [OF assms(1)] vprintf_incomplete [OF assms(2-)] by (simp add: option.map_comp comp_def)

theorem vprintf_incomplete_format_witness:
  "vprintf_out (''100%5.*l'' @ [NUL] @ ''next'' @ [NUL]) [Arg32 7] = Some (''100<<no %'' @ [NUL] @ '' conversion>>next'')"
proof -
  have "vprintf_out (''next'' @ [NUL]) [] = Some ''next''" by (simp add: vprintf_out.simps)
  then show ?thesis
    using vprintf_incomplete_format [where lit = "''100''" and fl = "[]" and w = "''5''" and ws = "[]" and p = "''.*''"
        and ps = "[Arg32 7]" and t = "''l''" and beyond = "''next'' @ [NUL]" and args = "[]"]
    by (simp add: char_digit_def isdigit_def length_modifiers_def precision_field_def)
qed

end
