(* ===== verification/Block.thy ===== *)
theory Block
  imports Lib_Stdio
begin

text \<open>
  Block devices, \<^verbatim>\<open>devices/block.c\<close>, and partitions, \<^verbatim>\<open>devices/partition.c\<close>. The
  contents of the raw devices that the disk driver serves are a map from sectors to their bytes.
  Allocation takes the next of the results that \<^verbatim>\<open>malloc\<close> will return. Messages on the
  console are left out.
\<close>

section \<open>Data\<close>

datatype block_type =
  BLOCK_KERNEL | BLOCK_FILESYS | BLOCK_SCRATCH | BLOCK_SWAP | BLOCK_RAW | BLOCK_FOREIGN

text \<open>
  The driver operations with their auxiliary data: those of the disk driver, or those of a
  partition with the underlying device and first sector.
\<close>

datatype block_operations = Raw_operations | Partition_operations ptr nat

record block =
  b_name :: string
  b_type :: block_type
  b_size :: nat
  b_ops :: block_operations
  read_cnt :: u64
  write_cnt :: u64

type_synonym sector_data = "byte list"

record blk_state =
  blocks :: "ptr \<Rightarrow> block option"
  all_blocks :: "ptr list"
  block_by_role :: "block_type \<Rightarrow> ptr"
  media :: "ptr \<Rightarrow> nat \<Rightarrow> sector_data"
  malloc_results :: "ptr list"

definition BLOCK_SECTOR_SIZE :: nat where
  "BLOCK_SECTOR_SIZE = 512"

text \<open>
  \<^verbatim>\<open>malloc\<close>: the results of the calls to come, then null pointers, as when no memory is left.
  What \<^verbatim>\<open>free\<close> gives back is part of the results: a list may repeat an address once the
  structure there is gone, except where a property asks for distinct addresses.
\<close>

definition blk_malloc :: "'a blk_state_scheme \<Rightarrow> ptr \<times> 'a blk_state_scheme" where
  "blk_malloc s = (case malloc_results s of [] \<Rightarrow> (NULL, s) | p # ps \<Rightarrow> (p, s\<lparr>malloc_results := ps\<rparr>))"

section \<open>Block devices\<close>

definition is_role :: "block_type \<Rightarrow> bool" where
  "is_role role \<longleftrightarrow> role \<notin> {BLOCK_RAW, BLOCK_FOREIGN}"

definition block_type_name :: "block_type \<Rightarrow> string" where
  "block_type_name t = (case t of
     BLOCK_KERNEL \<Rightarrow> ''kernel'' | BLOCK_FILESYS \<Rightarrow> ''filesys'' | BLOCK_SCRATCH \<Rightarrow> ''scratch''
   | BLOCK_SWAP \<Rightarrow> ''swap'' | BLOCK_RAW \<Rightarrow> ''raw'' | BLOCK_FOREIGN \<Rightarrow> ''foreign'')"

definition block_get_role :: "block_type \<Rightarrow> 'a blk_state_scheme \<Rightarrow> ptr option" where
  "block_get_role role s = do { kassert (is_role role); Some (block_by_role s role) }"

definition block_set_role :: "block_type \<Rightarrow> ptr \<Rightarrow> 'a blk_state_scheme \<Rightarrow> 'a blk_state_scheme option" where
  "block_set_role role b s = do {
     kassert (is_role role);
     Some (s\<lparr>block_by_role := (block_by_role s)(role := b)\<rparr>)
   }"

definition block_first :: "'a blk_state_scheme \<Rightarrow> ptr" where
  "block_first s = (case all_blocks s of [] \<Rightarrow> NULL | b # _ \<Rightarrow> b)"

definition block_next :: "ptr \<Rightarrow> 'a blk_state_scheme \<Rightarrow> ptr option" where
  "block_next b s = (case dropWhile (\<lambda>c. c \<noteq> b) (all_blocks s) of
     [] \<Rightarrow> None | [_] \<Rightarrow> Some NULL | _ # c # _ \<Rightarrow> Some c)"

definition block_get_by_name :: "string \<Rightarrow> 'a blk_state_scheme \<Rightarrow> ptr" where
  "block_get_by_name name s =
    (case find (\<lambda>b. map_option b_name (blocks s b) = Some name) (all_blocks s) of None \<Rightarrow> NULL | Some b \<Rightarrow> b)"

definition check_sector :: "ptr \<Rightarrow> nat \<Rightarrow> 'a blk_state_scheme \<Rightarrow> unit option" where
  "check_sector b sector s = do { bl \<leftarrow> blocks s b; kassert (sector < b_size bl) }"

definition upd_block :: "ptr \<Rightarrow> (block \<Rightarrow> block) \<Rightarrow> 'a blk_state_scheme \<Rightarrow> 'a blk_state_scheme" where
  "upd_block b f s = s\<lparr>blocks := (blocks s)(b := map_option f (blocks s b))\<rparr>"

partial_function (option) block_read ::
  "ptr \<Rightarrow> nat \<Rightarrow> 'a blk_state_scheme \<Rightarrow> (sector_data \<times> 'a blk_state_scheme) option" where
  [code]: "block_read b sector s = do {
     _ \<leftarrow> check_sector b sector s;
     bl \<leftarrow> blocks s b;
     (buf, s) \<leftarrow> (case b_ops bl of
         Raw_operations \<Rightarrow> Some (media s b sector, s)
       | Partition_operations dev start \<Rightarrow> block_read dev (size_add start sector) s);
     Some (buf, upd_block b (read_cnt_update (\<lambda>n. n + 1)) s)
   }"

partial_function (option) block_write ::
  "ptr \<Rightarrow> nat \<Rightarrow> sector_data \<Rightarrow> 'a blk_state_scheme \<Rightarrow> 'a blk_state_scheme option" where
  [code]: "block_write b sector buf s = do {
     _ \<leftarrow> check_sector b sector s;
     bl \<leftarrow> blocks s b;
     kassert (b_type bl \<noteq> BLOCK_FOREIGN);
     s \<leftarrow> (case b_ops bl of
         Raw_operations \<Rightarrow> Some (s\<lparr>media := (media s)(b := (media s b)(sector := buf))\<rparr>)
       | Partition_operations dev start \<Rightarrow> block_write dev (size_add start sector) buf s);
     Some (upd_block b (write_cnt_update (\<lambda>n. n + 1)) s)
   }"

definition block_size :: "ptr \<Rightarrow> 'a blk_state_scheme \<Rightarrow> nat option" where
  "block_size b s = map_option b_size (blocks s b)"

definition block_name :: "ptr \<Rightarrow> 'a blk_state_scheme \<Rightarrow> string option" where
  "block_name b s = map_option b_name (blocks s b)"

definition block_type_of :: "ptr \<Rightarrow> 'a blk_state_scheme \<Rightarrow> block_type option" where
  "block_type_of b s = map_option b_type (blocks s b)"

definition block_register ::
  "string \<Rightarrow> block_type \<Rightarrow> nat \<Rightarrow> block_operations \<Rightarrow> 'a blk_state_scheme \<Rightarrow> (ptr \<times> 'a blk_state_scheme) option" where
  "block_register name t sz ops s = do {
     let (b, s) = blk_malloc s;
     kassert (b \<noteq> NULL);
     Some (b, s\<lparr>all_blocks := all_blocks s @ [b],
        blocks := (blocks s)(b \<mapsto> \<lparr>b_name = take 15 name, b_type = t, b_size = sz, b_ops = ops, read_cnt = 0, write_cnt = 0\<rparr>)\<rparr>)
   }"

section \<open>Partitions\<close>

record partition_table_entry =
  e_type :: byte
  e_offset :: nat
  e_size :: nat

definition le32 :: "sector_data \<Rightarrow> nat \<Rightarrow> nat" where
  "le32 bs i = unat (bs ! i) + 256 * unat (bs ! (i + 1)) + 65536 * unat (bs ! (i + 2)) + 16777216 * unat (bs ! (i + 3))"

definition pt_signature :: "sector_data \<Rightarrow> nat" where
  "pt_signature bs = unat (bs ! 510) + 256 * unat (bs ! 511)"

definition pt_entry :: "sector_data \<Rightarrow> nat \<Rightarrow> partition_table_entry" where
  "pt_entry bs i =
    \<lparr>e_type = bs ! (446 + 16 * i + 4), e_offset = le32 bs (446 + 16 * i + 8), e_size = le32 bs (446 + 16 * i + 12)\<rparr>"

definition partition_block_type :: "byte \<Rightarrow> block_type" where
  "partition_block_type t =
    (if t = 0x20 then BLOCK_KERNEL else if t = 0x21 then BLOCK_FILESYS else if t = 0x22 then BLOCK_SCRATCH
     else if t = 0x23 then BLOCK_SWAP else BLOCK_FOREIGN)"

definition found_partition ::
  "ptr \<Rightarrow> byte \<Rightarrow> nat \<Rightarrow> nat \<Rightarrow> nat \<Rightarrow> 'a blk_state_scheme \<Rightarrow> 'a blk_state_scheme option" where
  "found_partition b t start sz part_nr s = do {
     bsz \<leftarrow> block_size b s;
     if start \<ge> bsz then Some s
     else if size_add start sz < start \<or> size_add start sz > bsz then Some s
     else do {
       let (p, s) = blk_malloc s;
       kassert (p \<noteq> NULL);
       bn \<leftarrow> block_name b s;
       name \<leftarrow> printf_out ''%s%d'' [Arg_str (Some bn), Arg32 (of_nat part_nr)];
       (_, s) \<leftarrow> block_register (take 15 name) (partition_block_type t) sz (Partition_operations b start) s;
       Some s
     }
   }"

text \<open>
  The part of \<^verbatim>\<open>read_partition_table\<close> before the loop: the entries, or \<^term>\<open>None\<close> when
  the table is not usable. The sector that is read is always sector 0.
\<close>

definition read_table ::
  "ptr \<Rightarrow> nat \<Rightarrow> 'a blk_state_scheme \<Rightarrow> (partition_table_entry list option \<times> 'a blk_state_scheme) option" where
  "read_table b sector s = do {
     bsz \<leftarrow> block_size b s;
     if sector \<ge> bsz then Some (None, s)
     else do {
       let (pt, s) = blk_malloc s;
       kassert (pt \<noteq> NULL);
       (bs, s) \<leftarrow> block_read b 0 s;
       if pt_signature bs \<noteq> 0xaa55 then Some (None, s)
       else Some (Some (map (pt_entry bs) [0..<4]), s)
     }
   }"

definition is_extended :: "byte \<Rightarrow> bool" where
  "is_extended t \<longleftrightarrow> t = 0x05 \<or> t = 0x0f \<or> t = 0x85 \<or> t = 0xc5"

text \<open>The loop over the entries of the table in a sector.\<close>

partial_function (option) parse_partitions ::
  "ptr \<Rightarrow> nat \<Rightarrow> nat \<Rightarrow> partition_table_entry list \<Rightarrow> nat \<Rightarrow> 'a blk_state_scheme \<Rightarrow> (nat \<times> 'a blk_state_scheme) option" where
  [code]: "parse_partitions b sector primary es part_nr s =
    (case es of
       [] \<Rightarrow> Some (part_nr, s)
     | e # es \<Rightarrow> do {
         (part_nr, s) \<leftarrow>
           (if e_size e = 0 \<or> e_type e = 0 then Some (part_nr, s)
            else if is_extended (e_type e) then do {
              let sector' = (if sector = 0 then e_offset e else size_add (e_offset e) primary);
              let primary' = (if sector = 0 then e_offset e else primary);
              (t, s) \<leftarrow> read_table b sector' s;
              case t of
                None \<Rightarrow> Some (part_nr, s)
              | Some es' \<Rightarrow> parse_partitions b sector' primary' es' part_nr s
            }
            else do {
              s \<leftarrow> found_partition b (e_type e) (size_add (e_offset e) sector) (e_size e) (part_nr + 1) s;
              Some (part_nr + 1, s)
            });
         parse_partitions b sector primary es part_nr s
       })"

definition read_partition_table ::
  "ptr \<Rightarrow> nat \<Rightarrow> nat \<Rightarrow> nat \<Rightarrow> 'a blk_state_scheme \<Rightarrow> (nat \<times> 'a blk_state_scheme) option" where
  "read_partition_table b sector primary part_nr s = do {
     (t, s) \<leftarrow> read_table b sector s;
     case t of
       None \<Rightarrow> Some (part_nr, s)
     | Some es \<Rightarrow> parse_partitions b sector primary es part_nr s
   }"

definition partition_scan :: "ptr \<Rightarrow> 'a blk_state_scheme \<Rightarrow> 'a blk_state_scheme option" where
  "partition_scan b s = do { (_, s) \<leftarrow> read_partition_table b 0 0 0 s; Some s }"

section \<open>Invariant\<close>

text \<open>Every partition lies inside the raw device under it, and allocation gives unused addresses.\<close>

definition bview :: "'a blk_state_scheme \<Rightarrow> ptr \<Rightarrow> (nat \<times> block_operations) option" where
  "bview s b = map_option (\<lambda>bl. (b_size bl, b_ops bl)) (blocks s b)"

definition blocks_ok :: "'a blk_state_scheme \<Rightarrow> bool" where
  "blocks_ok s \<longleftrightarrow>
    (\<forall>b n ops. bview s b = Some (n, ops) \<longrightarrow> n < 2 ^ 32 \<and>
      (\<forall>dev start. ops = Partition_operations dev start \<longrightarrow>
        (\<exists>k. bview s dev = Some (k, Raw_operations) \<and> start + n \<le> k))) \<and>
    (\<forall>p \<in> set (malloc_results s). p \<noteq> NULL \<longrightarrow> bview s p = None)"

lemma bview_count [simp]:
  "bview (upd_block c (read_cnt_update f) s) = bview s" "bview (upd_block c (write_cnt_update f) s) = bview s"
  "bview (s\<lparr>media := m\<rparr>) = bview s" "bview (s\<lparr>malloc_results := ms\<rparr>) = bview s"
  by (auto simp: bview_def upd_block_def fun_eq_iff option.map_comp comp_def)

lemma blocks_ok_cong: "bview s' = bview s \<Longrightarrow> malloc_results s' = malloc_results s \<Longrightarrow> blocks_ok s' = blocks_ok s"
  by (simp add: blocks_ok_def)

lemma upd_block_media [simp]: "media (upd_block c f s) = media s" "malloc_results (upd_block c f s) = malloc_results s"
  by (simp_all add: upd_block_def)

subsection \<open>Access\<close>

lemma raw_access:
  assumes "blocks s d = Some dl" "b_ops dl = Raw_operations" "i < b_size dl"
  shows "block_read d i s = Some (media s d i, upd_block d (read_cnt_update (\<lambda>n. n + 1)) s)"
    and "b_type dl \<noteq> BLOCK_FOREIGN \<Longrightarrow> block_write d i buf s =
      Some (upd_block d (write_cnt_update (\<lambda>n. n + 1)) (s\<lparr>media := (media s)(d := (media s d)(i := buf))\<rparr>))"
  using assms by (simp_all add: block_read.simps [of d] block_write.simps [of d] check_sector_def)

lemma part_access:
  assumes ok: "blocks_ok s" and p: "blocks s p = Some bl" "b_ops bl = Partition_operations d start" "i < b_size bl"
    and d: "blocks s d = Some dl"
  shows "block_read p i s = Some (media s d (start + i),
      upd_block p (read_cnt_update (\<lambda>n. n + 1)) (upd_block d (read_cnt_update (\<lambda>n. n + 1)) s))"
    and "b_type bl \<noteq> BLOCK_FOREIGN \<Longrightarrow> b_type dl \<noteq> BLOCK_FOREIGN \<Longrightarrow> block_write p i buf s =
      Some (upd_block p (write_cnt_update (\<lambda>n. n + 1)) (upd_block d (write_cnt_update (\<lambda>n. n + 1))
        (s\<lparr>media := (media s)(d := (media s d)(start + i := buf))\<rparr>)))"
proof -
  have dl: "b_ops dl = Raw_operations" "start + i < b_size dl" "start + i < 2 ^ 32"
  proof -
    have pv: "bview s p = Some (b_size bl, Partition_operations d start)" "bview s d = Some (b_size dl, b_ops dl)"
      using p d by (simp_all add: bview_def)
    from ok pv(1) obtain k where "bview s d = Some (k, Raw_operations)" "start + b_size bl \<le> k"
      unfolding blocks_ok_def by blast
    moreover have "b_size dl < 2 ^ 32" using ok pv(2) unfolding blocks_ok_def by blast
    ultimately show "b_ops dl = Raw_operations" "start + i < b_size dl" "start + i < 2 ^ 32" using pv(2) p(3) by auto
  qed
  then have e: "size_add start i = start + i" by simp
  note r = raw_access [OF d dl(1,2)]
  show "block_read p i s = Some (media s d (start + i),
      upd_block p (read_cnt_update (\<lambda>n. n + 1)) (upd_block d (read_cnt_update (\<lambda>n. n + 1)) s))"
    using p by (simp add: block_read.simps [of p] check_sector_def e r(1))
  show "block_write p i buf s =
      Some (upd_block p (write_cnt_update (\<lambda>n. n + 1)) (upd_block d (write_cnt_update (\<lambda>n. n + 1))
        (s\<lparr>media := (media s)(d := (media s d)(start + i := buf))\<rparr>)))"
    if "b_type bl \<noteq> BLOCK_FOREIGN" "b_type dl \<noteq> BLOCK_FOREIGN"
    using p that by (simp add: block_write.simps [of p] check_sector_def e r(2))
qed

subsection \<open>Scanning\<close>

definition scan_ok :: "ptr \<Rightarrow> nat \<Rightarrow> 'a blk_state_scheme \<Rightarrow> bool" where
  "scan_ok b n s \<longleftrightarrow> blocks_ok s \<and> distinct (filter (\<lambda>p. p \<noteq> NULL) (malloc_results s)) \<and> bview s b = Some (n, Raw_operations)"

lemma blk_malloc_ok:
  assumes "scan_ok b n s" "blk_malloc s = (p, s')"
  shows "scan_ok b n s'" "blocks s' = blocks s" "p \<noteq> NULL \<Longrightarrow> blocks s' p = None \<and> p \<notin> set (malloc_results s')"
proof -
  have "scan_ok b n s' \<and> blocks s' = blocks s \<and> (p \<noteq> NULL \<longrightarrow> blocks s' p = None \<and> p \<notin> set (malloc_results s'))"
  proof (cases "malloc_results s")
    case Nil
    then show ?thesis using assms by (auto simp: blk_malloc_def)
  next
    case (Cons q ps)
    then have e: "p = q" "s' = s\<lparr>malloc_results := ps\<rparr>" using assms(2) by (auto simp: blk_malloc_def)
    have "blocks_ok s'" using assms(1) Cons unfolding scan_ok_def blocks_ok_def by (simp add: e)
    moreover have "blocks s q = None" if "q \<noteq> NULL"
      using assms(1) Cons that by (auto simp: scan_ok_def blocks_ok_def bview_def)
    ultimately show ?thesis using assms(1) Cons unfolding scan_ok_def by (auto simp: e split: if_splits)
  qed
  then show "scan_ok b n s'" "blocks s' = blocks s" "p \<noteq> NULL \<Longrightarrow> blocks s' p = None \<and> p \<notin> set (malloc_results s')"
    by blast+
qed

lemma block_register_ok:
  assumes ok: "scan_ok b n s" and r: "block_register name t sz (Partition_operations b start) s = Some (p, s')"
    and fits: "start + sz \<le> n" "n < 2 ^ 32"
  shows "scan_ok b n s'"
proof -
  obtain s1 where m: "blk_malloc s = (p, s1)" "p \<noteq> NULL"
    and s': "s' = s1\<lparr>all_blocks := all_blocks s1 @ [p], blocks := (blocks s1)(p \<mapsto> \<lparr>b_name = take 15 name,
      b_type = t, b_size = sz, b_ops = Partition_operations b start, read_cnt = 0, write_cnt = 0\<rparr>)\<rparr>"
    using r by (cases "blk_malloc s") (auto simp: block_register_def split: if_splits)
  note ok1 = blk_malloc_ok [OF ok m(1)]
  have new: "blocks s1 p = None" "p \<notin> set (malloc_results s1)" using ok1(3) m(2) by simp_all
  have view: "bview s' = (bview s1)(p \<mapsto> (sz, Partition_operations b start))" by (auto simp: bview_def s' fun_eq_iff)
  have new1: "bview s1 p = None" using new(1) by (simp add: bview_def)
  have raw: "bview s1 c = Some (k, Raw_operations) \<Longrightarrow> bview s' c = Some (k, Raw_operations)" for c k
    using new1 by (auto simp: view)
  have "bview s1 b = Some (n, Raw_operations)" and ok_s1: "blocks_ok s1" using ok1(1) by (simp_all add: scan_ok_def)
  then have "bview s' b = Some (n, Raw_operations)" using raw by blast
  moreover have "blocks_ok s'"
    unfolding blocks_ok_def
  proof (intro conjI allI impI ballI)
    fix c k ops
    assume c: "bview s' c = Some (k, ops)"
    show "k < 2 ^ 32" using c fits ok_s1 unfolding blocks_ok_def view by (auto split: if_splits)
    fix dev st
    assume part: "ops = Partition_operations dev st"
    show "\<exists>k'. bview s' dev = Some (k', Raw_operations) \<and> st + k \<le> k'"
    proof (cases "c = p")
      case True
      then have "k = sz" "dev = b" "st = start" using c part by (auto simp: view)
      then show ?thesis using fits(1) \<open>bview s' b = Some (n, Raw_operations)\<close> by blast
    next
      case False
      then have "bview s1 c = Some (k, ops)" using c by (simp add: view)
      then show ?thesis using ok_s1 part raw unfolding blocks_ok_def by blast
    qed
  next
    fix q
    assume "q \<in> set (malloc_results s')" "q \<noteq> NULL"
    then show "bview s' q = None" using ok_s1 new(2) unfolding blocks_ok_def view by (auto simp: s')
  qed
  moreover have "malloc_results s' = malloc_results s1" by (simp add: s')
  ultimately show ?thesis using ok1(1) by (simp add: scan_ok_def)
qed

lemma found_partition_ok:
  assumes ok: "scan_ok b n s" and f: "found_partition b t start sz k s = Some s'" and sz: "sz < 2 ^ 32"
  shows "scan_ok b n s'"
proof -
  have bsz: "block_size b s = Some n" "n < 2 ^ 32"
    using ok by (auto simp: scan_ok_def bview_def block_size_def blocks_ok_def)
  show ?thesis
  proof (cases "start \<ge> n \<or> size_add start sz < start \<or> size_add start sz > n")
    case True
    then have "s' = s" using f bsz(1) by (auto simp: found_partition_def split: if_splits)
    then show ?thesis using ok by simp
  next
    case False
    have "start + sz \<le> n"
    proof (cases "start + sz < 2 ^ 32")
      case True
      then show ?thesis using False by simp
    next
      case wrap: False
      have "start + sz - 2 ^ 32 < 2 ^ 32" using sz False bsz(2) by linarith
      then have "size_add start sz = start + sz - 2 ^ 32" using wrap by (simp add: size_add_def le_mod_geq)
      then show ?thesis using wrap False sz by linarith
    qed
    moreover obtain p s1 name q s2 where "blk_malloc s = (p, s1)"
      "block_register (take 15 name) (partition_block_type t) sz (Partition_operations b start) s1 = Some (q, s2)" "s' = s2"
      using f bsz(1) False by (cases "blk_malloc s") (auto simp: found_partition_def bind_eq_Some_conv split: if_splits)
    ultimately show ?thesis using block_register_ok blk_malloc_ok(1) [OF ok] bsz(2) by metis
  qed
qed

lemma unat_byte_less: "unat b \<le> 255" for b :: byte
  using unsigned_less [of b, where 'a = nat] by simp

lemma le32_less: "le32 bs i < 2 ^ 32"
  using unat_byte_less [of "bs ! i"] unat_byte_less [of "bs ! (i + 1)"] unat_byte_less [of "bs ! (i + 2)"]
    unat_byte_less [of "bs ! (i + 3)"] by (simp add: le32_def)

lemma raw_read:
  assumes "scan_ok b n s" "block_read b i s = Some (bs, s')"
  shows "scan_ok b n s'" "media s' = media s" "bs = media s b i"
proof -
  obtain bl where bl: "blocks s b = Some bl" "b_ops bl = Raw_operations" using assms(1) by (auto simp: scan_ok_def bview_def)
  then have "i < b_size bl" using assms(2) by (auto simp: block_read.simps [of b] check_sector_def split: if_splits)
  then show "scan_ok b n s'" "media s' = media s" "bs = media s b i"
    using raw_access(1) [OF bl] assms by (auto simp: scan_ok_def blocks_ok_def)
qed

lemma read_table_ok:
  assumes ok: "scan_ok b n s" and r: "read_table b sector s = Some (t, s')"
  shows "scan_ok b n s'" "media s' = media s" "t = Some es \<Longrightarrow> e \<in> set es \<Longrightarrow> e_size e < 2 ^ 32"
    "t = Some es \<Longrightarrow> es = map (pt_entry (media s b 0)) [0..<4]"
proof -
  obtain p s1 where m: "blk_malloc s = (p, s1)" by fastforce
  have media: "media s1 = media s" using m by (auto simp: blk_malloc_def split: list.splits)
  consider "s' = s" "t = None" | bs where "block_read b 0 s1 = Some (bs, s')"
      "t = None \<or> t = Some (map (pt_entry bs) [0..<4])"
    using r m by (auto simp: read_table_def bind_eq_Some_conv split: if_splits)
  then have "scan_ok b n s' \<and> media s' = media s \<and> (t = Some es \<longrightarrow> es = map (pt_entry (media s b 0)) [0..<4])"
  proof cases
    case 1
    then show ?thesis using ok by simp
  next
    case 2
    note rr = raw_read [OF blk_malloc_ok(1) [OF ok m] 2(1)]
    show ?thesis using rr media 2(2) by auto
  qed
  then show "scan_ok b n s'" "media s' = media s" "t = Some es \<Longrightarrow> es = map (pt_entry (media s b 0)) [0..<4]"
    by blast+
  then show "t = Some es \<Longrightarrow> e \<in> set es \<Longrightarrow> e_size e < 2 ^ 32" by (auto simp: pt_entry_def le32_less [simplified])
qed

lemma parse_partitions_ok:
  assumes "parse_partitions b sector primary es k s = Some r"
  shows "scan_ok b n s \<longrightarrow> (\<forall>e \<in> set es. e_size e < 2 ^ 32) \<longrightarrow> scan_ok b n (snd r)"
proof (rule parse_partitions.raw_induct [where P = "\<lambda>b sector primary es k s r.
    scan_ok b n s \<longrightarrow> (\<forall>e \<in> set es. e_size e < 2 ^ 32) \<longrightarrow> scan_ok b n (snd r)", OF _ assms], goal_cases)
  case (1 rec b sector primary es k s r)
  show ?case
  proof (intro impI)
    assume ok: "scan_ok b n s" and sz: "\<forall>e \<in> set es. e_size e < 2 ^ 32"
    obtain k' s' where r: "r = (k', s')" by fastforce
    have "scan_ok b n s'"
    proof (cases es)
      case Nil
      then show ?thesis using 1(2) ok r by simp
    next
      case (Cons e es')
      from 1(2) Cons r obtain k1 s1 where step: "(if e_size e = 0 \<or> e_type e = 0 then Some (k, s)
            else if is_extended (e_type e) then do {
              let sector' = (if sector = 0 then e_offset e else size_add (e_offset e) primary);
              let primary' = (if sector = 0 then e_offset e else primary);
              (t, s) \<leftarrow> read_table b sector' s;
              case t of
                None \<Rightarrow> Some (k, s)
              | Some es' \<Rightarrow> rec b sector' primary' es' k s
            }
            else do {
              s \<leftarrow> found_partition b (e_type e) (size_add (e_offset e) sector) (e_size e) (k + 1) s;
              Some (k + 1, s)
            }) = Some (k1, s1)" and rest: "rec b sector primary es' k1 s1 = Some (k', s')"
        by (auto simp: bind_eq_Some_conv)
      have "scan_ok b n s1"
      proof (cases "e_size e = 0 \<or> e_type e = 0")
        case True
        then show ?thesis using step ok by simp
      next
        case nonempty: False
        show ?thesis
        proof (cases "is_extended (e_type e)")
          case True
          then obtain sc t s2 pm where t: "read_table b sc s = Some (t, s2)"
            "(case t of None \<Rightarrow> Some (k, s2) | Some es' \<Rightarrow> rec b sc pm es' k s2) = Some (k1, s1)"
            using step nonempty by (auto simp: bind_eq_Some_conv Let_def)
          show ?thesis
          proof (cases t)
            case None
            then show ?thesis using t read_table_ok(1) [OF ok t(1)] by simp
          next
            case (Some es2)
            then have "rec b sc pm es2 k s2 = Some (k1, s1)" using t(2) by simp
            from 1(1) [OF this] show ?thesis using read_table_ok(1,3) [OF ok t(1)] Some by simp
          qed
        next
          case False
          then obtain s2 where "found_partition b (e_type e) (size_add (e_offset e) sector) (e_size e) (k + 1) s = Some s2" "s1 = s2"
            using step nonempty by (auto simp: bind_eq_Some_conv)
          then show ?thesis using found_partition_ok [OF ok] sz Cons by auto
        qed
      qed
      then show ?thesis using 1(1) [OF rest] sz Cons by simp
    qed
    then show "scan_ok b n (snd r)" by (simp add: r)
  qed
qed

lemma partition_scan_ok:
  assumes "scan_ok b n s" "partition_scan b s = Some s'"
  shows "scan_ok b n s'"
proof -
  obtain t s1 k where t: "read_table b 0 s = Some (t, s1)"
    "(case t of None \<Rightarrow> Some (0, s1) | Some es \<Rightarrow> parse_partitions b 0 0 es 0 s1) = Some (k, s')"
    using assms(2) by (auto simp: partition_scan_def read_partition_table_def bind_eq_Some_conv)
  note r = read_table_ok [OF assms(1) t(1)]
  show ?thesis
  proof (cases t)
    case None
    then show ?thesis using t(2) r(1) by simp
  next
    case (Some es)
    then have "parse_partitions b 0 0 es 0 s1 = Some (k, s')" using t(2) by simp
    from parse_partitions_ok [OF this, of n] show ?thesis using r(1,3) Some by simp
  qed
qed

subsection \<open>Extended partitions\<close>

lemma read_table_again:
  assumes "scan_ok b n s" "read_table b sector s = Some (t, s')" "sector < n" "pt_signature (media s b 0) = 0xaa55"
  shows "t = Some (map (pt_entry (media s b 0)) [0..<4])"
proof -
  obtain p s1 where m: "blk_malloc s = (p, s1)" by fastforce
  have media: "media s1 = media s" using m by (auto simp: blk_malloc_def split: list.splits)
  have "block_size b s = Some n" using assms(1) by (auto simp: scan_ok_def bview_def block_size_def)
  then obtain bs where bs: "block_read b 0 s1 = Some (bs, s')"
      "t = (if pt_signature bs \<noteq> 0xaa55 then None else Some (map (pt_entry bs) [0..<4]))"
    using assms(2,3) m by (auto simp: read_table_def bind_eq_Some_conv split: if_splits)
  then show ?thesis using raw_read(3) [OF blk_malloc_ok(1) [OF assms(1) m] bs(1)] media assms(4) by simp
qed

lemma parse_extended_loops:
  assumes bs: "pt_signature bs = 0xaa55" "is_extended (e_type (pt_entry bs 0))" "e_size (pt_entry bs 0) \<noteq> 0"
    and o: "e_offset (pt_entry bs 0) = ofs" "0 < ofs" "2 * ofs < n" "n < 2 ^ 32"
    and run: "parse_partitions b sector primary es k s = Some r"
  shows "\<not> (scan_ok b n s \<and> media s b 0 = bs \<and> es = map (pt_entry bs) [0..<4] \<and> (sector = 0 \<or> primary = ofs))"
proof (rule parse_partitions.raw_induct [where P = "\<lambda>b sector primary es k s r.
    \<not> (scan_ok b n s \<and> media s b 0 = bs \<and> es = map (pt_entry bs) [0..<4] \<and> (sector = 0 \<or> primary = ofs))", OF _ run],
    goal_cases)
  case (1 rec b sector primary es k s r)
  show ?case
  proof
    assume a: "scan_ok b n s \<and> media s b 0 = bs \<and> es = map (pt_entry bs) [0..<4] \<and> (sector = 0 \<or> primary = ofs)"
    define sc where "sc = (if sector = 0 then ofs else size_add ofs primary)"
    define pm where "pm = (if sector = 0 then ofs else primary)"
    have sc: "sc < n" "pm = ofs" using a o by (auto simp: sc_def pm_def)
    have es: "es = pt_entry bs 0 # map (pt_entry bs) [1..<4]" using a by (simp add: upt_rec)
    have "e_type (pt_entry bs 0) \<noteq> 0" using bs(2) by (auto simp: is_extended_def)
    with 1(2) es obtain t s2 r2 where t: "read_table b sc s = Some (t, s2)"
      "(case t of None \<Rightarrow> Some (k, s2) | Some es' \<Rightarrow> rec b sc pm es' k s2) = Some r2"
      using bs(2,3) unfolding sc_def pm_def o(1) [symmetric] by (auto simp: bind_eq_Some_conv Let_def)
    have te: "t = Some (map (pt_entry bs) [0..<4])" using read_table_again [OF _ t(1) sc(1)] a bs(1) by simp
    then have "rec b sc pm (map (pt_entry bs) [0..<4]) k s2 = Some r2" using t(2) by simp
    from 1(1) [OF this] show False using read_table_ok(1) [OF _ t(1)] read_table_ok(2) [OF _ t(1), of n] a sc(2) by simp
  qed
qed

text \<open>
  A call of \<^verbatim>\<open>read_partition_table\<close>, given by its sector, primary extended sector, partition
  number and state, reaches a nested call: it has read the table, dealt with the entries before an
  extended one, and calls itself for that entry.
\<close>

inductive nested_call ::
  "ptr \<Rightarrow> nat \<times> nat \<times> nat \<times> 'a blk_state_scheme \<Rightarrow> nat \<times> nat \<times> nat \<times> 'a blk_state_scheme \<Rightarrow> bool" for b where
  "read_table b sector s = Some (Some (es @ e # es'), s1) \<Longrightarrow>
   parse_partitions b sector primary es part_nr s1 = Some (part_nr', s2) \<Longrightarrow>
   e_size e \<noteq> 0 \<Longrightarrow> is_extended (e_type e) \<Longrightarrow>
   nested_call b (sector, primary, part_nr, s)
     (if sector = 0 then e_offset e else size_add (e_offset e) primary, if sector = 0 then e_offset e else primary, part_nr', s2)"

lemma read_table_step:
  assumes "scan_ok b n s" "sector < n" "pt_signature (media s b 0) = 0xaa55" "malloc_results s = p # ps" "p \<noteq> NULL"
  shows "read_table b sector s = Some (Some (map (pt_entry (media s b 0)) [0..<4]),
    upd_block b (read_cnt_update (\<lambda>n. n + 1)) (s\<lparr>malloc_results := ps\<rparr>))"
proof -
  obtain bl where bl: "blocks s b = Some bl" "b_size bl = n" "b_ops bl = Raw_operations"
    using assms(1) by (auto simp: scan_ok_def bview_def)
  then have "block_read b 0 (s\<lparr>malloc_results := ps\<rparr>) =
      Some (media s b 0, upd_block b (read_cnt_update (\<lambda>n. n + 1)) (s\<lparr>malloc_results := ps\<rparr>))"
    using raw_access(1) [of "s\<lparr>malloc_results := ps\<rparr>" b bl 0] assms(2) by simp
  then show ?thesis using assms(2-) bl(1,2) by (simp add: read_table_def block_size_def blk_malloc_def)
qed

lemma nested_depth:
  assumes "scan_ok b n s" "n < 2 ^ 32" "media s b 0 = bs" "pt_signature bs = 0xaa55"
    and e: "is_extended (e_type (pt_entry bs 0))" "e_size (pt_entry bs 0) \<noteq> 0"
    and o: "e_offset (pt_entry bs 0) = ofs" "0 < ofs" "2 * ofs < n"
    and "sector < n" "sector = 0 \<or> primary = ofs"
  shows "\<exists>sector' primary' s'. (nested_call b ^^ length (takeWhile (\<lambda>p. p \<noteq> NULL) (malloc_results s)))
    (sector, primary, k, s) (sector', primary', k, s') \<and> sector' < n \<and> fst (blk_malloc s') = NULL"
  using assms(1,3,10,11)
proof (induction "malloc_results s" arbitrary: s sector primary)
  case Nil
  then show ?case
    by (intro exI [of _ sector] exI [of _ primary] exI [of _ s]) (simp add: blk_malloc_def Nil.hyps [symmetric])
next
  case (Cons p ps)
  show ?case
  proof (cases "p = NULL")
    case True
    then show ?thesis using Cons.prems
      by (intro exI [of _ sector] exI [of _ primary] exI [of _ s]) (simp add: blk_malloc_def Cons.hyps(2) [symmetric])
  next
    case False
    define s1 where "s1 = upd_block b (read_cnt_update (\<lambda>n. n + 1)) (s\<lparr>malloc_results := ps\<rparr>)"
    define sc where "sc = (if sector = 0 then ofs else size_add ofs primary)"
    define pm where "pm = (if sector = 0 then ofs else primary)"
    have sc: "sc < n" "pm = ofs" using Cons.prems(4) o(2,3) assms(2) by (auto simp: sc_def pm_def)
    have t: "read_table b sector s = Some (Some (map (pt_entry bs) [0..<4]), s1)"
      using read_table_step [OF Cons.prems(1,3) _ Cons.hyps(2) [symmetric] False] Cons.prems(2) assms(4) by (simp add: s1_def)
    have "map (pt_entry bs) [0..<4] = [] @ pt_entry bs 0 # map (pt_entry bs) [1..<4]" by (simp add: upt_rec)
    from nested_call.intros [where primary = primary and part_nr = k, OF t [unfolded this] _ e(2,1)]
    have step: "nested_call b (sector, primary, k, s) (sc, pm, k, s1)"
      by (cases "sector = 0") (simp_all add: parse_partitions.simps [where es = "[]"] sc_def pm_def o(1))
    have "ps = malloc_results s1" "media s1 b 0 = bs" using Cons.prems(2) by (simp_all add: s1_def)
    then obtain sector' primary' s' where "(nested_call b ^^ length (takeWhile (\<lambda>p. p \<noteq> NULL) ps)) (sc, pm, k, s1) (sector', primary', k, s')"
        "sector' < n" "fst (blk_malloc s') = NULL"
      using Cons.hyps(1) [of s1 sc pm] read_table_ok(1) [OF Cons.prems(1) t] sc by auto
    then show ?thesis
      using relpowp_Suc_I2 [where P = "nested_call b" and x = "(sector, primary, k, s)" and y = "(sc, pm, k, s1)", OF step] False
      by (simp add: Cons.hyps(2) [symmetric] del: relpowp.simps) blast
  qed
qed

section \<open>Properties\<close>

text \<open>
  C38. A partition that \<^verbatim>\<open>partition_scan\<close> registers is a window of its device: it lies inside
  the device, even where the table's start and size add up beyond 32 bits; reading and writing its
  sector \<open>i\<close> reads and writes sector \<open>start + i\<close> of the device and changes no other sector, so a
  write is read back and the other sectors of the partition keep their contents; an access at or
  past its end stops the kernel.
\<close>

theorem partition_window:
  assumes "scan_ok d0 n s0" "partition_scan d0 s0 = Some s"
    and "blocks s p = Some bl" "b_ops bl = Partition_operations d start" "b_type bl \<noteq> BLOCK_FOREIGN"
    and "blocks s d = Some dl" "b_type dl \<noteq> BLOCK_FOREIGN"
  shows "start + b_size bl \<le> b_size dl \<and>
    (\<forall>i < b_size bl. \<exists>s'. block_write p i buf s = Some s' \<and>
       media s' = (media s)(d := (media s d)(start + i := buf)) \<and>
       (\<forall>j < b_size bl. map_option fst (block_read p j s') = Some (if j = i then buf else media s d (start + j)))) \<and>
    (\<forall>i \<ge> b_size bl. block_read p i s = None \<and> block_write p i buf s = None)"
proof (intro conjI allI impI)
  have ok: "blocks_ok s" using partition_scan_ok [OF assms(1,2)] by (simp add: scan_ok_def)
  have "bview s p = Some (b_size bl, Partition_operations d start)" "bview s d = Some (b_size dl, b_ops dl)"
    using assms by (simp_all add: bview_def)
  then show "start + b_size bl \<le> b_size dl" using ok unfolding blocks_ok_def by fastforce
  fix i
  show "\<exists>s'. block_write p i buf s = Some s' \<and> media s' = (media s)(d := (media s d)(start + i := buf)) \<and>
       (\<forall>j < b_size bl. map_option fst (block_read p j s') = Some (if j = i then buf else media s d (start + j)))"
    if i: "i < b_size bl"
  proof -
    define s' where "s' = upd_block p (write_cnt_update (\<lambda>n. n + 1)) (upd_block d (write_cnt_update (\<lambda>n. n + 1))
        (s\<lparr>media := (media s)(d := (media s d)(start + i := buf))\<rparr>))"
    have w: "block_write p i buf s = Some s'"
      unfolding s'_def by (rule part_access(2) [OF ok assms(3,4) i assms(6,5,7)])
    have m: "media s' = (media s)(d := (media s d)(start + i := buf))" by (simp add: s'_def)
    have ok': "blocks_ok s'" using ok by (simp add: s'_def blocks_ok_def)
    obtain bl' where bl': "blocks s' p = Some bl'" "b_ops bl' = Partition_operations d start" "b_size bl' = b_size bl"
      using assms(3,4) by (cases "p = d") (auto simp: s'_def upd_block_def)
    obtain dl' where dl': "blocks s' d = Some dl'" using assms(6) by (cases "p = d") (auto simp: s'_def upd_block_def)
    have "map_option fst (block_read p j s') = Some (if j = i then buf else media s d (start + j))" if "j < b_size bl" for j
      using part_access(1) [OF ok' bl'(1,2) _ dl', of j] that bl'(3) by (simp add: m)
    then show ?thesis using w m by blast
  qed
  show "block_read p i s = None" "block_write p i buf s = None" if "b_size bl \<le> i"
    using that assms(3) by (simp_all add: block_read.simps [of p] block_write.simps [of p] check_sector_def)
qed

text \<open>A disk of 8 sectors with one Pintos file system partition, sectors 2 to 5.\<close>

definition ex_mbr :: sector_data where
  "ex_mbr = replicate 450 0 @ [0x21, 0, 0, 0, 2, 0, 0, 0, 4, 0, 0, 0] @ replicate 48 0 @ [0x55, 0xaa]"

definition ex_disk :: blk_state where
  "ex_disk = \<lparr>blocks = [5 \<mapsto> \<lparr>b_name = ''hda'', b_type = BLOCK_RAW, b_size = 8, b_ops = Raw_operations,
       read_cnt = 0, write_cnt = 0\<rparr>], all_blocks = [5], block_by_role = (\<lambda>_. NULL),
     media = (\<lambda>_ i. if i = 0 then ex_mbr else []), malloc_results = [10, 11, 12, 13]\<rparr>"

lemma ex_name: "printf_out ''%s%d'' [Arg_str (Some ''hda''), Arg32 1] = Some ''hda1''"
  by code_simp

lemma ex_entries:
  "pt_signature ex_mbr = 0xaa55" "pt_entry ex_mbr 0 = \<lparr>e_type = 0x21, e_offset = 2, e_size = 4\<rparr>"
  "pt_entry ex_mbr (Suc 0) = \<lparr>e_type = 0, e_offset = 0, e_size = 0\<rparr>" "pt_entry ex_mbr 2 = \<lparr>e_type = 0, e_offset = 0, e_size = 0\<rparr>"
  "pt_entry ex_mbr 3 = \<lparr>e_type = 0, e_offset = 0, e_size = 0\<rparr>"
  by (simp_all add: pt_signature_def pt_entry_def le32_def ex_mbr_def nth_append nth_Cons')

lemma ex_scan_ok: "scan_ok 5 8 ex_disk"
  by (auto simp: scan_ok_def blocks_ok_def bview_def ex_disk_def split: if_splits)

definition ex_scanned :: blk_state where
  "ex_scanned = ex_disk\<lparr>blocks := [5 \<mapsto> \<lparr>b_name = ''hda'', b_type = BLOCK_RAW, b_size = 8, b_ops = Raw_operations,
       read_cnt = 1, write_cnt = 0\<rparr>, 12 \<mapsto> \<lparr>b_name = ''hda1'', b_type = BLOCK_FILESYS, b_size = 4,
       b_ops = Partition_operations 5 2, read_cnt = 0, write_cnt = 0\<rparr>],
     all_blocks := [5, 12], malloc_results := [13]\<rparr>"

lemma ex_found: "found_partition 5 0x21 2 4 (Suc 0) (upd_block 5 (read_cnt_update (\<lambda>n. n + 1)) (ex_disk\<lparr>malloc_results := [11, 12, 13]\<rparr>))
    = Some ex_scanned"
  by (simp add: found_partition_def block_register_def ex_disk_def ex_scanned_def upd_block_def block_size_def
      block_name_def blk_malloc_def ex_name partition_block_type_def)

lemma ex_table: "read_table 5 0 ex_disk = Some (Some (map (pt_entry ex_mbr) [0..<4]),
    upd_block 5 (read_cnt_update (\<lambda>n. n + 1)) (ex_disk\<lparr>malloc_results := [11, 12, 13]\<rparr>))"
  by (simp add: read_table_def block_size_def ex_disk_def blk_malloc_def raw_access(1) ex_entries(1))

lemma ex_scan: "partition_scan 5 ex_disk = Some ex_scanned"
proof -
  have es: "map (pt_entry ex_mbr) [0..<4] = [pt_entry ex_mbr 0, pt_entry ex_mbr 1, pt_entry ex_mbr 2, pt_entry ex_mbr 3]"
    by (simp add: upt_rec numeral_eq_Suc)
  show ?thesis
    by (simp add: partition_scan_def read_partition_table_def ex_table es ex_entries(2-) parse_partitions.simps
        is_extended_def ex_found)
qed

theorem partition_window_witness:
  "\<exists>s. partition_scan 5 ex_disk = Some s \<and> (\<exists>s'. block_write 12 3 [7] s = Some s' \<and>
    map_option fst (block_read 12 3 s') = Some [7] \<and> block_read 12 4 s = None)"
proof -
  define bl where "bl = the (blocks ex_scanned 12)"
  have "blocks ex_scanned 12 = Some bl" "blocks ex_scanned 5 = Some (the (blocks ex_scanned 5))"
    "b_type (the (blocks ex_scanned 5)) \<noteq> BLOCK_FOREIGN" "b_size bl = 4" "b_type bl \<noteq> BLOCK_FOREIGN"
    "b_ops bl = Partition_operations 5 2"
    by (simp_all add: bl_def ex_scanned_def)
  note w = partition_window [OF ex_scan_ok ex_scan this(1) this(6,5,2,3), of "[7]", unfolded this(4)]
  have "\<exists>s'. block_write 12 3 [7] ex_scanned = Some s' \<and> map_option fst (block_read 12 3 s') = Some [7]"
    using w [THEN conjunct2, THEN conjunct1, rule_format, of 3]
    by (elim meta_impE exE conjE allE [where x = "3::nat"]) simp_all
  moreover have "block_read 12 4 ex_scanned = None" using w by blast
  ultimately show ?thesis using ex_scan by blast
qed

text \<open>
  C39. A master boot record whose first entry is an extended partition that starts in the first half
  of the disk makes \<^verbatim>\<open>read_partition_table\<close> call itself as deep as there is memory: its
  table is read from sector 0 again, whatever sector is asked for. As long as allocations succeed each call
  reaches a nested one, so with \<open>k\<close> successes, for any \<open>k\<close>, there are \<open>k\<close> calls inside one
  another; the last of them is for a sector of the disk and gets no memory for its table, which stops the
  kernel. The scan never returns.
\<close>

theorem partition_scan_extended_loops:
  assumes "scan_ok d n s" "n < 2 ^ 32" "pt_signature (media s d 0) = 0xaa55"
    and "is_extended (e_type (pt_entry (media s d 0) 0))" "e_size (pt_entry (media s d 0) 0) \<noteq> 0"
    and "0 < e_offset (pt_entry (media s d 0) 0)" "2 * e_offset (pt_entry (media s d 0) 0) < n"
  shows "(\<exists>sector primary s'. (nested_call d ^^ length (takeWhile (\<lambda>p. p \<noteq> NULL) (malloc_results s)))
      (0, 0, 0, s) (sector, primary, 0, s') \<and> sector < n \<and> fst (blk_malloc s') = NULL) \<and>
    partition_scan d s = None"
proof (intro conjI, rule nested_depth [OF assms(1,2) refl assms(3-5) refl assms(6,7)])
  show "0 < n" "0 = (0 :: nat) \<or> 0 = e_offset (pt_entry (media s d 0) 0)" using assms(7) by simp_all
  show "partition_scan d s = None"
  proof (rule ccontr)
    assume "partition_scan d s \<noteq> None"
    then obtain t s1 r where t: "read_table d 0 s = Some (t, s1)"
      "(case t of None \<Rightarrow> Some (0, s1) | Some es \<Rightarrow> parse_partitions d 0 0 es 0 s1) = Some r"
      by (auto simp: partition_scan_def read_partition_table_def bind_eq_Some_conv)
    have "t = Some (map (pt_entry (media s d 0)) [0..<4])" using read_table_again [OF assms(1) t(1)] assms(3,7) by simp
    then have "parse_partitions d 0 0 (map (pt_entry (media s d 0)) [0..<4]) 0 s1 = Some r" using t(2) by simp
    from parse_extended_loops [OF assms(3-5) refl assms(6,7,2) this] show False
      using read_table_ok(1,2) [OF assms(1) t(1)] by simp
  qed
qed

definition ex_ext_mbr :: sector_data where
  "ex_ext_mbr = replicate 450 0 @ [0x05, 0, 0, 0, 2, 0, 0, 0, 4, 0, 0, 0] @ replicate 48 0 @ [0x55, 0xaa]"

lemma ex_ext_entries:
  "pt_signature ex_ext_mbr = 0xaa55" "pt_entry ex_ext_mbr 0 = \<lparr>e_type = 0x05, e_offset = 2, e_size = 4\<rparr>"
  by (simp_all add: pt_signature_def pt_entry_def le32_def ex_ext_mbr_def nth_append nth_Cons')

theorem partition_scan_extended_loops_witness:
  "(\<exists>c. (nested_call 5 ^^ 4) (0, 0, 0, ex_disk\<lparr>media := (\<lambda>_ _. ex_ext_mbr)\<rparr>) c) \<and>
    partition_scan 5 (ex_disk\<lparr>media := (\<lambda>_ _. ex_ext_mbr)\<rparr>) = None"
proof -
  have "scan_ok 5 8 (ex_disk\<lparr>media := (\<lambda>_ _. ex_ext_mbr)\<rparr>)"
    using ex_scan_ok by (simp add: scan_ok_def blocks_ok_def)
  moreover have "length (takeWhile (\<lambda>p. p \<noteq> NULL) (malloc_results (ex_disk\<lparr>media := (\<lambda>_ _. ex_ext_mbr)\<rparr>))) = 4"
    by (simp add: ex_disk_def)
  ultimately show ?thesis
    using partition_scan_extended_loops [where s = "ex_disk\<lparr>media := (\<lambda>_ _. ex_ext_mbr)\<rparr>" and d = 5 and n = 8]
    by (simp add: ex_ext_entries is_extended_def del: relpowp.simps) blast
qed

end
