(* ===== verification/Inode.thy ===== *)
theory Inode
  imports Block Kernel_Bitmap "HOL-Library.Signed_Division" "HOL-Library.Sublist"
begin

text \<open>
  Files on the disk: \<^verbatim>\<open>filesys/inode.c\<close>, \<^verbatim>\<open>filesys/file.c\<close>,
  \<^verbatim>\<open>filesys/free-map.c\<close> and the file operations of \<^verbatim>\<open>lib/kernel/bitmap.c\<close>.
  The in-memory inodes and files are typed heaps over the block layer. An \<^verbatim>\<open>off_t\<close> is
  an integer in the range of 32 bits, with wrap-around where a difference or sum can leave it, and
  division rounds towards zero. A caller's buffer is the list of its bytes.
\<close>

section \<open>Data\<close>

record inode_disk =
  id_start :: nat
  id_length :: int
  id_magic :: nat

record inode =
  i_sector :: nat
  open_cnt :: int
  removed :: bool
  deny_write_cnt :: int
  i_data :: inode_disk

record open_file =
  f_inode :: ptr
  f_pos :: int
  f_deny_write :: bool

record dir =
  d_inode :: ptr
  d_pos :: int

record fs_state = blk_state +
  fs_device :: ptr
  inodes :: "ptr \<Rightarrow> inode option"
  open_inodes :: "ptr list"
  files :: "ptr \<Rightarrow> open_file option"
  dirs :: "ptr \<Rightarrow> dir option"
  free_map :: "bitmap option"
  free_map_file :: ptr

definition INODE_MAGIC :: nat where
  "INODE_MAGIC = 0x494e4f44"

definition FREE_MAP_SECTOR :: nat where
  "FREE_MAP_SECTOR = 0"

definition ROOT_DIR_SECTOR :: nat where
  "ROOT_DIR_SECTOR = 1"

text \<open>The sector that holds an inode: three little-endian words, the rest unused.\<close>

definition le_bytes :: "nat \<Rightarrow> byte list" where
  "le_bytes n = [of_nat n, of_nat (n div 256), of_nat (n div 65536), of_nat (n div 16777216)]"

definition inode_bytes :: "inode_disk \<Rightarrow> sector_data" where
  "inode_bytes d = le_bytes (id_start d) @ le_bytes (nat (id_length d mod 2 ^ 32)) @ le_bytes (id_magic d) @ replicate 500 0"

definition bytes_inode :: "sector_data \<Rightarrow> inode_disk" where
  "bytes_inode bs = \<lparr>id_start = le32 bs 0, id_length = int32 (int (le32 bs 4)), id_magic = le32 bs 8\<rparr>"

section \<open>Inode contents\<close>

definition bytes_to_sectors :: "int \<Rightarrow> nat" where
  "bytes_to_sectors sz = nat ((int32 (int32 (sz + 512) - 1) sdiv 512) mod 2 ^ 32)"

definition byte_to_sector :: "inode \<Rightarrow> int \<Rightarrow> nat" where
  "byte_to_sector ino pos =
    (if pos < id_length (i_data ino) then nat ((int (id_start (i_data ino)) + pos sdiv 512) mod 2 ^ 32) else 2 ^ 32 - 1)"

definition inode_length :: "ptr \<Rightarrow> 'a fs_state_scheme \<Rightarrow> int option" where
  "inode_length p s = map_option (id_length \<circ> i_data) (inodes s p)"

definition inode_get_inumber :: "ptr \<Rightarrow> 'a fs_state_scheme \<Rightarrow> nat option" where
  "inode_get_inumber p s = map_option i_sector (inodes s p)"

text \<open>The chunk of a sector that one turn of the copying loops handles.\<close>

definition sector_ofs :: "int \<Rightarrow> int" where
  "sector_ofs offset = offset smod 512"

definition chunk_size :: "inode \<Rightarrow> int \<Rightarrow> int \<Rightarrow> int" where
  "chunk_size ino sz offset =
    (let inode_left = int32 (id_length (i_data ino) - offset);
         sector_left = 512 - sector_ofs offset;
         min_left = (if inode_left < sector_left then inode_left else sector_left)
     in if sz < min_left then sz else min_left)"

text \<open>
  The loop of \<^verbatim>\<open>inode_read_at\<close>: \<open>bounce\<close> says whether the bounce buffer is
  allocated; the result is the number of bytes read and the bytes. At a negative offset the remainder
  is negative, and the copy would start before the bounce buffer: that stops the run.
\<close>

function inode_read_loop ::
  "ptr \<Rightarrow> int \<Rightarrow> int \<Rightarrow> int \<Rightarrow> byte list \<Rightarrow> bool \<Rightarrow> 'a fs_state_scheme \<Rightarrow> (int \<times> byte list \<times> 'a fs_state_scheme) option" where
  "inode_read_loop p sz offset bytes_read out bounce s =
    (if sz > 0 then
       case inodes s p of
         None \<Rightarrow> None
       | Some ino \<Rightarrow>
           let chunk = chunk_size ino sz offset; so = sector_ofs offset; idx = byte_to_sector ino offset in
           if chunk \<le> 0 then Some (bytes_read, out, s)
           else if so = 0 \<and> chunk = 512 then do {
             (bs, s) \<leftarrow> block_read (fs_device s) idx s;
             inode_read_loop p (sz - chunk) (offset + chunk) (bytes_read + chunk) (out @ bs) bounce s
           }
           else do {
             let (ok, s) = (if bounce then (True, s) else let (b, s) = blk_malloc s in (b \<noteq> NULL, s));
             if \<not> ok then Some (bytes_read, out, s)
             else if so < 0 then None
             else do {
               (bs, s) \<leftarrow> block_read (fs_device s) idx s;
               inode_read_loop p (sz - chunk) (offset + chunk) (bytes_read + chunk)
                 (out @ take (nat chunk) (drop (nat so) bs)) True s
             }
           }
     else Some (bytes_read, out, s))"
  by pat_completeness auto
termination by (relation "measure (\<lambda>(p, sz, offset, n, out, bounce, s). nat sz)") auto

declare inode_read_loop.simps [simp del]

definition inode_read_at ::
  "ptr \<Rightarrow> int \<Rightarrow> int \<Rightarrow> 'a fs_state_scheme \<Rightarrow> (int \<times> byte list \<times> 'a fs_state_scheme) option" where
  "inode_read_at p sz offset s = inode_read_loop p sz offset 0 [] False s"

text \<open>\<^verbatim>\<open>inode_write_at\<close>; reading past the end of the caller's buffer is an error.\<close>

function inode_write_loop ::
  "ptr \<Rightarrow> byte list \<Rightarrow> int \<Rightarrow> int \<Rightarrow> int \<Rightarrow> bool \<Rightarrow> 'a fs_state_scheme \<Rightarrow> (int \<times> 'a fs_state_scheme) option" where
  "inode_write_loop p buf sz offset bytes_written bounce s =
    (if sz > 0 then
       case inodes s p of
         None \<Rightarrow> None
       | Some ino \<Rightarrow>
           let chunk = chunk_size ino sz offset; so = sector_ofs offset; idx = byte_to_sector ino offset;
             data = take (nat chunk) (drop (nat bytes_written) buf)
           in
           if chunk \<le> 0 then Some (bytes_written, s)
           else if length data < nat chunk then None
           else if so = 0 \<and> chunk = 512 then do {
             s \<leftarrow> block_write (fs_device s) idx data s;
             inode_write_loop p buf (sz - chunk) (offset + chunk) (bytes_written + chunk) bounce s
           }
           else do {
             let (ok, s) = (if bounce then (True, s) else let (b, s) = blk_malloc s in (b \<noteq> NULL, s));
             if \<not> ok then Some (bytes_written, s)
             else if so < 0 then None
             else do {
               (bs, s) \<leftarrow> (if so > 0 \<or> chunk < 512 - so then block_read (fs_device s) idx s
                           else Some (replicate 512 0, s));
               s \<leftarrow> block_write (fs_device s) idx (take (nat so) bs @ data @ drop (nat so + nat chunk) bs) s;
               inode_write_loop p buf (sz - chunk) (offset + chunk) (bytes_written + chunk) True s
             }
           }
     else Some (bytes_written, s))"
  by pat_completeness auto
termination by (relation "measure (\<lambda>(p, buf, sz, offset, n, bounce, s). nat sz)") auto

declare inode_write_loop.simps [simp del]

definition inode_write_at ::
  "ptr \<Rightarrow> byte list \<Rightarrow> int \<Rightarrow> int \<Rightarrow> 'a fs_state_scheme \<Rightarrow> (int \<times> 'a fs_state_scheme) option" where
  "inode_write_at p buf sz offset s = do {
     ino \<leftarrow> inodes s p;
     if deny_write_cnt ino \<noteq> 0 then Some (0, s) else inode_write_loop p buf sz offset 0 False s
   }"

section \<open>Positioned access to files\<close>

definition file_read_at ::
  "ptr \<Rightarrow> int \<Rightarrow> int \<Rightarrow> 'a fs_state_scheme \<Rightarrow> (int \<times> byte list \<times> 'a fs_state_scheme) option" where
  "file_read_at f sz ofs s = do { fl \<leftarrow> files s f; inode_read_at (f_inode fl) sz ofs s }"

definition file_write_at ::
  "ptr \<Rightarrow> byte list \<Rightarrow> int \<Rightarrow> int \<Rightarrow> 'a fs_state_scheme \<Rightarrow> (int \<times> 'a fs_state_scheme) option" where
  "file_write_at f buf sz ofs s = do { fl \<leftarrow> files s f; inode_write_at (f_inode fl) buf sz ofs s }"

text \<open>The file operations of bitmaps.\<close>

definition bitmap_read :: "bitmap \<Rightarrow> ptr \<Rightarrow> 'a fs_state_scheme \<Rightarrow> (bool \<times> bitmap \<times> 'a fs_state_scheme) option" where
  "bitmap_read b f s =
    (if bit_cnt b > 0 then do {
       let sz = int32 (int (byte_cnt (bit_cnt b)));
       (n, out, s) \<leftarrow> file_read_at f sz 0 s;
       let ws = bytes_elems (out @ drop (length out) (concat (map elem_bytes (bits b))));
       let k = elem_cnt (bit_cnt b) - 1;
       kassert (k < length ws);
       Some (n = sz, b\<lparr>bits := ws[k := ws ! k AND last_mask b]\<rparr>, s)
     } else Some (True, b, s))"

definition bitmap_write :: "bitmap \<Rightarrow> ptr \<Rightarrow> 'a fs_state_scheme \<Rightarrow> (bool \<times> 'a fs_state_scheme) option" where
  "bitmap_write b f s = do {
     let sz = int32 (int (byte_cnt (bit_cnt b)));
     (n, s) \<leftarrow> file_write_at f (concat (map elem_bytes (bits b))) sz 0 s;
     Some (n = sz, s)
   }"

section \<open>Free map\<close>

definition free_map_allocate :: "nat \<Rightarrow> 'a fs_state_scheme \<Rightarrow> (nat option \<times> 'a fs_state_scheme) option" where
  "free_map_allocate cnt s = do {
     fm \<leftarrow> free_map s;
     (sector, fm) \<leftarrow> bitmap_scan_and_flip fm 0 cnt False;
     let s = s\<lparr>free_map := Some fm\<rparr>;
     if sector \<noteq> BITMAP_ERROR \<and> free_map_file s \<noteq> NULL then do {
       (ok, s) \<leftarrow> bitmap_write fm (free_map_file s) s;
       if ok then Some (Some sector, s)
       else do {
         fm \<leftarrow> bitmap_set_multiple fm sector cnt False;
         Some (None, s\<lparr>free_map := Some fm\<rparr>)
       }
     }
     else Some (if sector \<noteq> BITMAP_ERROR then Some sector else None, s)
   }"

definition free_map_release :: "nat \<Rightarrow> nat \<Rightarrow> 'a fs_state_scheme \<Rightarrow> 'a fs_state_scheme option" where
  "free_map_release sector cnt s = do {
     fm \<leftarrow> free_map s;
     a \<leftarrow> bitmap_all fm sector cnt;
     kassert a;
     fm \<leftarrow> bitmap_set_multiple fm sector cnt False;
     let s = s\<lparr>free_map := Some fm\<rparr>;
     (_, s) \<leftarrow> bitmap_write fm (free_map_file s) s;
     Some s
   }"

section \<open>Inodes\<close>

definition inode_init :: "'a fs_state_scheme \<Rightarrow> 'a fs_state_scheme" where
  "inode_init s = s\<lparr>open_inodes := []\<rparr>"

fun write_zeros :: "nat \<Rightarrow> nat \<Rightarrow> nat \<Rightarrow> 'a fs_state_scheme \<Rightarrow> 'a fs_state_scheme option" where
  "write_zeros start i 0 s = Some s"
| "write_zeros start i (Suc n) s = do {
     s \<leftarrow> block_write (fs_device s) (size_add start i) (replicate 512 0) s;
     write_zeros start (i + 1) n s
   }"

definition inode_create :: "nat \<Rightarrow> int \<Rightarrow> 'a fs_state_scheme \<Rightarrow> (bool \<times> 'a fs_state_scheme) option" where
  "inode_create sector len s = do {
     kassert (len \<ge> 0);
     let (p, s) = blk_malloc s;
     if p \<noteq> NULL then do {
       let sectors = bytes_to_sectors len;
       (r, s) \<leftarrow> free_map_allocate sectors s;
       case r of
         Some start \<Rightarrow> do {
           s \<leftarrow> block_write (fs_device s) sector
             (inode_bytes \<lparr>id_start = start, id_length = len, id_magic = INODE_MAGIC\<rparr>) s;
           s \<leftarrow> write_zeros start 0 sectors s;
           Some (True, s)
         }
       | None \<Rightarrow> Some (False, s)
     } else Some (False, s)
   }"

definition inode_reopen :: "ptr \<Rightarrow> 'a fs_state_scheme \<Rightarrow> (ptr \<times> 'a fs_state_scheme) option" where
  "inode_reopen p s =
    (if p \<noteq> NULL then do {
       ino \<leftarrow> inodes s p;
       Some (p, s\<lparr>inodes := (inodes s)(p \<mapsto> ino\<lparr>open_cnt := open_cnt ino + 1\<rparr>)\<rparr>)
     } else Some (p, s))"

fun find_open :: "nat \<Rightarrow> ptr list \<Rightarrow> 'a fs_state_scheme \<Rightarrow> ptr option" where
  "find_open sector [] s = Some NULL"
| "find_open sector (p # ps) s = do {
     ino \<leftarrow> inodes s p;
     if i_sector ino = sector then Some p else find_open sector ps s
   }"

definition inode_open :: "nat \<Rightarrow> 'a fs_state_scheme \<Rightarrow> (ptr \<times> 'a fs_state_scheme) option" where
  "inode_open sector s = do {
     p \<leftarrow> find_open sector (open_inodes s) s;
     if p \<noteq> NULL then inode_reopen p s
     else do {
       let (p, s) = blk_malloc s;
       if p = NULL then Some (NULL, s)
       else do {
         let s = s\<lparr>open_inodes := p # open_inodes s\<rparr>;
         (bs, s) \<leftarrow> block_read (fs_device s) sector s;
         Some (p, s\<lparr>inodes := (inodes s)(p \<mapsto> \<lparr>i_sector = sector, open_cnt = 1, removed = False,
           deny_write_cnt = 0, i_data = bytes_inode bs\<rparr>)\<rparr>)
       }
     }
   }"

definition inode_close :: "ptr \<Rightarrow> 'a fs_state_scheme \<Rightarrow> 'a fs_state_scheme option" where
  "inode_close p s =
    (if p = NULL then Some s
     else do {
       ino \<leftarrow> inodes s p;
       let ino = ino\<lparr>open_cnt := open_cnt ino - 1\<rparr>;
       let s = s\<lparr>inodes := (inodes s)(p \<mapsto> ino)\<rparr>;
       if open_cnt ino = 0 then do {
         let s = s\<lparr>open_inodes := remove1 p (open_inodes s)\<rparr>;
         s \<leftarrow> (if removed ino then do {
             s \<leftarrow> free_map_release (i_sector ino) 1 s;
             free_map_release (id_start (i_data ino)) (bytes_to_sectors (id_length (i_data ino))) s
           } else Some s);
         Some (s\<lparr>inodes := (inodes s)(p := None)\<rparr>)
       } else Some s
     })"

definition inode_remove :: "ptr \<Rightarrow> 'a fs_state_scheme \<Rightarrow> 'a fs_state_scheme option" where
  "inode_remove p s = do {
     kassert (p \<noteq> NULL);
     ino \<leftarrow> inodes s p;
     Some (s\<lparr>inodes := (inodes s)(p \<mapsto> ino\<lparr>removed := True\<rparr>)\<rparr>)
   }"

definition inode_deny_write :: "ptr \<Rightarrow> 'a fs_state_scheme \<Rightarrow> 'a fs_state_scheme option" where
  "inode_deny_write p s = do {
     ino \<leftarrow> inodes s p;
     let ino = ino\<lparr>deny_write_cnt := deny_write_cnt ino + 1\<rparr>;
     kassert (deny_write_cnt ino \<le> open_cnt ino);
     Some (s\<lparr>inodes := (inodes s)(p \<mapsto> ino)\<rparr>)
   }"

definition inode_allow_write :: "ptr \<Rightarrow> 'a fs_state_scheme \<Rightarrow> 'a fs_state_scheme option" where
  "inode_allow_write p s = do {
     ino \<leftarrow> inodes s p;
     kassert (deny_write_cnt ino > 0);
     kassert (deny_write_cnt ino \<le> open_cnt ino);
     Some (s\<lparr>inodes := (inodes s)(p \<mapsto> ino\<lparr>deny_write_cnt := deny_write_cnt ino - 1\<rparr>)\<rparr>)
   }"

section \<open>Files\<close>

definition file_open :: "ptr \<Rightarrow> 'a fs_state_scheme \<Rightarrow> (ptr \<times> 'a fs_state_scheme) option" where
  "file_open ino s = do {
     let (f, s) = blk_malloc s;
     if ino \<noteq> NULL \<and> f \<noteq> NULL then
       Some (f, s\<lparr>files := (files s)(f \<mapsto> \<lparr>f_inode = ino, f_pos = 0, f_deny_write = False\<rparr>)\<rparr>)
     else do { s \<leftarrow> inode_close ino s; Some (NULL, s) }
   }"

definition file_reopen :: "ptr \<Rightarrow> 'a fs_state_scheme \<Rightarrow> (ptr \<times> 'a fs_state_scheme) option" where
  "file_reopen f s = do {
     fl \<leftarrow> files s f;
     (p, s) \<leftarrow> inode_reopen (f_inode fl) s;
     file_open p s
   }"

definition file_deny_write :: "ptr \<Rightarrow> 'a fs_state_scheme \<Rightarrow> 'a fs_state_scheme option" where
  "file_deny_write f s = do {
     fl \<leftarrow> files s f;
     if \<not> f_deny_write fl then
       inode_deny_write (f_inode fl) (s\<lparr>files := (files s)(f \<mapsto> fl\<lparr>f_deny_write := True\<rparr>)\<rparr>)
     else Some s
   }"

definition file_allow_write :: "ptr \<Rightarrow> 'a fs_state_scheme \<Rightarrow> 'a fs_state_scheme option" where
  "file_allow_write f s = do {
     fl \<leftarrow> files s f;
     if f_deny_write fl then
       inode_allow_write (f_inode fl) (s\<lparr>files := (files s)(f \<mapsto> fl\<lparr>f_deny_write := False\<rparr>)\<rparr>)
     else Some s
   }"

definition file_close :: "ptr \<Rightarrow> 'a fs_state_scheme \<Rightarrow> 'a fs_state_scheme option" where
  "file_close f s =
    (if f \<noteq> NULL then do {
       s \<leftarrow> file_allow_write f s;
       fl \<leftarrow> files s f;
       s \<leftarrow> inode_close (f_inode fl) s;
       Some (s\<lparr>files := (files s)(f := None)\<rparr>)
     } else Some s)"

definition file_get_inode :: "ptr \<Rightarrow> 'a fs_state_scheme \<Rightarrow> ptr option" where
  "file_get_inode f s = map_option f_inode (files s f)"

definition file_read ::
  "ptr \<Rightarrow> int \<Rightarrow> 'a fs_state_scheme \<Rightarrow> (int \<times> byte list \<times> 'a fs_state_scheme) option" where
  "file_read f sz s = do {
     fl \<leftarrow> files s f;
     (n, out, s) \<leftarrow> inode_read_at (f_inode fl) sz (f_pos fl) s;
     Some (n, out, s\<lparr>files := (files s)(f \<mapsto> fl\<lparr>f_pos := f_pos fl + n\<rparr>)\<rparr>)
   }"

definition file_write ::
  "ptr \<Rightarrow> byte list \<Rightarrow> int \<Rightarrow> 'a fs_state_scheme \<Rightarrow> (int \<times> 'a fs_state_scheme) option" where
  "file_write f buf sz s = do {
     fl \<leftarrow> files s f;
     (n, s) \<leftarrow> inode_write_at (f_inode fl) buf sz (f_pos fl) s;
     Some (n, s\<lparr>files := (files s)(f \<mapsto> fl\<lparr>f_pos := f_pos fl + n\<rparr>)\<rparr>)
   }"

definition file_length :: "ptr \<Rightarrow> 'a fs_state_scheme \<Rightarrow> int option" where
  "file_length f s = do { fl \<leftarrow> files s f; inode_length (f_inode fl) s }"

definition file_seek :: "ptr \<Rightarrow> int \<Rightarrow> 'a fs_state_scheme \<Rightarrow> 'a fs_state_scheme option" where
  "file_seek f new_pos s = do {
     fl \<leftarrow> files s f;
     kassert (new_pos \<ge> 0);
     Some (s\<lparr>files := (files s)(f \<mapsto> fl\<lparr>f_pos := new_pos\<rparr>)\<rparr>)
   }"

definition file_tell :: "ptr \<Rightarrow> 'a fs_state_scheme \<Rightarrow> int option" where
  "file_tell f s = map_option f_pos (files s f)"

section \<open>The free map file\<close>

text \<open>\<open>raw\<close> is the contents of the memory that the bit array is allocated in.\<close>

definition free_map_init :: "elem_type list \<Rightarrow> 'a fs_state_scheme \<Rightarrow> 'a fs_state_scheme option" where
  "free_map_init raw s = do {
     n \<leftarrow> block_size (fs_device s) s;
     let (b, s) = blk_malloc s;
     let (a, s) = (if b \<noteq> NULL then blk_malloc s else (NULL, s));
     fm \<leftarrow> bitmap_create (b \<noteq> NULL) (if a \<noteq> NULL then Some raw else None) n;
     fm \<leftarrow> fm;
     fm \<leftarrow> bitmap_mark fm FREE_MAP_SECTOR;
     fm \<leftarrow> bitmap_mark fm ROOT_DIR_SECTOR;
     Some (s\<lparr>free_map := Some fm\<rparr>)
   }"

definition free_map_open :: "'a fs_state_scheme \<Rightarrow> 'a fs_state_scheme option" where
  "free_map_open s = do {
     (ino, s) \<leftarrow> inode_open FREE_MAP_SECTOR s;
     (f, s) \<leftarrow> file_open ino s;
     let s = s\<lparr>free_map_file := f\<rparr>;
     kassert (f \<noteq> NULL);
     fm \<leftarrow> free_map s;
     (ok, fm, s) \<leftarrow> bitmap_read fm f s;
     kassert ok;
     Some (s\<lparr>free_map := Some fm\<rparr>)
   }"

definition free_map_close :: "'a fs_state_scheme \<Rightarrow> 'a fs_state_scheme option" where
  "free_map_close s = file_close (free_map_file s) s"

definition free_map_create :: "'a fs_state_scheme \<Rightarrow> 'a fs_state_scheme option" where
  "free_map_create s = do {
     fm \<leftarrow> free_map s;
     (ok, s) \<leftarrow> inode_create FREE_MAP_SECTOR (int32 (int (bitmap_file_size fm))) s;
     kassert ok;
     (ino, s) \<leftarrow> inode_open FREE_MAP_SECTOR s;
     (f, s) \<leftarrow> file_open ino s;
     let s = s\<lparr>free_map_file := f\<rparr>;
     kassert (f \<noteq> NULL);
     fm \<leftarrow> free_map s;
     (ok, s) \<leftarrow> bitmap_write fm f s;
     kassert ok;
     Some s
   }"

section \<open>The device under the file system\<close>

definition bcore :: "'a blk_state_scheme \<Rightarrow> ptr \<Rightarrow> (nat \<times> block_operations \<times> block_type) option" where
  "bcore s b = map_option (\<lambda>bl. (b_size bl, b_ops bl, b_type bl)) (blocks s b)"

definition dev_sector :: "'a blk_state_scheme \<Rightarrow> ptr \<Rightarrow> nat \<Rightarrow> sector_data" where
  "dev_sector s d i = (case bcore s d of
     Some (n, Partition_operations dev start, t) \<Rightarrow> media s dev (start + i) | _ \<Rightarrow> media s d i)"

definition dev_ok :: "ptr \<Rightarrow> nat \<Rightarrow> 'a blk_state_scheme \<Rightarrow> bool" where
  "dev_ok d n s \<longleftrightarrow> blocks_ok s \<and>
    (\<exists>ops t. bcore s d = Some (n, ops, t) \<and> t \<noteq> BLOCK_FOREIGN \<and>
      (\<forall>dev start. ops = Partition_operations dev start \<longrightarrow>
        (\<exists>k u. bcore s dev = Some (k, Raw_operations, u) \<and> u \<noteq> BLOCK_FOREIGN))) \<and>
    (\<forall>i < n. length (dev_sector s d i) = 512)"

lemma bview_bcore: "bview s b = map_option (\<lambda>(n, ops, t). (n, ops)) (bcore s b)"
  by (simp add: bview_def bcore_def option.map_comp comp_def)

lemma bcore_count [simp]:
  "bcore (upd_block c (read_cnt_update f) s) = bcore s" "bcore (upd_block c (write_cnt_update f) s) = bcore s"
  "bcore (s\<lparr>media := m\<rparr>) = bcore s" "bcore (s\<lparr>malloc_results := ms\<rparr>) = bcore s"
  by (auto simp: bcore_def upd_block_def fun_eq_iff option.map_comp comp_def)

lemma blocks_ok_core:
  assumes "blocks_ok s" "bcore s' = bcore s" "set (malloc_results s') \<subseteq> set (malloc_results s)"
  shows "blocks_ok s'"
proof -
  have "bview s' = bview s" using assms(2) by (simp add: bview_bcore fun_eq_iff)
  then show ?thesis using assms(1,3) unfolding blocks_ok_def by auto
qed

lemma dev_ok_n: "dev_ok d n s \<Longrightarrow> n < 2 ^ 32"
  unfolding dev_ok_def blocks_ok_def bview_bcore by fastforce

text \<open>What one state keeps of another across input and output.\<close>

definition io_rel :: "'a blk_state_scheme \<Rightarrow> 'a blk_state_scheme \<Rightarrow> bool" where
  "io_rel s s' \<longleftrightarrow> bcore s' = bcore s \<and> suffix (malloc_results s') (malloc_results s) \<and>
    s' = s\<lparr>blocks := blocks s', media := media s', malloc_results := malloc_results s'\<rparr>"

lemma io_rel_refl [simp]: "io_rel s s"
  by (simp add: io_rel_def)

lemma io_rel_trans: "io_rel s s1 \<Longrightarrow> io_rel s1 s2 \<Longrightarrow> io_rel s s2"
  unfolding io_rel_def by (cases s; cases s1; cases s2) (auto dest: suffix_order.trans)

lemma dev_read:
  assumes "dev_ok d n s" "i < n"
  obtains s' where "block_read d i s = Some (dev_sector s d i, s')" "io_rel s s'" "media s' = media s"
    "malloc_results s' = malloc_results s"
proof -
  obtain bl where bl: "blocks s d = Some bl" "b_size bl = n" using assms(1) by (auto simp: dev_ok_def bcore_def)
  show ?thesis
  proof (cases "b_ops bl")
    case Raw_operations
    then have "block_read d i s = Some (dev_sector s d i, upd_block d (read_cnt_update (\<lambda>n. n + 1)) s)"
      using raw_access(1) [OF bl(1) Raw_operations] assms(2) bl by (simp add: dev_sector_def bcore_def)
    then show ?thesis by (rule that) (simp_all add: io_rel_def, simp add: upd_block_def)
  next
    case (Partition_operations dev start)
    then obtain dl where dl: "blocks s dev = Some dl" using assms(1) bl by (auto simp: dev_ok_def bcore_def)
    have "blocks_ok s" using assms(1) by (simp add: dev_ok_def)
    from part_access(1) [OF this bl(1) Partition_operations _ dl, of i]
    have "block_read d i s = Some (dev_sector s d i,
        upd_block d (read_cnt_update (\<lambda>n. n + 1)) (upd_block dev (read_cnt_update (\<lambda>n. n + 1)) s))"
      using assms(2) bl Partition_operations by (simp add: dev_sector_def bcore_def)
    then show ?thesis by (rule that) (simp_all add: io_rel_def, simp add: upd_block_def)
  qed
qed

lemma dev_write:
  assumes "dev_ok d n s" "i < n" "length buf = 512"
  obtains s' where "block_write d i buf s = Some s'" "io_rel s s'" "dev_sector s' d = (dev_sector s d)(i := buf)"
    "malloc_results s' = malloc_results s"
proof -
  obtain bl where bl: "blocks s d = Some bl" "b_size bl = n" "b_type bl \<noteq> BLOCK_FOREIGN"
    using assms(1) by (auto simp: dev_ok_def bcore_def)
  show ?thesis
  proof (cases "b_ops bl")
    case Raw_operations
    define s' where "s' = upd_block d (write_cnt_update (\<lambda>n. n + 1)) (s\<lparr>media := (media s)(d := (media s d)(i := buf))\<rparr>)"
    have "block_write d i buf s = Some s'"
      using raw_access(2) [OF bl(1) Raw_operations] assms(2) bl by (simp add: s'_def)
    then show ?thesis
    proof (rule that)
      show "io_rel s s'" unfolding io_rel_def s'_def by (simp, simp add: upd_block_def)
      show "dev_sector s' d = (dev_sector s d)(i := buf)"
        using bl Raw_operations by (auto simp: s'_def dev_sector_def bcore_def upd_block_def)
    qed (simp add: s'_def)
  next
    case (Partition_operations dev start)
    then obtain dl where dl: "blocks s dev = Some dl" "b_type dl \<noteq> BLOCK_FOREIGN"
      using assms(1) bl by (auto simp: dev_ok_def bcore_def)
    define s' where "s' = upd_block d (write_cnt_update (\<lambda>n. n + 1)) (upd_block dev (write_cnt_update (\<lambda>n. n + 1))
        (s\<lparr>media := (media s)(dev := (media s dev)(start + i := buf))\<rparr>))"
    have "blocks_ok s" using assms(1) by (simp add: dev_ok_def)
    from part_access(2) [OF this bl(1) Partition_operations _ dl(1) bl(3) dl(2), of i]
    have "block_write d i buf s = Some s'" using assms(2) bl by (simp add: s'_def)
    then show ?thesis
    proof (rule that)
      show "io_rel s s'" unfolding io_rel_def s'_def by (simp, simp add: upd_block_def)
      have "bcore s' = bcore s" by (simp add: s'_def)
      then show "dev_sector s' d = (dev_sector s d)(i := buf)"
        using bl Partition_operations by (auto simp: dev_sector_def bcore_def fun_eq_iff) (simp_all add: s'_def)
    qed (simp add: s'_def)
  qed
qed

lemma dev_ok_io:
  assumes "dev_ok d n s" "io_rel s s'" "\<And>i. i < n \<Longrightarrow> length (dev_sector s' d i) = 512"
  shows "dev_ok d n s'"
proof -
  have "blocks_ok s'" using blocks_ok_core [of s s'] assms(1,2) by (simp add: dev_ok_def io_rel_def set_mono_suffix)
  then show ?thesis using assms unfolding dev_ok_def io_rel_def by auto
qed

lemma dev_sector_media: "io_rel s s' \<Longrightarrow> media s' = media s \<Longrightarrow> dev_sector s' d = dev_sector s d"
  unfolding dev_sector_def io_rel_def by metis

section \<open>Reading\<close>

text \<open>The contents of an inode, by bytes and as a list.\<close>

definition byte_at :: "'a fs_state_scheme \<Rightarrow> inode \<Rightarrow> nat \<Rightarrow> byte" where
  "byte_at s ino i = dev_sector s (fs_device s) (id_start (i_data ino) + i div 512) ! (i mod 512)"

definition inode_len :: "inode \<Rightarrow> nat" where
  "inode_len ino = nat (id_length (i_data ino))"

definition contents :: "'a fs_state_scheme \<Rightarrow> inode \<Rightarrow> byte list" where
  "contents s ino = map (byte_at s ino) [0..<inode_len ino]"

definition inode_ok :: "inode \<Rightarrow> nat \<Rightarrow> bool" where
  "inode_ok ino n \<longleftrightarrow> 0 \<le> id_length (i_data ino) \<and> id_length (i_data ino) < 2 ^ 31 \<and>
    id_start (i_data ino) + (inode_len ino + 511) div 512 \<le> n"

lemma inode_len_less: "inode_ok ino n \<Longrightarrow> inode_len ino < 2 ^ 31"
  by (auto simp: inode_ok_def inode_len_def nat_less_iff)

lemma sector_ofs_nat: "sector_ofs (int k) = int (k mod 512)"
  by (simp add: sector_ofs_def signed_modulo_int_def zmod_int sgn_if)

lemma byte_to_sector_nat:
  assumes "inode_ok ino n" "n < 2 ^ 32" "k < inode_len ino"
  shows "byte_to_sector ino (int k) = id_start (i_data ino) + k div 512" "id_start (i_data ino) + k div 512 < n"
proof -
  have "k div 512 < (inode_len ino + 511) div 512" using assms(3) by linarith
  then show lt: "id_start (i_data ino) + k div 512 < n" using assms(1) unfolding inode_ok_def by linarith
  have "int k < id_length (i_data ino)" using assms(3) by (simp add: inode_len_def)
  moreover have "int k sdiv 512 = int (k div 512)" by (simp add: signed_divide_int_def zdiv_int sgn_if)
  moreover have "(int (id_start (i_data ino)) + int (k div 512)) mod 2 ^ 32 = int (id_start (i_data ino) + k div 512)"
    using lt assms(2) by (simp add: zmod_trivial_iff)
  ultimately show "byte_to_sector ino (int k) = id_start (i_data ino) + k div 512"
    unfolding byte_to_sector_def by (simp only: if_True nat_int)
qed

lemma chunk_nat:
  assumes "inode_ok ino n" "0 < sz" "k < 2 ^ 31"
  shows "chunk_size ino sz (int k) = (if k < inode_len ino
     then min sz (int (min (inode_len ino - k) (512 - k mod 512))) else min sz (int (inode_len ino) - int k))"
proof -
  have "int32 (id_length (i_data ino) - int k) = int (inode_len ino) - int k"
    using assms by (simp add: int32_id inode_ok_def inode_len_def)
  moreover have "k mod 512 < 512" by simp
  ultimately show ?thesis unfolding chunk_size_def sector_ofs_nat Let_def min_def by (auto simp: of_nat_diff)
qed

text \<open>The length of the piece that a turn of the copying loops handles.\<close>

definition piece :: "inode \<Rightarrow> nat \<Rightarrow> nat \<Rightarrow> nat" where
  "piece ino sz k = min sz (min (inode_len ino - k) (512 - k mod 512))"

lemma chunk_piece:
  assumes "inode_ok ino n" "0 < sz" "k < 2 ^ 31"
  shows "chunk_size ino (int sz) (int k) \<le> 0 \<longleftrightarrow> inode_len ino \<le> k"
    "k < inode_len ino \<Longrightarrow> chunk_size ino (int sz) (int k) = int (piece ino sz k)"
  using chunk_nat [OF assms(1) _ assms(3), of "int sz"] assms(2)
  by (auto simp: piece_def min_def split: if_splits)

lemma piece_pos: "0 < sz \<Longrightarrow> k < inode_len ino \<Longrightarrow> 0 < piece ino sz k"
  by (simp add: piece_def)

lemma piece_le: "piece ino sz k \<le> sz" "piece ino sz k \<le> inode_len ino - k" "piece ino sz k \<le> 512 - k mod 512"
  by (simp_all add: piece_def)

lemma piece_fits: "k mod 512 + piece ino sz k \<le> 512"
  using piece_le(3) [of ino sz k] mod_less_divisor [of 512 k] by linarith

lemma piece_div:
  assumes "i < piece ino sz k"
  shows "(k + i) div 512 = k div 512" "(k + i) mod 512 = k mod 512 + i"
proof -
  have "k mod 512 + i < 512" using assms piece_le(3) [of ino sz k] by linarith
  moreover have "k + i = 512 * (k div 512) + (k mod 512 + i)" by simp
  ultimately show "(k + i) div 512 = k div 512" "(k + i) mod 512 = k mod 512 + i"
    by (metis div_mult_self4 div_less mult_zero_left add_0_right zero_neq_numeral,
        metis mod_mult_self4 mod_less)
qed

lemma piece_bytes:
  assumes "length (dev_sector s (fs_device s) (id_start (i_data ino) + k div 512)) = 512"
  shows "take (piece ino sz k) (drop (k mod 512) (dev_sector s (fs_device s) (id_start (i_data ino) + k div 512))) =
    map (byte_at s ino) [k..<k + piece ino sz k]"
  using piece_le(3) [of ino sz k] assms
  by (auto simp: list_eq_iff_nth_eq byte_at_def piece_div min_def)

text \<open>One allocation succeeds, or none is needed.\<close>

definition can_alloc :: "bool \<Rightarrow> 'a blk_state_scheme \<Rightarrow> bool" where
  "can_alloc bounce s \<longleftrightarrow> bounce \<or> malloc_results s \<noteq> [] \<and> hd (malloc_results s) \<noteq> NULL"

definition bounced :: "bool \<Rightarrow> 'a blk_state_scheme \<Rightarrow> 'a blk_state_scheme" where
  "bounced bounce s = (if bounce then s else s\<lparr>malloc_results := tl (malloc_results s)\<rparr>)"

lemma bounce_alloc:
  assumes "can_alloc bounce s"
  shows "(if bounce then (True, s) else let (b, s) = blk_malloc s in (b \<noteq> NULL, s)) = (True, bounced bounce s)"
  using assms by (auto simp: can_alloc_def bounced_def blk_malloc_def split: list.splits)

lemma bounced_simps [simp]:
  "bcore (bounced bounce s) = bcore s" "media (bounced bounce s) = media s" "io_rel s (bounced bounce s)"
  "dev_sector (bounced bounce s) d = dev_sector s d"
proof -
  show io: "io_rel s (bounced bounce s)" by (simp add: bounced_def io_rel_def)
  show media: "media (bounced bounce s) = media s" "bcore (bounced bounce s) = bcore s" by (simp_all add: bounced_def)
  show "dev_sector (bounced bounce s) d = dev_sector s d" by (rule dev_sector_media [OF io media(1)])
qed

lemma bounced_fs [simp]:
  "inodes (bounced bounce s) = inodes s" "fs_device (bounced bounce s) = fs_device s"
  by (simp_all add: bounced_def)

lemma bounced_ok: "dev_ok d n s \<Longrightarrow> dev_ok d n (bounced bounce s)"
  by (rule dev_ok_io [of d n s]) (auto simp: dev_ok_def)

lemma io_rel_fs:
  fixes s s' :: "'a fs_state_scheme"
  assumes "io_rel s s'"
  shows "inodes s' = inodes s" "fs_device s' = fs_device s" "open_inodes s' = open_inodes s" "files s' = files s"
    "dirs s' = dirs s" "free_map s' = free_map s" "free_map_file s' = free_map_file s"
proof -
  have e: "s' = s\<lparr>blocks := blocks s', media := media s', malloc_results := malloc_results s'\<rparr>"
    using assms by (simp add: io_rel_def)
  show "inodes s' = inodes s" "fs_device s' = fs_device s" "open_inodes s' = open_inodes s" "files s' = files s"
    "dirs s' = dirs s" "free_map s' = free_map s" "free_map_file s' = free_map_file s"
    by (subst e, simp)+
qed

lemma dev_ok_same: "dev_ok d n s \<Longrightarrow> io_rel s s' \<Longrightarrow> media s' = media s \<Longrightarrow> dev_ok d n s'"
  by (rule dev_ok_io [of d n s]) (auto simp: dev_ok_def dev_sector_media)

lemma read_loop:
  assumes "dev_ok (fs_device s) n s" "inodes s p = Some ino" "inode_ok ino n" "k < 2 ^ 31" "can_alloc bounce s"
  shows "\<exists>s'. inode_read_loop p (int sz) (int k) r out bounce s =
      Some (r + int (min sz (inode_len ino - k)), out @ map (byte_at s ino) [k..<k + min sz (inode_len ino - k)], s') \<and>
      io_rel s s' \<and> media s' = media s \<and> malloc_results s' \<in> {malloc_results s, malloc_results (bounced bounce s)}"
  using assms
proof (induction sz arbitrary: k r out bounce s rule: less_induct)
  case (less sz)
  show ?case
  proof (cases "0 < sz \<and> k < inode_len ino")
    case False
    then show ?thesis using less.prems chunk_piece(1) [OF less.prems(3)]
      by (auto simp: inode_read_loop.simps [of p] Let_def)
  next
    case True
    define c where "c = piece ino sz k"
    have c: "0 < c" "c \<le> sz" "c \<le> inode_len ino - k" using True piece_pos piece_le by (auto simp: c_def)
    have ck: "chunk_size ino (int sz) (int k) = int c" using chunk_piece(2) [OF less.prems(3)] True less.prems(4) by (simp add: c_def)
    have n: "n < 2 ^ 32" using dev_ok_n [OF less.prems(1)] .
    define i where "i = id_start (i_data ino) + k div 512"
    have i: "byte_to_sector ino (int k) = i" "i < n" using byte_to_sector_nat [OF less.prems(3) n, of k] True by (simp_all add: i_def)
    define full where "full \<longleftrightarrow> k mod 512 = 0 \<and> c = 512"
    define s1 where "s1 = (if full then s else bounced bounce s)"
    have s1: "dev_ok (fs_device s) n s1" "dev_sector s1 (fs_device s) = dev_sector s (fs_device s)" "io_rel s s1" "media s1 = media s"
      using less.prems(1) bounced_ok by (auto simp: s1_def)
    obtain s2 where s2: "block_read (fs_device s) i s1 = Some (dev_sector s (fs_device s) i, s2)" "io_rel s1 s2"
        "media s2 = media s1" "malloc_results s2 = malloc_results s1"
      using dev_read [OF s1(1) i(2)] s1(2) by metis
    have io: "io_rel s s2" "media s2 = media s" using io_rel_trans [OF s1(3) s2(2)] s2(3) s1(4) by simp_all
    define b2 where "b2 = (if full then bounce else True)"
    have al: "can_alloc b2 s2" "malloc_results (bounced b2 s2) \<in> {malloc_results s, malloc_results (bounced bounce s)}"
        "malloc_results s2 \<in> {malloc_results s, malloc_results (bounced bounce s)}"
      using less.prems(5) s2(4) by (auto simp: b2_def s1_def can_alloc_def bounced_def)
    have byte: "byte_at s2 ino = byte_at s ino"
      using io dev_sector_media [OF io] io_rel_fs(2) [OF io(1)] by (simp add: byte_at_def fun_eq_iff)
    have len: "length (dev_sector s (fs_device s) i) = 512" using less.prems(1) i(2) by (simp add: dev_ok_def)
    have piece: "take c (drop (k mod 512) (dev_sector s (fs_device s) i)) = map (byte_at s ino) [k..<k + c]"
      using piece_bytes [of s ino k sz] len by (simp add: i_def c_def)
    have step: "inode_read_loop p (int sz) (int k) r out bounce s =
        inode_read_loop p (int (sz - c)) (int (k + c)) (r + int c) (out @ map (byte_at s ino) [k..<k + c]) b2 s2"
    proof (cases full)
      case f: True
      then have "dev_sector s (fs_device s) i = map (byte_at s ino) [k..<k + c]" using piece len by (simp add: full_def)
      then show ?thesis using True f less.prems(2) ck i(1) s2(1) c
        by (simp add: inode_read_loop.simps [of p "int sz"] sector_ofs_nat full_def s1_def b2_def Let_def of_nat_diff)
    next
      case f: False
      then show ?thesis using True less.prems(2) ck i(1) s2(1) c bounce_alloc [OF less.prems(5)] piece
        by (auto simp: inode_read_loop.simps [of p "int sz"] sector_ofs_nat full_def s1_def b2_def Let_def of_nat_diff
          nat_mod_distrib)
    qed
    have IH: "\<exists>s'. inode_read_loop p (int (sz - c)) (int (k + c)) (r + int c) (out @ map (byte_at s ino) [k..<k + c]) b2 s2 =
      Some (r + int c + int (min (sz - c) (inode_len ino - (k + c))),
        (out @ map (byte_at s ino) [k..<k + c]) @ map (byte_at s2 ino) [k + c..<k + c + min (sz - c) (inode_len ino - (k + c))], s') \<and>
      io_rel s2 s' \<and> media s' = media s2 \<and> malloc_results s' \<in> {malloc_results s2, malloc_results (bounced b2 s2)}"
    proof (rule less.IH)
      show "sz - c < sz" using c True by simp
      show "dev_ok (fs_device s2) n s2" using dev_ok_same [OF less.prems(1) io] io_rel_fs(2) [OF io(1)] by simp
      show "inodes s2 p = Some ino" using less.prems(2) io_rel_fs(1) [OF io(1)] by simp
      show "k + c < 2 ^ 31" using c(3) True inode_len_less [OF less.prems(3)] by linarith
    qed (use less.prems(3) al in simp_all)
    have m: "c + min (sz - c) (inode_len ino - (k + c)) = min sz (inode_len ino - k)" using c by linarith
    have up: "map f [k..<k + c] @ map f [k + c..<k + c + x] = map f [k..<k + (c + x)]" for f :: "nat \<Rightarrow> byte" and x
      by (simp add: add.assoc upt_add_eq_append [of k "k + c" x, simplified add.assoc] flip: map_append)
    show ?thesis using IH io io_rel_trans [OF io(1)] al
      unfolding step byte append_assoc up m by (auto simp: m algebra_simps simp flip: m)
  qed
qed

section \<open>Writing\<close>

lemma written_sector:
  assumes "length old = 512" "length data = c" "k mod 512 + c \<le> 512" "j div 512 = k div 512"
  shows "(take (k mod 512) old @ data @ drop (k mod 512 + c) old) ! (j mod 512) =
    (if k \<le> j \<and> j < k + c then data ! (j - k) else old ! (j mod 512))"
proof -
  define q where "q = k div 512"
  have "k = 512 * q + k mod 512" "j = 512 * q + j mod 512"
    using mult_div_mod_eq [of 512 k] mult_div_mod_eq [of 512 j] unfolding q_def assms(4) by simp_all
  then obtain km jm where kj: "k = 512 * q + km" "j = 512 * q + jm" "k mod 512 = km" "j mod 512 = jm" by blast
  have lt: "jm < 512" using kj(4) by auto
  have cond: "k \<le> j \<longleftrightarrow> km \<le> jm" "j < k + c \<longleftrightarrow> jm < km + c" "j - k = jm - km" using kj(1,2) by auto
  show ?thesis using lt assms(1-3) unfolding kj(3,4) cond by (auto simp: nth_append)
qed

lemma piece_written:
  assumes "length (dev_sector s (fs_device s) i) = 512" "i = id_start (i_data ino) + k div 512"
    and "length data = piece ino sz k" "fs_device s' = fs_device s"
    and "dev_sector s' (fs_device s) = (dev_sector s (fs_device s))(i := take (k mod 512) (dev_sector s (fs_device s) i) @ data @
      drop (k mod 512 + piece ino sz k) (dev_sector s (fs_device s) i))"
  shows "byte_at s' ino j = (if k \<le> j \<and> j < k + piece ino sz k then data ! (j - k) else byte_at s ino j)"
proof (cases "j div 512 = k div 512")
  case True
  show ?thesis using written_sector [OF assms(1,3) piece_fits True] True assms(2,4,5) by (simp add: byte_at_def)
next
  case False
  have "\<not> (k \<le> j \<and> j < k + piece ino sz k)"
  proof
    assume a: "k \<le> j \<and> j < k + piece ino sz k"
    then have "j - k < piece ino sz k" by linarith
    from piece_div(1) [OF this] show False using a False by simp
  qed
  then show ?thesis using False assms(2,4,5) by (auto simp: byte_at_def)
qed

lemma full_written: "length old = 512 \<Longrightarrow> take 0 old @ data @ drop (0 + 512) old = data"
  by simp

lemma write_loop:
  assumes "dev_ok (fs_device s) n s" "inodes s p = Some ino" "inode_ok ino n" "k < 2 ^ 31" "can_alloc bounce s"
    and "w + sz \<le> length buf"
  shows "\<exists>s'. inode_write_loop p buf (int sz) (int k) (int w) bounce s = Some (int (w + min sz (inode_len ino - k)), s') \<and>
      io_rel s s' \<and> dev_ok (fs_device s) n s' \<and>
      (\<forall>j. byte_at s' ino j = (if k \<le> j \<and> j < k + min sz (inode_len ino - k) then buf ! (w + (j - k)) else byte_at s ino j)) \<and>
      (\<forall>j. j \<notin> {id_start (i_data ino)..<id_start (i_data ino) + (inode_len ino + 511) div 512} \<longrightarrow>
        dev_sector s' (fs_device s) j = dev_sector s (fs_device s) j) \<and>
      malloc_results s' \<in> {malloc_results s, malloc_results (bounced bounce s)}"
  using assms
proof (induction sz arbitrary: k w bounce s rule: less_induct)
  case (less sz)
  show ?case
  proof (cases "0 < sz \<and> k < inode_len ino")
    case False
    then have m: "min sz (inode_len ino - k) = 0" by auto
    have "inode_write_loop p buf (int sz) (int k) (int w) bounce s = Some (int w, s)"
      using False less.prems(2,4) chunk_piece(1) [OF less.prems(3), of sz k] by (subst inode_write_loop.simps) auto
    then show ?thesis using less.prems(1) unfolding m by (intro exI [of _ s]) auto
  next
    case True
    define c where "c = piece ino sz k"
    define d where "d = fs_device s"
    define i where "i = id_start (i_data ino) + k div 512"
    define data where "data = take c (drop w buf)"
    define new where "new = take (k mod 512) (dev_sector s d i) @ data @ drop (k mod 512 + c) (dev_sector s d i)"
    define full where "full \<longleftrightarrow> k mod 512 = 0 \<and> c = 512"
    define s1 where "s1 = (if full then s else bounced bounce s)"
    define b2 where "b2 = (if full then bounce else True)"
    have c: "0 < c" "c \<le> sz" "c \<le> inode_len ino - k" "k mod 512 + c \<le> 512"
      using True piece_pos piece_le piece_fits by (auto simp: c_def)
    have ck: "chunk_size ino (int sz) (int k) = int c" using chunk_piece(2) [OF less.prems(3)] True less.prems(4) by (simp add: c_def)
    have n: "n < 2 ^ 32" using dev_ok_n [OF less.prems(1)] .
    have i: "byte_to_sector ino (int k) = i" "i < n" using byte_to_sector_nat [OF less.prems(3) n, of k] True by (simp_all add: i_def)
    have len: "length (dev_sector s d i) = 512" using less.prems(1) i(2) by (simp add: dev_ok_def d_def)
    have dl: "length data = c" using less.prems(6) c(2) by (simp add: data_def)
    have nl: "length new = 512" using len dl c(4) by (simp add: new_def)
    have s1: "dev_ok d n s1" "dev_sector s1 d = dev_sector s d" "io_rel s s1"
      using less.prems(1) bounced_ok by (auto simp: s1_def d_def)
    obtain sr where sr: "block_read d i s1 = Some (dev_sector s d i, sr)" "io_rel s1 sr"
        "media sr = media s1" "malloc_results sr = malloc_results s1"
      using dev_read [OF s1(1) i(2)] s1(2) by metis
    define s3 where "s3 = (if full then s1 else sr)"
    have s3: "dev_ok d n s3" "dev_sector s3 d = dev_sector s d" "io_rel s s3" "malloc_results s3 = malloc_results s1"
      using s1 sr dev_ok_same [OF s1(1) sr(2,3)] dev_sector_media [OF sr(2,3)] io_rel_trans by (auto simp: s3_def)
    obtain s2 where s2: "block_write d i new s3 = Some s2" "io_rel s3 s2" "dev_sector s2 d = (dev_sector s d)(i := new)"
        "malloc_results s2 = malloc_results s1"
      using dev_write [OF s3(1) i(2) nl] s3(2,4) by metis
    have io: "io_rel s s2" using io_rel_trans [OF s3(3) s2(2)] .
    have d2: "fs_device s2 = d" "fs_device s1 = d" "fs_device sr = d"
      using io_rel_fs(2) [OF io] io_rel_fs(2) [OF s1(3)] io_rel_fs(2) [OF sr(2)] by (simp_all add: d_def)
    have ok2: "dev_ok d n s2"
      using dev_ok_io [OF less.prems(1) io, of] less.prems(1) nl s2(3) unfolding d_def dev_ok_def by auto
    have al: "can_alloc b2 s2" "malloc_results (bounced b2 s2) \<in> {malloc_results s, malloc_results (bounced bounce s)}"
        "malloc_results s2 \<in> {malloc_results s, malloc_results (bounced bounce s)}"
      using less.prems(5) s2(4) by (auto simp: b2_def s1_def can_alloc_def bounced_def)
    have byte: "byte_at s2 ino j = (if k \<le> j \<and> j < k + c then buf ! (w + (j - k)) else byte_at s ino j)" for j
      using piece_written [of s i ino k data sz s2 j] len dl d2(1) s2(3) less.prems(6) c(2)
      unfolding new_def i_def d_def c_def by (auto simp: data_def c_def)
    have step: "inode_write_loop p buf (int sz) (int k) (int w) bounce s =
        inode_write_loop p buf (int (sz - c)) (int (k + c)) (int (w + c)) b2 s2"
    proof (cases full)
      case f: True
      then have "new = data" using len by (simp add: new_def full_def)
      then show ?thesis using True f less.prems(2) ck i(1) s2(1) c dl
        by (simp add: inode_write_loop.simps [of p buf "int sz"] sector_ofs_nat full_def s1_def s3_def b2_def Let_def of_nat_diff
          data_def d_def)
    next
      case f: False
      then have part: "(int (k mod 512) > 0 \<or> int c < 512 - int (k mod 512)) = True" using c(4) by (auto simp: full_def)
      have nf: "(int (k mod 512) = 0 \<and> int c = 512) = False" using f by (auto simp: full_def)
      have rd: "block_read (fs_device (bounced bounce s)) i (bounced bounce s) = Some (dev_sector s d i, sr)"
        using sr(1) f by (simp add: s1_def d_def)
      have wr: "block_write (fs_device sr) i new sr = Some s2" using s2(1) f d2(3) by (simp add: s3_def)
      have p: "(int sz > 0) = True" "(int c \<le> 0) = False" "(c < c) = False" "(int (k mod 512) < 0) = False"
        using True c(1) by simp_all
      have e: "int sz - int c = int (sz - c)" "int k + int c = int (k + c)" "int w + int c = int (w + c)" "b2 = True"
        using c(2) f by (simp_all add: of_nat_diff b2_def)
      show ?thesis unfolding e(1-3) [symmetric] e(4)
        by (subst inode_write_loop.simps) (simp only: p less.prems(2) option.case ck i(1) sector_ofs_nat nf Let_def nat_int
            data_def [symmetric] dl bounce_alloc [OF less.prems(5), unfolded Let_def] prod.case part if_True if_False not_True_eq_False
            rd bind.bind_lunit new_def [symmetric] wr)
    qed
    have IH: "\<exists>s'. inode_write_loop p buf (int (sz - c)) (int (k + c)) (int (w + c)) b2 s2 =
        Some (int (w + c + min (sz - c) (inode_len ino - (k + c))), s') \<and>
      io_rel s2 s' \<and> dev_ok (fs_device s2) n s' \<and>
      (\<forall>j. byte_at s' ino j = (if k + c \<le> j \<and> j < k + c + min (sz - c) (inode_len ino - (k + c)) then buf ! (w + c + (j - (k + c)))
        else byte_at s2 ino j)) \<and>
      (\<forall>j. j \<notin> {id_start (i_data ino)..<id_start (i_data ino) + (inode_len ino + 511) div 512} \<longrightarrow>
        dev_sector s' (fs_device s2) j = dev_sector s2 (fs_device s2) j) \<and>
      malloc_results s' \<in> {malloc_results s2, malloc_results (bounced b2 s2)}"
    proof (rule less.IH)
      show "sz - c < sz" using c True by simp
      show "dev_ok (fs_device s2) n s2" using ok2 d2(1) by simp
      show "inodes s2 p = Some ino" using less.prems(2) io_rel_fs(1) [OF io] by simp
      show "k + c < 2 ^ 31" using c(3) True inode_len_less [OF less.prems(3)] by linarith
    qed (use less.prems(3,6) c al in simp_all)
    define m where "m = min (sz - c) (inode_len ino - (k + c))"
    have m: "c + m = min sz (inode_len ino - k)" using c by (auto simp: m_def)
    obtain s' where s': "inode_write_loop p buf (int (sz - c)) (int (k + c)) (int (w + c)) b2 s2 = Some (int (w + (c + m)), s')"
      "io_rel s2 s'" "dev_ok d n s'"
      "\<And>j. byte_at s' ino j = (if k + c \<le> j \<and> j < k + c + m then buf ! (w + c + (j - (k + c))) else byte_at s2 ino j)"
      "\<And>j. j \<notin> {id_start (i_data ino)..<id_start (i_data ino) + (inode_len ino + 511) div 512} \<Longrightarrow>
        dev_sector s' d j = dev_sector s2 d j"
      "malloc_results s' \<in> {malloc_results s2, malloc_results (bounced b2 s2)}"
      using IH unfolding m_def [symmetric] d2(1) add.assoc [of w c m] by blast
    have "byte_at s' ino j = (if k \<le> j \<and> j < k + (c + m) then buf ! (w + (j - k)) else byte_at s ino j)" for j
      unfolding s'(4) byte by auto
    moreover have "dev_sector s' d j = dev_sector s d j"
      if "j \<notin> {id_start (i_data ino)..<id_start (i_data ino) + (inode_len ino + 511) div 512}" for j
    proof -
      have "k div 512 < (inode_len ino + 511) div 512" using True by linarith
      then have "i \<noteq> j" using that by (auto simp: i_def)
      then show ?thesis using s'(5) [OF that] s2(3) by simp
    qed
    moreover have "malloc_results s' \<in> {malloc_results s, malloc_results (bounced bounce s)}" using s'(6) al by auto
    ultimately show ?thesis using step s'(1,3) io_rel_trans [OF io s'(2)] unfolding m d_def [symmetric] by metis
  qed
qed

section \<open>Files as byte lists\<close>

definition inode_sectors :: "inode \<Rightarrow> nat set" where
  "inode_sectors ino = {id_start (i_data ino)..<id_start (i_data ino) + (inode_len ino + 511) div 512}"

lemma length_contents [simp]: "length (contents s ino) = inode_len ino"
  by (simp add: contents_def)

lemma contents_cong:
  assumes "fs_device s' = fs_device s"
    and "\<And>j. j \<in> inode_sectors ino \<Longrightarrow> dev_sector s' (fs_device s) j = dev_sector s (fs_device s) j"
  shows "contents s' ino = contents s ino"
proof -
  have "id_start (i_data ino) + i div 512 \<in> inode_sectors ino" if "i < inode_len ino" for i
  proof -
    have "i div 512 < (inode_len ino + 511) div 512" using that by linarith
    then show ?thesis by (simp add: inode_sectors_def)
  qed
  then show ?thesis using assms by (simp add: contents_def byte_at_def)
qed

lemma contents_same: "io_rel s s' \<Longrightarrow> media s' = media s \<Longrightarrow> contents s' ino = contents s ino"
  by (rule contents_cong) (simp_all add: io_rel_fs(2) dev_sector_media)

lemma inode_read_at_contents:
  assumes "dev_ok (fs_device s) n s" "inodes s p = Some ino" "inode_ok ino n" "k < 2 ^ 31" "can_alloc False s"
  obtains s' where "inode_read_at p (int sz) (int k) s =
      Some (int (min sz (inode_len ino - k)), take sz (drop k (contents s ino)), s')"
    "io_rel s s'" "media s' = media s" "malloc_results s' \<in> {malloc_results s, tl (malloc_results s)}"
proof -
  have "map (byte_at s ino) [k..<k + min sz (inode_len ino - k)] = take sz (drop k (contents s ino))"
    by (auto simp: list_eq_iff_nth_eq contents_def)
  then show ?thesis using that read_loop [OF assms, of sz 0 "[]"] unfolding inode_read_at_def bounced_def by auto
qed

lemma inode_write_at_contents:
  assumes "dev_ok (fs_device s) n s" "inodes s p = Some ino" "inode_ok ino n" "k < 2 ^ 31" "can_alloc False s"
    and "sz \<le> length buf" "deny_write_cnt ino = 0" and m: "m = min sz (inode_len ino - k)"
  obtains s' where "inode_write_at p buf (int sz) (int k) s = Some (int m, s')" "io_rel s s'" "dev_ok (fs_device s) n s'"
    "contents s' ino = take k (contents s ino) @ take m buf @ drop (k + m) (contents s ino)"
    "\<And>j. j \<notin> inode_sectors ino \<Longrightarrow> dev_sector s' (fs_device s) j = dev_sector s (fs_device s) j"
    "malloc_results s' \<in> {malloc_results s, tl (malloc_results s)}"
proof -
  from write_loop [OF assms(1-5), of 0 sz buf] assms(6) obtain s' where
    s': "inode_write_loop p buf (int sz) (int k) 0 False s = Some (int m, s')" "io_rel s s'" "dev_ok (fs_device s) n s'"
      "\<And>j. byte_at s' ino j = (if k \<le> j \<and> j < k + m then buf ! (j - k) else byte_at s ino j)"
      "\<And>j. j \<notin> inode_sectors ino \<Longrightarrow> dev_sector s' (fs_device s) j = dev_sector s (fs_device s) j"
      "malloc_results s' \<in> {malloc_results s, tl (malloc_results s)}"
    unfolding m inode_sectors_def bounced_def by auto
  have "contents s' ino = take k (contents s ino) @ take m buf @ drop (k + m) (contents s ino)"
    using m assms(6) by (auto simp: list_eq_iff_nth_eq contents_def s'(4) nth_append)
  then show ?thesis using that s' assms(2,7) by (simp add: inode_write_at_def)
qed

section \<open>The table of open inodes\<close>

lemma upd_block_io: "io_rel s (upd_block d (read_cnt_update f) s)" "io_rel s (upd_block d (write_cnt_update f) s)"
  by (simp_all add: io_rel_def) (simp_all add: upd_block_def)

lemma media_io: "io_rel s (s\<lparr>media := m\<rparr>)"
  by (simp add: io_rel_def)

lemma blk_malloc_io: "blk_malloc s = (p, s') \<Longrightarrow> io_rel s s'"
  by (auto simp: io_rel_def blk_malloc_def suffix_ConsI split: list.splits)

lemma block_read_io:
  assumes "block_read d i s = Some (bs, s')"
  shows "io_rel s s'"
proof -
  have "io_rel s (snd (bs, s'))"
  proof (rule block_read.raw_induct [where P = "\<lambda>d i s r. io_rel s (snd r)", OF _ assms], goal_cases)
    case (1 rec d i s r)
    then obtain bl where "blocks s d = Some bl" by (auto simp: bind_eq_Some_conv)
    with 1 show ?case
      by (cases "b_ops bl") (auto simp: bind_eq_Some_conv upd_block_io, metis io_rel_trans upd_block_io(1))
  qed
  then show ?thesis by simp
qed

lemma block_write_io:
  assumes "block_write d i buf s = Some s'"
  shows "io_rel s s'"
proof (rule block_write.raw_induct [where P = "\<lambda>d i buf s r. io_rel s r", OF _ assms], goal_cases)
  case (1 rec d i buf s s')
  then obtain bl where "blocks s d = Some bl" by (auto simp: bind_eq_Some_conv)
  with 1 show ?case
    by (cases "b_ops bl") (auto simp: bind_eq_Some_conv split: if_splits
        intro: io_rel_trans [OF _ upd_block_io(2)] io_rel_trans [OF media_io upd_block_io(2)])
qed

lemma bounce_io:
  "(if bounce then (True, s) else let (b, s) = blk_malloc s in (b \<noteq> NULL, s)) = (ok, s') \<Longrightarrow> io_rel s s'"
  by (auto simp: blk_malloc_io split: if_splits prod.splits)

lemma write_loop_step:
  assumes "inode_write_loop p buf sz offset w bounce s = Some (n, s')"
  shows "io_rel s s' \<or> (\<exists>c b s1. 0 < c \<and> 0 < sz \<and> io_rel s s1 \<and>
    inode_write_loop p buf (sz - c) (offset + c) (w + c) b s1 = Some (n, s'))"
proof (cases "sz > 0 \<and> (\<exists>ino. inodes s p = Some ino)")
  case False
  then show ?thesis using assms by (subst (asm) inode_write_loop.simps) (auto split: if_splits option.splits)
next
  case True
  then obtain ino where ino: "inodes s p = Some ino" "sz > 0" by blast
  obtain ok sb where bounce: "(if bounce then (True, s) else let (b, s) = blk_malloc s in (b \<noteq> NULL, s)) = (ok, sb)"
    by fastforce
  note io = bounce_io [OF bounce]
  define c where "c = chunk_size ino sz offset"
  have e: "(if c \<le> 0 then Some (w, s)
       else if length (take (nat c) (drop (nat w) buf)) < nat c then None
       else if sector_ofs offset = 0 \<and> c = 512 then
         block_write (fs_device s) (byte_to_sector ino offset) (take (nat c) (drop (nat w) buf)) s \<bind>
           inode_write_loop p buf (sz - c) (offset + c) (w + c) bounce
       else if \<not> ok then Some (w, sb)
       else if sector_ofs offset < 0 then None
       else (if sector_ofs offset > 0 \<or> c < 512 - sector_ofs offset then block_read (fs_device sb) (byte_to_sector ino offset) sb
             else Some (replicate 512 0, sb)) \<bind> (\<lambda>(bs, s1).
         block_write (fs_device s1) (byte_to_sector ino offset) (take (nat (sector_ofs offset)) bs @ take (nat c) (drop (nat w) buf) @
           drop (nat (sector_ofs offset) + nat c) bs) s1 \<bind>
         inode_write_loop p buf (sz - c) (offset + c) (w + c) True)) = Some (n, s')"
    using assms ino bounce [unfolded Let_def] by (subst (asm) inode_write_loop.simps) (simp add: Let_def c_def cong: if_cong)
  show ?thesis
  proof (cases "c \<le> 0 \<or> \<not> (sector_ofs offset = 0 \<and> c = 512) \<and> \<not> ok")
    case True
    then show ?thesis using e io by (auto split: if_splits)
  next
    case False
    then have c: "0 < c" by simp
    have "\<exists>b s1. io_rel s s1 \<and> inode_write_loop p buf (sz - c) (offset + c) (w + c) b s1 = Some (n, s')"
    proof (cases "sector_ofs offset = 0 \<and> c = 512")
      case True
      then show ?thesis using e c block_write_io by (fastforce simp: bind_eq_Some_conv split: if_splits)
    next
      case nf: False
      define rd where "rd = (if sector_ofs offset > 0 \<or> c < 512 - sector_ofs offset
        then block_read (fs_device sb) (byte_to_sector ino offset) sb else Some (replicate 512 0, sb))"
      have "\<not> length (take (nat c) (drop (nat w) buf)) < nat c" using e c by (auto split: if_splits)
      moreover have "\<not> sector_ofs offset < 0" using e c nf False by (auto split: if_splits)
      ultimately obtain bs s1 s2 data where "rd = Some (bs, s1)"
        and s1: "block_write (fs_device s1) (byte_to_sector ino offset) data s1 = Some s2"
        "inode_write_loop p buf (sz - c) (offset + c) (w + c) True s2 = Some (n, s')"
        using e c nf False unfolding rd_def [symmetric] by (auto simp: bind_eq_Some_conv)
      moreover from this(1) have "io_rel sb s1" using block_read_io by (auto simp: rd_def split: if_splits)
      ultimately have s1: "io_rel sb s1" "block_write (fs_device s1) (byte_to_sector ino offset) data s1 = Some s2"
        "inode_write_loop p buf (sz - c) (offset + c) (w + c) True s2 = Some (n, s')" by blast+
      then show ?thesis using block_write_io io_rel_trans [OF io] io_rel_trans by blast
    qed
    then show ?thesis using c ino(2) by blast
  qed
qed

lemma write_loop_io: "inode_write_loop p buf sz offset w bounce s = Some (n, s') \<Longrightarrow> io_rel s s'"
proof (induction "nat sz" arbitrary: sz offset w bounce s rule: less_induct)
  case less
  from write_loop_step [OF less.prems] show ?case
  proof
    assume "\<exists>c b s1. 0 < c \<and> 0 < sz \<and> io_rel s s1 \<and> inode_write_loop p buf (sz - c) (offset + c) (w + c) b s1 = Some (n, s')"
    then obtain c b s1 where c: "0 < c" "0 < sz" "io_rel s s1" "inode_write_loop p buf (sz - c) (offset + c) (w + c) b s1 = Some (n, s')"
      by blast
    have "nat (sz - c) < nat sz" using c(1,2) by simp
    from less.hyps [OF this c(4)] show ?thesis by (rule io_rel_trans [OF c(3)])
  qed
qed

lemma inode_write_at_io: "inode_write_at p buf sz offset s = Some (n, s') \<Longrightarrow> io_rel s s'"
  by (auto simp: inode_write_at_def bind_eq_Some_conv write_loop_io split: if_splits)

lemma free_map_release_frame:
  assumes "free_map_release sector cnt s = Some s'"
  shows "inodes s' = inodes s" "open_inodes s' = open_inodes s" "\<exists>fm. io_rel (s\<lparr>free_map := Some fm\<rparr>) s'"
proof -
  obtain fm ok where "bitmap_write fm (free_map_file s) (s\<lparr>free_map := Some fm\<rparr>) = Some (ok, s')"
    using assms by (auto simp: free_map_release_def bind_eq_Some_conv split: if_splits)
  then have io: "io_rel (s\<lparr>free_map := Some fm\<rparr>) s'"
    by (auto simp: bitmap_write_def file_write_at_def bind_eq_Some_conv Let_def intro: inode_write_at_io)
  show "inodes s' = inodes s" "open_inodes s' = open_inodes s" "\<exists>fm. io_rel (s\<lparr>free_map := Some fm\<rparr>) s'"
    using io io_rel_fs(1,3) [OF io] by auto
qed

text \<open>
  The invariant of the list of open inodes: its elements are allocated, have openers, lie in
  different sectors, and are not returned by a later allocation.
\<close>

definition fresh_supply :: "'a blk_state_scheme \<Rightarrow> ptr set \<Rightarrow> bool" where
  "fresh_supply s used \<longleftrightarrow> distinct (filter (\<lambda>p. p \<noteq> NULL) (malloc_results s)) \<and> set (malloc_results s) \<inter> used \<subseteq> {NULL}"

definition inode_table :: "'a fs_state_scheme \<Rightarrow> bool" where
  "inode_table s \<longleftrightarrow> distinct (open_inodes s) \<and> NULL \<notin> set (open_inodes s) \<and>
    (\<forall>p \<in> set (open_inodes s). \<exists>ino. inodes s p = Some ino \<and> 1 \<le> open_cnt ino) \<and>
    inj_on (\<lambda>p. map_option i_sector (inodes s p)) (set (open_inodes s)) \<and> fresh_supply s (set (open_inodes s))"

lemma find_open_result:
  assumes "\<And>p. p \<in> set ps \<Longrightarrow> p \<noteq> NULL \<and> inodes s p \<noteq> None"
  shows "\<exists>p. find_open sector ps s = Some p \<and>
    (if p = NULL then \<forall>q \<in> set ps. map_option i_sector (inodes s q) \<noteq> Some sector
     else p \<in> set ps \<and> map_option i_sector (inodes s p) = Some sector)"
  using assms
proof (induction ps)
  case (Cons p ps)
  obtain ino where "inodes s p = Some ino" "p \<noteq> NULL" using Cons.prems [of p] by auto
  moreover obtain r where "find_open sector ps s = Some r" "if r = NULL then \<forall>q \<in> set ps. map_option i_sector (inodes s q) \<noteq> Some sector
     else r \<in> set ps \<and> map_option i_sector (inodes s r) = Some sector" using Cons.IH Cons.prems by auto
  ultimately show ?case by (cases "i_sector ino = sector") (auto split: if_splits)
qed simp

lemma inode_table_update:
  assumes "inode_table s" "inodes s p = Some ino" "i_sector ino' = i_sector ino" "1 \<le> open_cnt ino'"
  shows "inode_table (s\<lparr>inodes := (inodes s)(p \<mapsto> ino')\<rparr>)"
proof -
  have "map_option i_sector (((inodes s)(p \<mapsto> ino')) q) = map_option i_sector (inodes s q)" for q
    using assms(2,3) by simp
  then show ?thesis using assms unfolding inode_table_def fresh_supply_def by simp
qed

lemma fresh_malloc:
  assumes "fresh_supply s used" "blk_malloc s = (p, s')" "p \<noteq> NULL"
  shows "p \<notin> used" "fresh_supply s' (insert p used)"
  using assms by (auto simp: fresh_supply_def blk_malloc_def split: list.splits)

lemma fresh_io:
  assumes "fresh_supply s used" "suffix (malloc_results s') (malloc_results s)" "used' \<subseteq> used"
  shows "fresh_supply s' used'"
proof -
  obtain xs where "malloc_results s = xs @ malloc_results s'" using assms(2) by (auto simp: suffix_def)
  then show ?thesis using assms(1,3) by (auto simp: fresh_supply_def)
qed

lemma inode_open_table:
  assumes "inode_table s" "inode_open sector s = Some (p, s')"
  shows "inode_table s'" "p \<noteq> NULL \<Longrightarrow> p \<in> set (open_inodes s')"
    "p \<noteq> NULL \<Longrightarrow> \<exists>ino. inodes s' p = Some ino \<and> i_sector ino = sector \<and>
       open_cnt ino = (if p \<in> set (open_inodes s) then open_cnt (the (inodes s p)) + 1 else 1)"
    "q \<in> set (open_inodes s) \<Longrightarrow> map_option i_sector (inodes s q) = Some sector \<Longrightarrow> p = q"
proof -
  have "p \<in> set (open_inodes s) \<Longrightarrow> p \<noteq> NULL \<and> inodes s p \<noteq> None" for p
    using assms(1) unfolding inode_table_def by (metis option.distinct(1))
  from find_open_result [of "open_inodes s" s sector, OF this] obtain r where
    r: "find_open sector (open_inodes s) s = Some r"
    "if r = NULL then \<forall>q \<in> set (open_inodes s). map_option i_sector (inodes s q) \<noteq> Some sector
     else r \<in> set (open_inodes s) \<and> map_option i_sector (inodes s r) = Some sector" by blast
  have "inode_table s' \<and> (p \<noteq> NULL \<longrightarrow> p \<in> set (open_inodes s') \<and> (\<exists>ino. inodes s' p = Some ino \<and> i_sector ino = sector \<and>
       open_cnt ino = (if p \<in> set (open_inodes s) then open_cnt (the (inodes s p)) + 1 else 1))) \<and>
     (q \<in> set (open_inodes s) \<longrightarrow> map_option i_sector (inodes s q) = Some sector \<longrightarrow> p = q)"
  proof (cases "r = NULL")
    case False
    then obtain ino where ino: "inodes s r = Some ino" "i_sector ino = sector" "r \<in> set (open_inodes s)" using r(2) by auto
    then have "1 \<le> open_cnt ino" using assms(1) unfolding inode_table_def by (metis option.inject)
    moreover have "p = r" "s' = s\<lparr>inodes := (inodes s)(r \<mapsto> ino\<lparr>open_cnt := open_cnt ino + 1\<rparr>)\<rparr>"
      using assms(2) r(1) False ino by (auto simp: inode_open_def inode_reopen_def)
    moreover have "q = r" if "q \<in> set (open_inodes s)" "map_option i_sector (inodes s q) = Some sector"
      using assms(1) that ino unfolding inode_table_def inj_on_def by auto
    ultimately show ?thesis using inode_table_update [OF assms(1) ino(1), of "ino\<lparr>open_cnt := open_cnt ino + 1\<rparr>"] ino by auto
  next
    case True
    then have none: "\<forall>q \<in> set (open_inodes s). map_option i_sector (inodes s q) \<noteq> Some sector" using r(2) by simp
    obtain b s1 where m: "blk_malloc s = (b, s1)" by fastforce
    have io: "io_rel s s1" by (rule blk_malloc_io [OF m])
    show ?thesis
    proof (cases "b = NULL")
      case nul: True
      then have e: "p = NULL" "s' = s1" using assms(2) r(1) True m by (auto simp: inode_open_def)
      have "suffix (malloc_results s1) (malloc_results s)" using io by (simp add: io_rel_def)
      then have "inode_table s1" using assms(1) io_rel_fs(1,3) [OF io] fresh_io [of s _ s1] unfolding inode_table_def by auto
      then show ?thesis using e none by auto
    next
      case new: False
      define s2 where "s2 = s1\<lparr>open_inodes := b # open_inodes s1\<rparr>"
      obtain bs s3 where rd: "block_read (fs_device s2) sector s2 = Some (bs, s3)" and e: "p = b"
        "s' = s3\<lparr>inodes := (inodes s3)(b \<mapsto> \<lparr>i_sector = sector, open_cnt = 1, removed = False, deny_write_cnt = 0,
          i_data = bytes_inode bs\<rparr>)\<rparr>"
        using assms(2) r(1) True m new by (auto simp: inode_open_def s2_def bind_eq_Some_conv)
      note io3 = block_read_io [OF rd]
      have f: "inodes s3 = inodes s" "open_inodes s3 = b # open_inodes s"
        using io_rel_fs(1,3) [OF io3] io_rel_fs(1,3) [OF io] by (simp_all add: s2_def)
      have none2: "\<forall>q \<in> set (open_inodes s). Some sector \<noteq> map_option i_sector (inodes s q)" using none by metis
      have fr: "fresh_supply s (set (open_inodes s))" using assms(1) by (simp add: inode_table_def)
      have b: "b \<notin> set (open_inodes s)" "fresh_supply s1 (insert b (set (open_inodes s)))" using fresh_malloc [OF fr m new] .
      have "suffix (malloc_results s3) (malloc_results s1)" using io3 by (simp add: io_rel_def s2_def)
      from fresh_io [OF b(2) this subset_refl] have "fresh_supply s' (set (open_inodes s'))"
        using f(2) by (simp add: e(2) fresh_supply_def)
      moreover have "inj_on (\<lambda>p. map_option i_sector (inodes s' p)) (set (open_inodes s'))"
        using assms(1) none none2 b(1) f
        unfolding inode_table_def inj_on_def by (auto simp: e(2))
      ultimately have "inode_table s'" using assms(1) b(1) f new unfolding inode_table_def by (auto simp: e(2))
      then show ?thesis using none f b(1) by (auto simp: e)
    qed
  qed
  then show "inode_table s'" "p \<noteq> NULL \<Longrightarrow> p \<in> set (open_inodes s')"
    "p \<noteq> NULL \<Longrightarrow> \<exists>ino. inodes s' p = Some ino \<and> i_sector ino = sector \<and>
       open_cnt ino = (if p \<in> set (open_inodes s) then open_cnt (the (inodes s p)) + 1 else 1)"
    "q \<in> set (open_inodes s) \<Longrightarrow> map_option i_sector (inodes s q) = Some sector \<Longrightarrow> p = q" by blast+
qed

lemma inode_close_table:
  assumes "inode_table s" "p \<in> set (open_inodes s)" "inode_close p s = Some s'"
  shows "inode_table s'"
    "set (open_inodes s') = (if open_cnt (the (inodes s p)) = 1 then set (open_inodes s) - {p} else set (open_inodes s))"
    "inodes s' p = (if open_cnt (the (inodes s p)) = 1 then None
       else map_option (\<lambda>ino. ino\<lparr>open_cnt := open_cnt ino - 1\<rparr>) (inodes s p))"
proof -
  obtain ino where ino: "inodes s p = Some ino" "1 \<le> open_cnt ino" "p \<noteq> NULL"
    using assms(1,2) unfolding inode_table_def by metis
  define ino' where "ino' = ino\<lparr>open_cnt := open_cnt ino - 1\<rparr>"
  define s1 where "s1 = s\<lparr>inodes := (inodes s)(p \<mapsto> ino')\<rparr>"
  have d: "distinct (open_inodes s)" using assms(1) by (simp add: inode_table_def)
  have "inode_table s' \<and> set (open_inodes s') = (if open_cnt ino = 1 then set (open_inodes s) - {p} else set (open_inodes s)) \<and>
    inodes s' p = (if open_cnt ino = 1 then None else Some ino')"
  proof (cases "open_cnt ino = 1")
    case False
    then have "s' = s1" using assms(3) ino by (simp add: inode_close_def s1_def ino'_def Let_def)
    moreover have "inode_table s1" unfolding s1_def
      by (rule inode_table_update [OF assms(1) ino(1)]) (use False ino(2) in \<open>simp_all add: ino'_def\<close>)
    ultimately show ?thesis using False by (simp add: s1_def)
  next
    case True
    define s2 where "s2 = s1\<lparr>open_inodes := remove1 p (open_inodes s)\<rparr>"
    obtain s3 where rel: "if removed ino then \<exists>sa. free_map_release (i_sector ino) 1 s2 = Some sa \<and>
        free_map_release (id_start (i_data ino)) (bytes_to_sectors (id_length (i_data ino))) sa = Some s3 else s3 = s2"
      and s3: "s' = s3\<lparr>inodes := (inodes s3)(p := None)\<rparr>"
      using assms(3) ino True
      by (cases "removed ino") (auto simp: inode_close_def Let_def s2_def s1_def ino'_def bind_eq_Some_conv)
    have "inodes s3 = inodes s2 \<and> open_inodes s3 = open_inodes s2 \<and> suffix (malloc_results s3) (malloc_results s2)"
    proof (cases "removed ino")
      case True
      then obtain sa where sa: "free_map_release (i_sector ino) 1 s2 = Some sa"
        "free_map_release (id_start (i_data ino)) (bytes_to_sectors (id_length (i_data ino))) sa = Some s3" using rel by auto
      note f = free_map_release_frame [OF sa(1)] free_map_release_frame [OF sa(2)]
      have "suffix (malloc_results sa) (malloc_results s2)" "suffix (malloc_results s3) (malloc_results sa)"
        using f(3,6) by (auto simp: io_rel_def)
      then show ?thesis using f suffix_order.trans by metis
    qed (use rel in simp)
    then have s3: "s' = s3\<lparr>inodes := (inodes s3)(p := None)\<rparr>" "inodes s3 = inodes s2" "open_inodes s3 = open_inodes s2"
        "suffix (malloc_results s3) (malloc_results s2)" using s3 by simp_all
    have sub: "set (open_inodes s') = set (open_inodes s) - {p}" using d by (simp add: s3 s2_def)
    have "fresh_supply s' (set (open_inodes s'))"
      by (rule fresh_io [of s "set (open_inodes s)"]) (use assms(1) s3 sub in \<open>auto simp: inode_table_def s2_def s1_def\<close>)
    moreover have "inodes s' q = inodes s q" if "q \<noteq> p" for q using that by (simp add: s3 s2_def s1_def)
    ultimately have "inode_table s'" using assms(1) d sub unfolding inode_table_def inj_on_def
      by (auto simp: s3(1)) (simp_all add: s3 s2_def distinct_remove1)
    then show ?thesis using True sub by (simp add: s3(1))
  qed
  then show "inode_table s'"
    "set (open_inodes s') = (if open_cnt (the (inodes s p)) = 1 then set (open_inodes s) - {p} else set (open_inodes s))"
    "inodes s' p = (if open_cnt (the (inodes s p)) = 1 then None
       else map_option (\<lambda>ino. ino\<lparr>open_cnt := open_cnt ino - 1\<rparr>) (inodes s p))"
    using ino by (simp_all add: ino'_def)
qed

section \<open>Properties\<close>

text \<open>
  C30. An inode is a byte array of fixed length: a write at a position stores the part of the
  caller's data that lies below the end of the file, returns its length and changes no other byte of
  the file and no file whose sectors are elsewhere, whatever the alignment to sectors; a write to an
  inode with writes denied changes nothing; a read returns the bytes of the array from its position,
  up to the end. This holds when the bounce buffers can be allocated.
\<close>

theorem inode_refines_bytes:
  assumes "dev_ok (fs_device s) n s" "inodes s p = Some ino" "inode_ok ino n" "malloc_results s = a # b # ms" "a \<noteq> NULL" "b \<noteq> NULL"
    and "k < 2 ^ 31" "sz \<le> length buf" "i < 2 ^ 31"
    and m: "m = (if deny_write_cnt ino = 0 then min sz (inode_len ino - k) else 0)"
  shows "\<exists>s1 s2. inode_write_at p buf (int sz) (int k) s = Some (int m, s1) \<and>
    contents s1 ino = (if m = 0 then contents s ino else take k (contents s ino) @ take m buf @ drop (k + m) (contents s ino)) \<and>
    (\<forall>other. inode_sectors other \<inter> inode_sectors ino = {} \<longrightarrow> contents s1 other = contents s other) \<and>
    inode_read_at p (int len) (int i) s1 =
      Some (int (min len (inode_len ino - i)), take len (drop i (contents s1 ino)), s2) \<and>
    contents s2 = contents s1"
proof -
  have al: "can_alloc False s" using assms(4,5) by (simp add: can_alloc_def)
  obtain s1 where s1: "inode_write_at p buf (int sz) (int k) s = Some (int m, s1)" "io_rel s s1" "dev_ok (fs_device s) n s1"
    "contents s1 ino = (if m = 0 then contents s ino else take k (contents s ino) @ take m buf @ drop (k + m) (contents s ino))"
    "\<And>j. j \<notin> inode_sectors ino \<Longrightarrow> dev_sector s1 (fs_device s) j = dev_sector s (fs_device s) j"
    "malloc_results s1 \<in> {malloc_results s, tl (malloc_results s)}"
  proof (cases "deny_write_cnt ino = 0")
    case True
    with m have m': "m = min sz (inode_len ino - k)" by simp
    obtain s1 where s1: "inode_write_at p buf (int sz) (int k) s = Some (int m, s1)" "io_rel s s1" "dev_ok (fs_device s) n s1"
      "contents s1 ino = take k (contents s ino) @ take m buf @ drop (k + m) (contents s ino)"
      "\<And>j. j \<notin> inode_sectors ino \<Longrightarrow> dev_sector s1 (fs_device s) j = dev_sector s (fs_device s) j"
      "malloc_results s1 \<in> {malloc_results s, tl (malloc_results s)}"
      by (rule inode_write_at_contents [OF assms(1-3,7) al assms(8) True m']) (rule that)
    show ?thesis by (rule that [of s1]) (use s1 in auto)
  next
    case False
    show ?thesis by (rule that [of s]) (use False m assms(1,2) in \<open>auto simp: inode_write_at_def\<close>)
  qed
  have fs: "fs_device s1 = fs_device s" "inodes s1 p = Some ino" using io_rel_fs(1,2) [OF s1(2)] assms(2) by simp_all
  have al1: "can_alloc False s1" using s1(6) assms(4-6) by (auto simp: can_alloc_def)
  obtain s2 where s2: "inode_read_at p (int len) (int i) s1 =
      Some (int (min len (inode_len ino - i)), take len (drop i (contents s1 ino)), s2)" "io_rel s1 s2" "media s2 = media s1"
    by (rule inode_read_at_contents [OF _ fs(2) assms(3,9) al1]) (use s1(3) fs(1) in simp_all)
  have "contents s2 = contents s1" using contents_same [OF s2(2,3)] by blast
  moreover have "contents s1 other = contents s other" if "inode_sectors other \<inter> inode_sectors ino = {}" for other
    by (rule contents_cong [OF fs(1)]) (use that s1(5) in blast)
  ultimately show ?thesis using s1(1,4) s2(1) by blast
qed

text \<open>A file of 700 bytes in sectors 3 and 4 of the partition of the example disk.\<close>

definition ex_inode :: inode where
  "ex_inode = \<lparr>i_sector = 2, open_cnt = 1, removed = False, deny_write_cnt = 0,
     i_data = \<lparr>id_start = 3, id_length = 700, id_magic = INODE_MAGIC\<rparr>\<rparr>"

definition ex_fs :: fs_state where
  "ex_fs = \<lparr>blocks = [5 \<mapsto> \<lparr>b_name = ''hda'', b_type = BLOCK_RAW, b_size = 8, b_ops = Raw_operations, read_cnt = 0, write_cnt = 0\<rparr>,
       12 \<mapsto> \<lparr>b_name = ''hda1'', b_type = BLOCK_FILESYS, b_size = 6, b_ops = Partition_operations 5 2, read_cnt = 0, write_cnt = 0\<rparr>],
     all_blocks = [5, 12], block_by_role = (\<lambda>_. NULL)(BLOCK_FILESYS := 12), media = (\<lambda>_ _. replicate 512 0),
     malloc_results = [20, 21], fs_device = 12, inodes = [30 \<mapsto> ex_inode], open_inodes = [30], files = Map.empty,
     dirs = Map.empty, free_map = None, free_map_file = NULL\<rparr>"

lemma ex_fs_ok: "dev_ok (fs_device ex_fs) 6 ex_fs" "inode_ok ex_inode 6"
  by (auto simp: ex_fs_def ex_inode_def dev_ok_def blocks_ok_def bview_def bcore_def dev_sector_def inode_ok_def inode_len_def
      split: if_splits)

theorem inode_refines_bytes_witness:
  "\<exists>s1 s2. inode_write_at 30 [1, 2, 3] 3 511 ex_fs = Some (3, s1) \<and> length (contents s1 ex_inode) = 700 \<and>
    inode_read_at 30 2 512 s1 = Some (2, take 2 (drop 512 (contents s1 ex_inode)), s2)"
proof -
  have a: "inodes ex_fs 30 = Some ex_inode" "malloc_results ex_fs = 20 # 21 # []" "deny_write_cnt ex_inode = 0" "inode_len ex_inode = 700"
    by (simp_all add: ex_fs_def ex_inode_def inode_len_def)
  show ?thesis
    using inode_refines_bytes [OF ex_fs_ok(1) a(1) ex_fs_ok(2) a(2), where k = 511 and sz = 3 and buf = "[1, 2, 3]"
        and i = 512 and len = 2 and m = 3] a(3,4)
    by simp (metis length_contents a(4))
qed


lemma ex_inode_table: "inode_table ex_fs"
  by (simp add: inode_table_def ex_fs_def ex_inode_def fresh_supply_def)


end
