(* ===== verification/Directory.thy ===== *)
theory Directory
  imports Inode
begin

text \<open>
  Directories, \<^verbatim>\<open>filesys/directory.c\<close>, and the file system operations of
  \<^verbatim>\<open>filesys/filesys.c\<close>. A name is the list of its characters without the terminator;
  a directory entry is the list of its 20 bytes, as the code reads and writes it.
\<close>

section \<open>Directory entries\<close>

definition NAME_MAX :: nat where
  "NAME_MAX = 14"

definition DIR_ENTRY_SIZE :: int where
  "DIR_ENTRY_SIZE = 20"

type_synonym dir_entry = "byte list"

definition e_inode_sector :: "dir_entry \<Rightarrow> nat" where
  "e_inode_sector e = le32 e 0"

definition e_name :: "dir_entry \<Rightarrow> byte list" where
  "e_name e = take (NAME_MAX + 1) (drop 4 e)"

definition e_in_use :: "dir_entry \<Rightarrow> bool" where
  "e_in_use e \<longleftrightarrow> e ! 19 \<noteq> 0"

definition put_at :: "nat \<Rightarrow> byte list \<Rightarrow> byte list \<Rightarrow> byte list" where
  "put_at i xs e = take i e @ xs @ drop (i + length xs) e"

text \<open>\<^verbatim>\<open>!strcmp\<close> of a string and a character array; running off the array is an error.\<close>

fun name_eq :: "byte list \<Rightarrow> byte list \<Rightarrow> bool option" where
  "name_eq _ [] = None"
| "name_eq [] (c # cs) = Some (c = 0)"
| "name_eq (a # as) (c # cs) = (if a = c then name_eq as cs else Some False)"

section \<open>Opening and closing\<close>

definition dir_create :: "nat \<Rightarrow> nat \<Rightarrow> 'a fs_state_scheme \<Rightarrow> (bool \<times> 'a fs_state_scheme) option" where
  "dir_create sector entry_cnt s = inode_create sector (int32 (int (size_mul entry_cnt 20))) s"

definition dir_open :: "ptr \<Rightarrow> 'a fs_state_scheme \<Rightarrow> (ptr \<times> 'a fs_state_scheme) option" where
  "dir_open ino s = do {
     let (d, s) = blk_malloc s;
     if ino \<noteq> NULL \<and> d \<noteq> NULL then
       Some (d, s\<lparr>dirs := (dirs s)(d \<mapsto> \<lparr>d_inode = ino, d_pos = 0\<rparr>)\<rparr>)
     else do { s \<leftarrow> inode_close ino s; Some (NULL, s) }
   }"

definition dir_open_root :: "'a fs_state_scheme \<Rightarrow> (ptr \<times> 'a fs_state_scheme) option" where
  "dir_open_root s = do { (ino, s) \<leftarrow> inode_open ROOT_DIR_SECTOR s; dir_open ino s }"

definition dir_reopen :: "ptr \<Rightarrow> 'a fs_state_scheme \<Rightarrow> (ptr \<times> 'a fs_state_scheme) option" where
  "dir_reopen d s = do {
     dl \<leftarrow> dirs s d;
     (ino, s) \<leftarrow> inode_reopen (d_inode dl) s;
     dir_open ino s
   }"

definition dir_close :: "ptr \<Rightarrow> 'a fs_state_scheme \<Rightarrow> 'a fs_state_scheme option" where
  "dir_close d s =
    (if d \<noteq> NULL then do {
       dl \<leftarrow> dirs s d;
       s \<leftarrow> inode_close (d_inode dl) s;
       Some (s\<lparr>dirs := (dirs s)(d := None)\<rparr>)
     } else Some s)"

definition dir_get_inode :: "ptr \<Rightarrow> 'a fs_state_scheme \<Rightarrow> ptr option" where
  "dir_get_inode d s = map_option d_inode (dirs s d)"

section \<open>Searching\<close>

partial_function (option) lookup_loop ::
  "ptr \<Rightarrow> byte list \<Rightarrow> int \<Rightarrow> 'a fs_state_scheme \<Rightarrow> ((dir_entry \<times> int) option \<times> 'a fs_state_scheme) option" where
  [code]: "lookup_loop ino name ofs s = do {
     (n, e, s) \<leftarrow> inode_read_at ino DIR_ENTRY_SIZE ofs s;
     if n = DIR_ENTRY_SIZE then do {
       found \<leftarrow> (if e_in_use e then name_eq name (e_name e) else Some False);
       if found then Some (Some (e, ofs), s) else lookup_loop ino name (ofs + DIR_ENTRY_SIZE) s
     } else Some (None, s)
   }"

definition lookup ::
  "ptr \<Rightarrow> byte list \<Rightarrow> 'a fs_state_scheme \<Rightarrow> ((dir_entry \<times> int) option \<times> 'a fs_state_scheme) option" where
  "lookup d name s = do { dl \<leftarrow> dirs s d; lookup_loop (d_inode dl) name 0 s }"

definition dir_lookup :: "ptr \<Rightarrow> byte list \<Rightarrow> 'a fs_state_scheme \<Rightarrow> (ptr \<times> 'a fs_state_scheme) option" where
  "dir_lookup d name s = do {
     (r, s) \<leftarrow> lookup d name s;
     case r of
       Some (e, _) \<Rightarrow> inode_open (e_inode_sector e) s
     | None \<Rightarrow> Some (NULL, s)
   }"

section \<open>Changing\<close>

text \<open>
  The search for a free slot: \<open>e\<close> is the entry buffer, whose first bytes each read overwrites.
\<close>

partial_function (option) free_slot ::
  "ptr \<Rightarrow> int \<Rightarrow> dir_entry \<Rightarrow> 'a fs_state_scheme \<Rightarrow> (int \<times> dir_entry \<times> 'a fs_state_scheme) option" where
  [code]: "free_slot ino ofs e s = do {
     (n, out, s) \<leftarrow> inode_read_at ino DIR_ENTRY_SIZE ofs s;
     let e = put_at 0 out e;
     if n = DIR_ENTRY_SIZE \<and> e_in_use e then free_slot ino (ofs + DIR_ENTRY_SIZE) e s
     else Some (ofs, e, s)
   }"

text \<open>\<open>junk\<close> is the contents of the uninitialised entry buffer on the stack.\<close>

definition dir_add ::
  "dir_entry \<Rightarrow> ptr \<Rightarrow> byte list \<Rightarrow> nat \<Rightarrow> 'a fs_state_scheme \<Rightarrow> (bool \<times> 'a fs_state_scheme) option" where
  "dir_add junk d name inode_sector s = do {
     dl \<leftarrow> dirs s d;
     if name = [] \<or> length name > NAME_MAX then Some (False, s)
     else do {
       (r, s) \<leftarrow> lookup d name s;
       if r \<noteq> None then Some (False, s)
       else do {
         (ofs, e, s) \<leftarrow> free_slot (d_inode dl) 0 junk s;
         let e = put_at 0 (le_bytes inode_sector) (put_at 4 (name @ [0]) (e[19 := 1]));
         (n, s) \<leftarrow> inode_write_at (d_inode dl) e DIR_ENTRY_SIZE ofs s;
         Some (n = DIR_ENTRY_SIZE, s)
       }
     }
   }"

definition dir_remove :: "ptr \<Rightarrow> byte list \<Rightarrow> 'a fs_state_scheme \<Rightarrow> (bool \<times> 'a fs_state_scheme) option" where
  "dir_remove d name s = do {
     dl \<leftarrow> dirs s d;
     (r, s) \<leftarrow> lookup d name s;
     case r of
       None \<Rightarrow> Some (False, s)
     | Some (e, ofs) \<Rightarrow> do {
         (ino, s) \<leftarrow> inode_open (e_inode_sector e) s;
         if ino = NULL then Some (False, s)
         else do {
           (n, s) \<leftarrow> inode_write_at (d_inode dl) (e[19 := 0]) DIR_ENTRY_SIZE ofs s;
           if n \<noteq> DIR_ENTRY_SIZE then do { s \<leftarrow> inode_close ino s; Some (False, s) }
           else do {
             s \<leftarrow> inode_remove ino s;
             s \<leftarrow> inode_close ino s;
             Some (True, s)
           }
         }
       }
   }"

partial_function (option) dir_readdir ::
  "ptr \<Rightarrow> 'a fs_state_scheme \<Rightarrow> (byte list option \<times> 'a fs_state_scheme) option" where
  [code]: "dir_readdir d s = do {
     dl \<leftarrow> dirs s d;
     (n, e, s) \<leftarrow> inode_read_at (d_inode dl) DIR_ENTRY_SIZE (d_pos dl) s;
     if n = DIR_ENTRY_SIZE then do {
       let s = s\<lparr>dirs := (dirs s)(d \<mapsto> dl\<lparr>d_pos := d_pos dl + DIR_ENTRY_SIZE\<rparr>)\<rparr>;
       if e_in_use e then do {
         kassert (0 \<in> set (e_name e));
         Some (Some (takeWhile (\<lambda>c. c \<noteq> 0) (e_name e)), s)
       }
       else dir_readdir d s
     } else Some (None, s)
   }"

section \<open>The file system\<close>

definition do_format :: "'a fs_state_scheme \<Rightarrow> 'a fs_state_scheme option" where
  "do_format s = do {
     s \<leftarrow> free_map_create s;
     (ok, s) \<leftarrow> dir_create ROOT_DIR_SECTOR 16 s;
     kassert ok;
     free_map_close s
   }"

definition filesys_init :: "elem_type list \<Rightarrow> bool \<Rightarrow> 'a fs_state_scheme \<Rightarrow> 'a fs_state_scheme option" where
  "filesys_init raw format s = do {
     b \<leftarrow> block_get_role BLOCK_FILESYS s;
     let s = s\<lparr>fs_device := b\<rparr>;
     kassert (b \<noteq> NULL);
     s \<leftarrow> free_map_init raw (inode_init s);
     s \<leftarrow> (if format then do_format s else Some s);
     free_map_open s
   }"

definition filesys_done :: "'a fs_state_scheme \<Rightarrow> 'a fs_state_scheme option" where
  "filesys_done s = free_map_close s"

definition filesys_create ::
  "dir_entry \<Rightarrow> byte list \<Rightarrow> int \<Rightarrow> 'a fs_state_scheme \<Rightarrow> (bool \<times> 'a fs_state_scheme) option" where
  "filesys_create junk name initial_size s = do {
     (d, s) \<leftarrow> dir_open_root s;
     (r, s) \<leftarrow> (if d \<noteq> NULL then free_map_allocate 1 s else Some (None, s));
     let inode_sector = (case r of Some i \<Rightarrow> i | None \<Rightarrow> 0);
     (ok, s) \<leftarrow> (if r \<noteq> None then inode_create inode_sector initial_size s else Some (False, s));
     (success, s) \<leftarrow> (if ok then dir_add junk d name inode_sector s else Some (False, s));
     s \<leftarrow> (if \<not> success \<and> inode_sector \<noteq> 0 then free_map_release inode_sector 1 s else Some s);
     s \<leftarrow> dir_close d s;
     Some (success, s)
   }"

definition filesys_open :: "byte list \<Rightarrow> 'a fs_state_scheme \<Rightarrow> (ptr \<times> 'a fs_state_scheme) option" where
  "filesys_open name s = do {
     (d, s) \<leftarrow> dir_open_root s;
     (ino, s) \<leftarrow> (if d \<noteq> NULL then dir_lookup d name s else Some (NULL, s));
     s \<leftarrow> dir_close d s;
     file_open ino s
   }"

definition filesys_remove :: "byte list \<Rightarrow> 'a fs_state_scheme \<Rightarrow> (bool \<times> 'a fs_state_scheme) option" where
  "filesys_remove name s = do {
     (d, s) \<leftarrow> dir_open_root s;
     (success, s) \<leftarrow> (if d \<noteq> NULL then dir_remove d name s else Some (False, s));
     s \<leftarrow> dir_close d s;
     Some (success, s)
   }"

section \<open>The directory as a map\<close>

definition entry_cnt :: "inode \<Rightarrow> nat" where
  "entry_cnt ino = inode_len ino div 20"

definition entry :: "'a fs_state_scheme \<Rightarrow> inode \<Rightarrow> nat \<Rightarrow> dir_entry" where
  "entry s ino i = take 20 (drop (20 * i) (contents s ino))"

definition entry_string :: "dir_entry \<Rightarrow> byte list" where
  "entry_string e = takeWhile (\<lambda>c. c \<noteq> 0) (e_name e)"

definition matches :: "byte list \<Rightarrow> dir_entry \<Rightarrow> bool" where
  "matches name e \<longleftrightarrow> e_in_use e \<and> entry_string e = name"

definition entries_ok :: "'a fs_state_scheme \<Rightarrow> inode \<Rightarrow> bool" where
  "entries_ok s ino \<longleftrightarrow> (\<forall>i < entry_cnt ino. e_in_use (entry s ino i) \<longrightarrow> 0 \<in> set (e_name (entry s ino i)))"

definition find_entry :: "'a fs_state_scheme \<Rightarrow> inode \<Rightarrow> byte list \<Rightarrow> nat \<Rightarrow> nat option" where
  "find_entry s ino name i = find (\<lambda>j. matches name (entry s ino j)) [i..<entry_cnt ino]"

definition dir_map :: "'a fs_state_scheme \<Rightarrow> inode \<Rightarrow> byte list \<Rightarrow> nat option" where
  "dir_map s ino name = map_option (\<lambda>j. e_inode_sector (entry s ino j)) (find_entry s ino name 0)"

text \<open>The next \<open>k\<close> allocations succeed.\<close>

definition plenty :: "nat \<Rightarrow> 'a blk_state_scheme \<Rightarrow> bool" where
  "plenty k s \<longleftrightarrow> k \<le> length (malloc_results s) \<and> NULL \<notin> set (malloc_results s)"

lemma plenty_alloc: "plenty (Suc k) s \<Longrightarrow> can_alloc False s"
  by (cases "malloc_results s") (auto simp: plenty_def can_alloc_def)

lemma plenty_step:
  assumes "plenty (Suc k) s" "malloc_results s' \<in> {malloc_results s, tl (malloc_results s)}"
  shows "plenty k s'"
proof -
  have "set (tl (malloc_results s)) \<subseteq> set (malloc_results s)" by (cases "malloc_results s") auto
  then show ?thesis using assms by (auto simp: plenty_def)
qed

lemma plenty_mono: "plenty k s \<Longrightarrow> j \<le> k \<Longrightarrow> plenty j s"
  by (simp add: plenty_def)

lemma name_eq_ok: "0 \<in> set cs \<Longrightarrow> 0 \<notin> set name \<Longrightarrow> name_eq name cs = Some (takeWhile (\<lambda>c. c \<noteq> 0) cs = name)"
  by (induction name cs rule: name_eq.induct) auto

lemma entry_length [simp]: "i < entry_cnt ino \<Longrightarrow> length (entry s ino i) = 20"
  by (auto simp: entry_def entry_cnt_def)

text \<open>A directory on a device, with its inode.\<close>

definition dir_on :: "nat \<Rightarrow> ptr \<Rightarrow> inode \<Rightarrow> 'a fs_state_scheme \<Rightarrow> bool" where
  "dir_on n p ino s \<longleftrightarrow> dev_ok (fs_device s) n s \<and> inodes s p = Some ino \<and> inode_ok ino n \<and> entries_ok s ino"

lemma dir_on_io:
  assumes "dir_on n p ino s" "io_rel s s'" "media s' = media s"
  shows "dir_on n p ino s'" "entry s' ino = entry s ino" "find_entry s' ino = find_entry s ino" "dir_map s' ino = dir_map s ino"
proof -
  show e: "entry s' ino = entry s ino" using contents_same [OF assms(2,3)] by (simp add: entry_def fun_eq_iff)
  then show "find_entry s' ino = find_entry s ino" "dir_map s' ino = dir_map s ino"
    by (simp_all add: find_entry_def dir_map_def fun_eq_iff)
  show "dir_on n p ino s'"
    using assms(1) e dev_ok_same [OF _ assms(2,3)] io_rel_fs(1,2) [OF assms(2)] by (simp add: dir_on_def entries_ok_def)
qed

lemma read_entry:
  assumes "dir_on n p ino s" "plenty (Suc k) s" "i \<le> entry_cnt ino"
  obtains m out s' where "inode_read_at p DIR_ENTRY_SIZE (20 * int i) s = Some (m, out, s')" "io_rel s s'" "media s' = media s" "plenty k s'"
    "i < entry_cnt ino \<Longrightarrow> m = 20 \<and> out = entry s ino i" "i = entry_cnt ino \<Longrightarrow> m \<noteq> 20" "length out \<le> 20"
proof -
  have ok: "dev_ok (fs_device s) n s" "inodes s p = Some ino" "inode_ok ino n" using assms(1) by (simp_all add: dir_on_def)
  have "20 * i < 2 ^ 31" using assms(3) inode_len_less [OF ok(3)] by (simp add: entry_cnt_def)
  from inode_read_at_contents [OF ok this plenty_alloc [OF assms(2)], of 20] obtain s' where
    s': "inode_read_at p (int 20) (int (20 * i)) s = Some (int (min 20 (inode_len ino - 20 * i)), entry s ino i, s')"
      "io_rel s s'" "media s' = media s" "malloc_results s' \<in> {malloc_results s, tl (malloc_results s)}"
    unfolding entry_def by blast
  show ?thesis
  proof (rule that [of "int (min 20 (inode_len ino - 20 * i))" "entry s ino i" s'])
    show "inode_read_at p DIR_ENTRY_SIZE (20 * int i) s = Some (int (min 20 (inode_len ino - 20 * i)), entry s ino i, s')"
      using s'(1) by (simp add: DIR_ENTRY_SIZE_def)
    show "plenty k s'" by (rule plenty_step [OF assms(2) s'(4)])
    show "int (min 20 (inode_len ino - 20 * i)) = 20 \<and> entry s ino i = entry s ino i" if "i < entry_cnt ino"
      using that by (auto simp: entry_cnt_def)
    show "int (min 20 (inode_len ino - 20 * i)) \<noteq> 20" if "i = entry_cnt ino" using that by (auto simp: entry_cnt_def)
  qed (use s' in \<open>auto simp: entry_def\<close>)
qed

lemma lookup_loop_finds:
  assumes "dir_on n p ino s" "0 \<notin> set name" "i \<le> entry_cnt ino" "plenty (k + Suc (entry_cnt ino - i)) s"
  shows "\<exists>s'. lookup_loop p name (20 * int i) s =
      Some (map_option (\<lambda>j. (entry s ino j, 20 * int j)) (find_entry s ino name i), s') \<and>
      io_rel s s' \<and> media s' = media s \<and> plenty k s'"
  using assms
proof (induction "entry_cnt ino - i" arbitrary: i s rule: less_induct)
  case less
  obtain k' where k': "k + Suc (entry_cnt ino - i) = Suc k'" "k \<le> k'" by simp
  obtain m out s1 where r: "inode_read_at p DIR_ENTRY_SIZE (20 * int i) s = Some (m, out, s1)" "io_rel s s1" "media s1 = media s"
    "plenty k' s1" "i < entry_cnt ino \<Longrightarrow> m = 20 \<and> out = entry s ino i" "i = entry_cnt ino \<Longrightarrow> m \<noteq> 20"
    by (rule read_entry [OF less.prems(1) less.prems(4)[unfolded k'(1)] less.prems(3)]) (rule that)
  show ?case
  proof (cases "i = entry_cnt ino")
    case True
    have "lookup_loop p name (20 * int i) s = Some (None, s1)"
      using r(1) r(6) [OF True] by (subst lookup_loop.simps) (simp add: DIR_ENTRY_SIZE_def)
    then show ?thesis using r(2,3) plenty_mono [OF r(4) k'(2)] True by (simp add: find_entry_def)
  next
    case False
    then have lt: "i < entry_cnt ino" using less.prems(3) by simp
    have f: "(if e_in_use out then name_eq name (e_name out) else Some False) = Some (matches name (entry s ino i))"
      using less.prems(1,2) lt r(5) name_eq_ok by (auto simp: dir_on_def entries_ok_def matches_def entry_string_def)
    have fe: "find_entry s ino name i = (if matches name (entry s ino i) then Some i else find_entry s ino name (Suc i))"
      using lt by (simp add: find_entry_def upt_conv_Cons)
    have m: "(m = DIR_ENTRY_SIZE) = True" "out = entry s ino i" using r(5) [OF lt] by (simp_all add: DIR_ENTRY_SIZE_def)
    have step: "lookup_loop p name (20 * int i) s = (if matches name (entry s ino i) then Some (Some (out, 20 * int i), s1)
        else lookup_loop p name (20 * int i + DIR_ENTRY_SIZE) s1)"
      by (subst lookup_loop.simps) (simp only: r(1) bind.bind_lunit prod.case m(1) f if_True)
    show ?thesis
    proof (cases "matches name (entry s ino i)")
      case True
      then show ?thesis using step r(2,3) m(2) fe plenty_mono [OF r(4) k'(2)] by simp
    next
      case nm: False
      have "k' = k + Suc (entry_cnt ino - Suc i)" using k'(1) lt by simp
      then have "\<exists>s'. lookup_loop p name (20 * int (Suc i)) s1 =
          Some (map_option (\<lambda>j. (entry s1 ino j, 20 * int j)) (find_entry s1 ino name (Suc i)), s') \<and>
          io_rel s1 s' \<and> media s' = media s1 \<and> plenty k s'"
        using less.hyps [OF _ dir_on_io(1) [OF less.prems(1) r(2,3)] less.prems(2), of "Suc i"] r(4) lt by simp
      then obtain s' where s': "lookup_loop p name (20 * int (Suc i)) s1 =
          Some (map_option (\<lambda>j. (entry s ino j, 20 * int j)) (find_entry s ino name (Suc i)), s')"
          "io_rel s1 s'" "media s' = media s1" "plenty k s'"
        using dir_on_io(2,3) [OF less.prems(1) r(2,3)] by auto
      have next_ofs: "20 * int i + DIR_ENTRY_SIZE = 20 * int (Suc i)" by (simp add: DIR_ENTRY_SIZE_def)
      have "lookup_loop p name (20 * int i) s = lookup_loop p name (20 * int (Suc i)) s1"
        using step [unfolded next_ofs] nm by (simp only: if_False)
      then show ?thesis using s' fe nm io_rel_trans [OF r(2) s'(2)] r(3) by auto
    qed
  qed
qed

subsection \<open>Adding\<close>

definition next_free :: "'a fs_state_scheme \<Rightarrow> inode \<Rightarrow> nat \<Rightarrow> nat" where
  "next_free s ino i = (case find (\<lambda>j. \<not> e_in_use (entry s ino j)) [i..<entry_cnt ino] of Some j \<Rightarrow> j | None \<Rightarrow> entry_cnt ino)"

lemma put_at_length [simp]: "i + length xs \<le> length e \<Longrightarrow> length (put_at i xs e) = length e"
  by (simp add: put_at_def)

lemma put_at_nth: "i + length xs \<le> length e \<Longrightarrow> j < length e \<Longrightarrow>
    put_at i xs e ! j = (if i \<le> j \<and> j < i + length xs then xs ! (j - i) else e ! j)"
  by (auto simp: put_at_def nth_append)

lemma free_slot_finds:
  assumes "dir_on n p ino s" "i \<le> entry_cnt ino" "plenty (k + Suc (entry_cnt ino - i)) s" "length e = 20"
  shows "\<exists>e' s'. free_slot p (20 * int i) e s = Some (20 * int (next_free s ino i), e', s') \<and> length e' = 20 \<and>
      io_rel s s' \<and> media s' = media s \<and> plenty k s'"
  using assms
proof (induction "entry_cnt ino - i" arbitrary: i e s rule: less_induct)
  case less
  obtain k' where k': "k + Suc (entry_cnt ino - i) = Suc k'" "k \<le> k'" by simp
  obtain m out s1 where r: "inode_read_at p DIR_ENTRY_SIZE (20 * int i) s = Some (m, out, s1)" "io_rel s s1" "media s1 = media s"
    "plenty k' s1" "i < entry_cnt ino \<Longrightarrow> m = 20 \<and> out = entry s ino i" "i = entry_cnt ino \<Longrightarrow> m \<noteq> 20" "length out \<le> 20"
    by (rule read_entry [OF less.prems(1) less.prems(3)[unfolded k'(1)] less.prems(2)]) (rule that)
  have len: "length (put_at 0 out e) = 20" using r(7) less.prems(4) by simp
  have step: "free_slot p (20 * int i) e s = (if m = DIR_ENTRY_SIZE \<and> e_in_use (put_at 0 out e)
      then free_slot p (20 * int i + DIR_ENTRY_SIZE) (put_at 0 out e) s1 else Some (20 * int i, put_at 0 out e, s1))"
    by (subst free_slot.simps) (simp only: r(1) bind.bind_lunit prod.case Let_def)
  have e: "put_at 0 out e = entry s ino i" if "i < entry_cnt ino" using r(5) [OF that] that less.prems(4) by (simp add: put_at_def)
  show ?case
  proof (cases "i < entry_cnt ino \<and> e_in_use (entry s ino i)")
    case True
    then have nf: "next_free s ino i = next_free s ino (Suc i)" by (simp add: next_free_def upt_conv_Cons)
    have next_ofs: "20 * int i + DIR_ENTRY_SIZE = 20 * int (Suc i)" by (simp add: DIR_ENTRY_SIZE_def)
    have eq: "free_slot p (20 * int i) e s = free_slot p (20 * int (Suc i)) (put_at 0 out e) s1"
      using step [unfolded next_ofs] True e r(5) by (simp add: DIR_ENTRY_SIZE_def)
    have "k' = k + Suc (entry_cnt ino - Suc i)" using k'(1) True by linarith
    then have "\<exists>e' s'. free_slot p (20 * int (Suc i)) (put_at 0 out e) s1 = Some (20 * int (next_free s1 ino (Suc i)), e', s') \<and>
        length e' = 20 \<and> io_rel s1 s' \<and> media s' = media s1 \<and> plenty k s'"
      using less.hyps [OF _ dir_on_io(1) [OF less.prems(1) r(2,3)], of "Suc i" "put_at 0 out e"] r(4) True len
      by (simp add: diff_less_mono2)
    moreover have "next_free s1 ino (Suc i) = next_free s ino (Suc i)"
      using dir_on_io(2) [OF less.prems(1) r(2,3)] by (simp add: next_free_def)
    ultimately show ?thesis using eq nf io_rel_trans [OF r(2)] r(3) by auto
  next
    case False
    then have "next_free s ino i = i" using less.prems(2) by (cases "i < entry_cnt ino") (auto simp: next_free_def upt_conv_Cons)
    moreover have "free_slot p (20 * int i) e s = Some (20 * int i, put_at 0 out e, s1)"
      using step False e r(5,6) less.prems(2) by (cases "i < entry_cnt ino") (auto simp: DIR_ENTRY_SIZE_def)
    ultimately show ?thesis using r(2,3) len plenty_mono [OF r(4) k'(2)] by auto
  qed
qed

text \<open>The entry that \<^verbatim>\<open>dir_add\<close> writes.\<close>

definition new_entry :: "byte list \<Rightarrow> nat \<Rightarrow> dir_entry \<Rightarrow> dir_entry" where
  "new_entry name sector e = put_at 0 (le_bytes sector) (put_at 4 (name @ [0]) (e[19 := 1]))"

lemma le32_le_bytes: "n < 2 ^ 32 \<Longrightarrow> le32 (le_bytes n @ xs) 0 = n"
proof -
  assume n: "n < 2 ^ 32"
  have u: "unat (of_nat x :: byte) = x mod 256" for x by (simp add: unsigned_of_nat take_bit_eq_mod)
  define a b c where "a = n div 256" and "b = a div 256" and "c = b div 256"
  have d: "n div 65536 = b" "n div 16777216 = c" "n div 256 = a" by (simp_all add: a_def b_def c_def flip: div_mult2_eq)
  have "c < 256" using n by (simp add: c_def b_def a_def flip: div_mult2_eq)
  then have "c mod 256 = c" by simp
  moreover have "n = 256 * a + n mod 256" "a = 256 * b + a mod 256" "b = 256 * c + b mod 256"
    by (simp_all add: a_def b_def c_def)
  ultimately show ?thesis unfolding le32_def le_bytes_def d by (simp add: u nth_Cons')
qed

lemma new_entry:
  assumes "length e = 20" "length name \<le> 14" "0 \<notin> set name" "sector < 2 ^ 32"
  shows "length (new_entry name sector e) = 20" "e_in_use (new_entry name sector e)" "0 \<in> set (e_name (new_entry name sector e))"
    "entry_string (new_entry name sector e) = name" "e_inode_sector (new_entry name sector e) = sector"
proof -
  define r where "r = drop (5 + length name) (e[19 := 1])"
  have ne: "new_entry name sector e = le_bytes sector @ name @ 0 # r"
    using assms(1,2) by (simp add: new_entry_def put_at_def le_bytes_def r_def)
  have r: "length r = 15 - length name" using assms(1) by (simp add: r_def)
  show "length (new_entry name sector e) = 20" using r assms(2) by (simp add: ne le_bytes_def)
  have "r ! (14 - length name) = 1" using assms(1,2) by (simp add: r_def)
  then show "e_in_use (new_entry name sector e)"
    using assms(2) by (simp add: e_in_use_def ne le_bytes_def nth_append nth_Cons')
  have "take (15 - length name) (0 # r) = 0 # take (14 - length name) r" using assms(2) by (simp add: take_Cons')
  then have n: "e_name (new_entry name sector e) = name @ 0 # take (14 - length name) r"
    using assms(2) by (simp add: e_name_def ne le_bytes_def NAME_MAX_def)
  then show "0 \<in> set (e_name (new_entry name sector e))" by simp
  show "entry_string (new_entry name sector e) = name" using assms(3)
    unfolding entry_string_def n by (subst takeWhile_append2) auto
  show "e_inode_sector (new_entry name sector e) = sector" by (simp add: e_inode_sector_def ne le32_le_bytes [OF assms(4)])
qed

text \<open>What a write of one entry does to the entries.\<close>

lemma write_entry:
  assumes "dir_on n p ino s" "plenty (Suc k) s" "j \<le> entry_cnt ino" "length e = 20" "deny_write_cnt ino = 0"
  obtains m s' where "inode_write_at p e DIR_ENTRY_SIZE (20 * int j) s = Some (m, s')" "io_rel s s'" "dev_ok (fs_device s) n s'" "plenty k s'"
    "j < entry_cnt ino \<Longrightarrow> m = 20" "j = entry_cnt ino \<Longrightarrow> m \<noteq> 20"
    "\<And>i. i < entry_cnt ino \<Longrightarrow> entry s' ino i = (if i = j then e else entry s ino i)"
proof -
  have ok: "dev_ok (fs_device s) n s" "inodes s p = Some ino" "inode_ok ino n" using assms(1) by (simp_all add: dir_on_def)
  have lt: "20 * j < 2 ^ 31" using assms(3) inode_len_less [OF ok(3)] by (simp add: entry_cnt_def)
  define m where "m = min 20 (inode_len ino - 20 * j)"
  obtain s' where s': "inode_write_at p e (int 20) (int (20 * j)) s = Some (int m, s')" "io_rel s s'" "dev_ok (fs_device s) n s'"
      "contents s' ino = take (20 * j) (contents s ino) @ take m e @ drop (20 * j + m) (contents s ino)"
      "malloc_results s' \<in> {malloc_results s, tl (malloc_results s)}"
    by (rule inode_write_at_contents [OF ok lt plenty_alloc [OF assms(2)] _ assms(5) m_def, of e]) (use assms(4) in simp, rule that)
  have ent: "entry s' ino i = (if i = j then e else entry s ino i)" if i: "i < entry_cnt ino" for i
  proof -
    have il: "20 * i + 20 \<le> inode_len ino" using i by (simp add: entry_cnt_def)
    consider "i < j" | "i = j" | "j < i" by linarith
    then show ?thesis
    proof cases
      case 1
      have "20 * j \<le> inode_len ino" using assms(3) by (simp add: entry_cnt_def)
      moreover have "20 \<le> 20 * j - 20 * i" using 1 by simp
      ultimately show ?thesis using 1 by (simp add: entry_def s'(4) drop_take min_absorb1)
    next
      case 2
      then have "m = 20" using il by (simp add: m_def)
      then show ?thesis using 2 il assms(4) by (simp add: entry_def s'(4))
    next
      case 3
      then have "m = 20" using il by (simp add: m_def)
      then show ?thesis using 3 il assms(4) by (simp add: entry_def s'(4) add.commute)
    qed
  qed
  show ?thesis
  proof (rule that [of "int m" s'])
    show "inode_write_at p e DIR_ENTRY_SIZE (20 * int j) s = Some (int m, s')" using s'(1) by (simp add: DIR_ENTRY_SIZE_def)
    show "plenty k s'" by (rule plenty_step [OF assms(2) s'(5)])
    show "int m = 20" if "j < entry_cnt ino" using that by (auto simp: m_def entry_cnt_def)
    show "int m \<noteq> 20" if "j = entry_cnt ino" using that by (auto simp: m_def entry_cnt_def)
  qed (use s' ent in auto)
qed

lemma dir_map_added:
  assumes "j < entry_cnt ino" "\<not> e_in_use (entry s ino j)" "dir_map s ino name = None"
    and "\<And>i. i < entry_cnt ino \<Longrightarrow> entry s' ino i = (if i = j then e else entry s ino i)"
    and "e_in_use e" "entry_string e = name"
  shows "dir_map s' ino = (dir_map s ino)(name \<mapsto> e_inode_sector e)"
proof
  fix x
  show "dir_map s' ino x = ((dir_map s ino)(name \<mapsto> e_inode_sector e)) x"
  proof (cases "x = name")
    case True
    have "\<not> matches name (entry s ino i)" if "i < entry_cnt ino" for i
      using assms(3) that by (auto simp: dir_map_def find_entry_def find_None_iff)
    then have "matches name (entry s' ino i) \<longleftrightarrow> i = j" if "i < entry_cnt ino" for i
      using assms(4) [OF that] that assms(5,6) by (auto simp: matches_def)
    then have "find_entry s' ino name 0 = Some j"
      using assms(1) unfolding find_entry_def find_Some_iff by (intro exI [of _ j]) auto
    then show ?thesis using True assms(1,4) by (simp add: dir_map_def)
  next
    case False
    have m: "matches x (entry s' ino i) = matches x (entry s ino i)" if "i < entry_cnt ino" for i
      using assms(2,4) that False assms(5,6) by (auto simp: matches_def)
    then have f: "find_entry s' ino x 0 = find_entry s ino x 0" unfolding find_entry_def by (intro find_cong) auto
    have "entry s' ino i = entry s ino i" if "find_entry s ino x 0 = Some i" for i
    proof -
      have "i < entry_cnt ino" "matches x (entry s ino i)" using that by (auto simp: find_entry_def find_Some_iff)
      then show ?thesis using assms(2,4) by (auto simp: matches_def)
    qed
    then show ?thesis using False f by (cases "find_entry s ino x 0") (auto simp: dir_map_def)
  qed
qed

lemma next_free_cases:
  "next_free s ino 0 \<le> entry_cnt ino" "next_free s ino 0 < entry_cnt ino \<Longrightarrow> \<not> e_in_use (entry s ino (next_free s ino 0))"
  "next_free s ino 0 < entry_cnt ino \<longleftrightarrow> (\<exists>i < entry_cnt ino. \<not> e_in_use (entry s ino i))"
  by (auto simp: next_free_def find_Some_iff find_None_iff split: option.splits)

lemma dir_add_map:
  assumes "dirs s d = Some dl" "dir_on n (d_inode dl) ino s" "deny_write_cnt ino = 0"
    and "0 \<notin> set name" "length junk = 20" "sector < 2 ^ 32" "plenty (3 * entry_cnt ino + 4) s"
    and good_def: "good \<longleftrightarrow> name \<noteq> [] \<and> length name \<le> NAME_MAX \<and> dir_map s ino name = None \<and>
      (\<exists>i < entry_cnt ino. \<not> e_in_use (entry s ino i))"
  shows "\<exists>s1. dir_add junk d name sector s = Some (good, s1) \<and> dir_on n (d_inode dl) ino s1 \<and> dirs s1 = dirs s \<and>
    plenty (entry_cnt ino + 1) s1 \<and> dir_map s1 ino = (if good then (dir_map s ino)(name \<mapsto> sector) else dir_map s ino)"
proof -
  let ?p = "d_inode dl" and ?c = "entry_cnt ino"
  have on: "dir_on n ?p ino s" using assms(2) .
  show ?thesis
  proof (cases "name = [] \<or> length name > NAME_MAX")
    case True
    then show ?thesis using assms(1) on plenty_mono [OF assms(7), of "?c + 1"] by (auto simp: dir_add_def good_def)
  next
    case False
    obtain sl where sl: "lookup_loop ?p name 0 s = Some (map_option (\<lambda>j. (entry s ino j, 20 * int j)) (find_entry s ino name 0), sl)"
        "io_rel s sl" "media sl = media s" "plenty (2 * ?c + 3) sl"
      using lookup_loop_finds [OF on assms(4), of 0 "2 * ?c + 3"] plenty_mono [OF assms(7), of "2 * ?c + 3 + Suc (?c - 0)"] by auto
    note onl = dir_on_io [OF on sl(2,3)]
    have lk: "lookup d name s = Some (map_option (\<lambda>j. (entry s ino j, 20 * int j)) (find_entry s ino name 0), sl)"
      using sl(1) assms(1) by (simp add: lookup_def)
    have dl: "dirs sl = dirs s" using io_rel_fs(5) [OF sl(2)] .
    show ?thesis
    proof (cases "dir_map s ino name = None")
      case ex: False
      then show ?thesis using False lk onl assms(1) dl plenty_mono [OF sl(4), of "?c + 1"]
        by (auto simp: dir_add_def good_def dir_map_def)
    next
      case new: True
      define j where "j = next_free s ino 0"
      have nfl: "next_free sl ino 0 = j" using onl(2) by (simp add: next_free_def j_def)
      obtain e sf where sf: "free_slot ?p 0 junk sl = Some (20 * int j, e, sf)" "length e = 20" "io_rel sl sf" "media sf = media sl"
          "plenty (?c + 2) sf"
        using free_slot_finds [OF onl(1), of 0 "?c + 2" junk] assms(5) nfl plenty_mono [OF sl(4), of "?c + 2 + Suc (?c - 0)"] by auto
      note onf = dir_on_io [OF onl(1) sf(3,4)]
      define e' where "e' = new_entry name sector e"
      have len: "length name \<le> 14" using False by (simp add: NAME_MAX_def)
      note ne = new_entry [OF sf(2) len assms(4,6), folded e'_def]
      have j: "j \<le> ?c" using next_free_cases(1) by (simp add: j_def)
      obtain m s1 where s1: "inode_write_at ?p e' DIR_ENTRY_SIZE (20 * int j) sf = Some (m, s1)" "io_rel sf s1" "dev_ok (fs_device sf) n s1"
          "plenty (?c + 1) s1" "j < ?c \<Longrightarrow> m = 20" "j = ?c \<Longrightarrow> m \<noteq> 20"
          "\<And>i. i < ?c \<Longrightarrow> entry s1 ino i = (if i = j then e' else entry sf ino i)"
        by (rule write_entry [OF onf(1), of "?c + 1" j e']) (use sf(5) ne(1) assms(3) j that in auto)
      have good: "good \<longleftrightarrow> j < ?c" using False new next_free_cases(3) by (auto simp: good_def j_def)
      have "find_entry s ino name 0 = None" using new by (simp add: dir_map_def)
      then have add: "dir_add junk d name sector s = Some (good, s1)"
        using False assms(1) lk sf(1) s1(1,5,6) j good by (auto simp: dir_add_def e'_def new_entry_def DIR_ENTRY_SIZE_def)
      have ent: "entry sf ino = entry s ino" using onf(2) onl(2) by simp
      have "entries_ok s1 ino" using on s1(7) ent ne(3) by (auto simp: dir_on_def entries_ok_def)
      then have "dir_on n ?p ino s1" using s1(3) onf(1) io_rel_fs(1,2) [OF s1(2)] by (simp add: dir_on_def)
      moreover have "dirs s1 = dirs s" using io_rel_fs(5) [OF s1(2)] io_rel_fs(5) [OF sf(3)] dl by simp
      moreover have "dir_map s1 ino = (if good then (dir_map s ino)(name \<mapsto> sector) else dir_map s ino)"
      proof (cases good)
        case True
        then have j: "j < entry_cnt ino" "\<not> e_in_use (entry s ino j)" using good next_free_cases(2) [of s ino] by (simp_all add: j_def)
        have "dir_map s1 ino = (dir_map s ino)(name \<mapsto> e_inode_sector e')"
          by (rule dir_map_added [OF j new _ ne(2,4)]) (simp add: s1(7) ent)
        then show ?thesis using True ne(5) by simp
      next
        case False
        then have "entry s1 ino i = entry s ino i" if "i < entry_cnt ino" for i using s1(7) ent that good j by auto
        then have "find_entry s1 ino = find_entry s ino"
          unfolding find_entry_def by (auto intro!: ext find_cong)
        moreover from this have "dir_map s1 ino y = dir_map s ino y" for y
          using \<open>\<And>i. i < entry_cnt ino \<Longrightarrow> entry s1 ino i = entry s ino i\<close>
          by (auto simp: dir_map_def find_entry_def find_Some_iff option.map_comp intro!: option.map_cong0)
        ultimately show ?thesis using False by auto
      qed
      ultimately show ?thesis using add s1(4) by blast
    qed
  qed
qed

section \<open>Properties\<close>

text \<open>
  C31. A directory is a finite map from names to inode sectors. When memory suffices,
  \<^verbatim>\<open>dir_add\<close> succeeds exactly for a valid name that is not in the map while an entry is
  free, then adds the name and changes nothing else, and otherwise leaves the map unchanged;
  \<^verbatim>\<open>lookup\<close> afterwards finds exactly the names of the map with their sectors.
\<close>

theorem dir_add_refines_map:
  assumes "dirs s d = Some dl" "dir_on n (d_inode dl) ino s" "deny_write_cnt ino = 0"
    and "0 \<notin> set name" "length junk = 20" "sector < 2 ^ 32" "plenty (3 * entry_cnt ino + 4) s" "0 \<notin> set x"
  shows "\<exists>r s1 y s2. dir_add junk d name sector s = Some (r, s1) \<and>
    (r \<longleftrightarrow> name \<noteq> [] \<and> length name \<le> NAME_MAX \<and> dir_map s ino name = None \<and> (\<exists>i < entry_cnt ino. \<not> e_in_use (entry s ino i))) \<and>
    dir_map s1 ino = (if r then (dir_map s ino)(name \<mapsto> sector) else dir_map s ino) \<and>
    lookup d x s1 = Some (y, s2) \<and> map_option (\<lambda>(e, _). e_inode_sector e) y = dir_map s1 ino x"
proof -
  define good where "good \<longleftrightarrow> name \<noteq> [] \<and> length name \<le> NAME_MAX \<and> dir_map s ino name = None \<and>
    (\<exists>i < entry_cnt ino. \<not> e_in_use (entry s ino i))"
  from dir_add_map [OF assms(1-7) good_def] obtain s1 where
    s1: "dir_add junk d name sector s = Some (good, s1)" "dir_on n (d_inode dl) ino s1" "dirs s1 = dirs s" "plenty (entry_cnt ino + 1) s1"
    "dir_map s1 ino = (if good then (dir_map s ino)(name \<mapsto> sector) else dir_map s ino)" by blast
  obtain s2 where "lookup_loop (d_inode dl) x 0 s1 = Some (map_option (\<lambda>j. (entry s1 ino j, 20 * int j)) (find_entry s1 ino x 0), s2)"
    using lookup_loop_finds [OF s1(2) assms(8), of 0 0] s1(4) by auto
  then have "lookup d x s1 = Some (map_option (\<lambda>j. (entry s1 ino j, 20 * int j)) (find_entry s1 ino x 0), s2)"
    using assms(1) s1(3) by (simp add: lookup_def)
  then show ?thesis using s1(1,5) unfolding good_def by (auto simp: dir_map_def option.map_comp comp_def)
qed

text \<open>An empty root directory of two entries on the example disk.\<close>

definition ex_dir_inode :: inode where
  "ex_dir_inode = \<lparr>i_sector = 1, open_cnt = 1, removed = False, deny_write_cnt = 0,
     i_data = \<lparr>id_start = 3, id_length = 40, id_magic = INODE_MAGIC\<rparr>\<rparr>"

definition ex_dir_fs :: "ptr list \<Rightarrow> fs_state" where
  "ex_dir_fs ms = ex_fs\<lparr>inodes := [30 \<mapsto> ex_dir_inode], dirs := [40 \<mapsto> \<lparr>d_inode = 30, d_pos = 0\<rparr>], malloc_results := ms\<rparr>"

lemma ex_dir_fs_sel:
  "fs_device (ex_dir_fs ms) = 12" "inodes (ex_dir_fs ms) 30 = Some ex_dir_inode" "malloc_results (ex_dir_fs ms) = ms"
  "dirs (ex_dir_fs ms) 40 = Some \<lparr>d_inode = 30, d_pos = 0\<rparr>" "dev_sector (ex_dir_fs ms) 12 i = replicate 512 0"
  by (simp_all add: ex_dir_fs_def ex_fs_def dev_sector_def bcore_def)

lemma ex_dir_len: "inode_len ex_dir_inode = 40" "entry_cnt ex_dir_inode = 2" "deny_write_cnt ex_dir_inode = 0"
  by (simp_all add: inode_len_def ex_dir_inode_def entry_cnt_def)

lemma ex_dir_entry: "i < 2 \<Longrightarrow> \<not> e_in_use (entry (ex_dir_fs ms) ex_dir_inode i)"
proof -
  have "contents (ex_dir_fs ms) ex_dir_inode = replicate 40 0"
    by (simp add: contents_def byte_at_def ex_dir_fs_sel ex_dir_len list_eq_iff_nth_eq)
  then show "i < 2 \<Longrightarrow> \<not> e_in_use (entry (ex_dir_fs ms) ex_dir_inode i)" by (simp add: e_in_use_def entry_def)
qed

lemma ex_dir_on:
  assumes "set ms \<inter> {5, 12} = {}"
  shows "dir_on 6 30 ex_dir_inode (ex_dir_fs ms)"
proof -
  have "dev_ok 12 6 (ex_dir_fs ms)"
    using assms by (auto simp: dev_ok_def ex_dir_fs_sel)
      (auto simp: blocks_ok_def bview_def bcore_def ex_dir_fs_def ex_fs_def split: if_splits)
  moreover have "inode_ok ex_dir_inode 6" by (simp add: inode_ok_def inode_len_def ex_dir_inode_def)
  moreover have "entries_ok (ex_dir_fs ms) ex_dir_inode" using ex_dir_entry by (simp add: entries_ok_def ex_dir_len)
  ultimately show ?thesis by (simp add: dir_on_def ex_dir_fs_sel)
qed

theorem dir_add_refines_map_witness:
  "\<exists>s1 y s2. dir_add (replicate 20 7) 40 [97, 98] 2 (ex_dir_fs [50..<60]) = Some (True, s1) \<and> dir_map s1 ex_dir_inode [97, 98] = Some 2 \<and>
    lookup 40 [97, 98] s1 = Some (y, s2) \<and> map_option (\<lambda>(e, _). e_inode_sector e) y = Some 2"
proof -
  define s where "s = ex_dir_fs [50..<60]"
  note sel = ex_dir_fs_sel [of "[50..<60]", folded s_def] and entry = ex_dir_entry [of _ "[50..<60]", folded s_def]
  have free: "\<exists>i < entry_cnt ex_dir_inode. \<not> e_in_use (entry s ex_dir_inode i)" using entry [of 0] ex_dir_len(2) by (intro exI [of _ 0]) simp
  have none: "dir_map s ex_dir_inode [97, 98] = None"
    using entry by (auto simp: dir_map_def find_entry_def find_None_iff matches_def ex_dir_len)
  have on: "dir_on 6 (d_inode \<lparr>d_inode = 30, d_pos = 0\<rparr>) ex_dir_inode s" using ex_dir_on [of "[50..<60]"] by (simp add: s_def)
  have pl: "plenty (3 * entry_cnt ex_dir_inode + 4) s" by (simp add: plenty_def sel(3) ex_dir_len)
  have good: "([97, 98 :: byte] \<noteq> [] \<and> length [97, 98 :: byte] \<le> NAME_MAX \<and> dir_map s ex_dir_inode [97, 98] = None \<and>
    (\<exists>i < entry_cnt ex_dir_inode. \<not> e_in_use (entry s ex_dir_inode i))) = True"
    using free none by (simp add: NAME_MAX_def)
  have "\<exists>r s1 y s2. dir_add (replicate 20 7) 40 [97, 98] 2 s = Some (r, s1) \<and> (r \<longleftrightarrow> True) \<and>
    dir_map s1 ex_dir_inode = (if r then (dir_map s ex_dir_inode)([97, 98] \<mapsto> 2) else dir_map s ex_dir_inode) \<and>
    lookup 40 [97, 98] s1 = Some (y, s2) \<and> map_option (\<lambda>(e, _). e_inode_sector e) y = dir_map s1 ex_dir_inode [97, 98]"
    by (rule dir_add_refines_map [OF sel(4) on ex_dir_len(3) _ _ _ pl, of "[97, 98]" "replicate 20 7" 2 "[97, 98]", unfolded good]) simp_all
  then obtain s1 y s2 where r: "dir_add (replicate 20 7) 40 [97, 98] 2 s = Some (True, s1)"
      "dir_map s1 ex_dir_inode = (dir_map s ex_dir_inode)([97, 98] \<mapsto> 2)" "lookup 40 [97, 98] s1 = Some (y, s2)"
      "map_option (\<lambda>(e, _). e_inode_sector e) y = dir_map s1 ex_dir_inode [97, 98]" by auto
  have "dir_map s1 ex_dir_inode [97, 98] = Some 2" unfolding r(2) by simp
  then show ?thesis using r(1,3,4) unfolding s_def [symmetric] by (intro exI [of _ s1] exI [of _ y] exI [of _ s2]) (simp only: simp_thms)
qed

text \<open>
  C33. A short read is not only the end of the file, as the comment in \<^verbatim>\<open>dir_add\<close> says:
  when the buffers for searching cannot be allocated but the one for writing can,
  \<^verbatim>\<open>dir_add\<close> reports success and overwrites the first entry of the directory, whatever
  file it belongs to.
\<close>

theorem dir_add_low_memory_overwrites:
  assumes "dirs s d = Some dl" "dir_on n (d_inode dl) ino s" "deny_write_cnt ino = 0" "0 < entry_cnt ino"
    and "0 \<notin> set name" "name \<noteq> []" "length name \<le> NAME_MAX" "length junk = 20" "sector < 2 ^ 32"
    and "malloc_results s = NULL # NULL # q # ms" "q \<noteq> NULL" "NULL \<notin> set ms"
  shows "\<exists>s'. dir_add junk d name sector s = Some (True, s') \<and> entry_string (entry s' ino 0) = name \<and>
    e_inode_sector (entry s' ino 0) = sector \<and> (\<forall>i. 0 < i \<and> i < entry_cnt ino \<longrightarrow> entry s' ino i = entry s ino i)"
proof -
  have ok: "inodes s (d_inode dl) = Some ino" "inode_ok ino n" using assms(2) by (simp_all add: dir_on_def)
  define s1 where "s1 = s\<lparr>malloc_results := NULL # q # ms\<rparr>"
  define s2 where "s2 = s\<lparr>malloc_results := q # ms\<rparr>"
  have len: "20 \<le> inode_len ino" using assms(4) by (simp add: entry_cnt_def)
  have ch: "chunk_size ino 20 0 = 20" "sector_ofs 0 = 0"
    using chunk_piece(2) [OF ok(2), of 20 0] sector_ofs_nat [of 0] len by (simp_all add: piece_def)
  have rd: "inode_read_at (d_inode dl) DIR_ENTRY_SIZE 0 s = Some (0, [], s1)" "inode_read_at (d_inode dl) DIR_ENTRY_SIZE 0 s1 = Some (0, [], s2)"
    using ok(1) assms(10) ch
    by (simp_all add: inode_read_at_def inode_read_loop.simps [of "d_inode dl" 20] DIR_ENTRY_SIZE_def s1_def s2_def blk_malloc_def)
  have lk: "lookup d name s = Some (None, s1)"
    using assms(1) rd(1) by (simp add: lookup_def lookup_loop.simps [of "d_inode dl"] DIR_ENTRY_SIZE_def)
  have fs: "free_slot (d_inode dl) 0 junk s1 = Some (0, junk, s2)"
    using rd(2) by (simp add: free_slot.simps [of "d_inode dl"] DIR_ENTRY_SIZE_def put_at_def)
  have io: "io_rel s s2" using assms(10) by (simp add: io_rel_def s2_def suffix_def)
  have "media s2 = media s" by (simp add: s2_def)
  note on2 = dir_on_io [OF assms(2) io this]
  have len14: "length name \<le> 14" using assms(7) by (simp add: NAME_MAX_def)
  note ne = new_entry [OF assms(8) len14 assms(5,9)]
  obtain m s' where s': "inode_write_at (d_inode dl) (new_entry name sector junk) DIR_ENTRY_SIZE (20 * int 0) s2 = Some (m, s')"
    "0 < entry_cnt ino \<Longrightarrow> m = 20"
    "\<And>i. i < entry_cnt ino \<Longrightarrow> entry s' ino i = (if i = 0 then new_entry name sector junk else entry s2 ino i)"
    by (rule write_entry [OF on2(1), of 0 0 "new_entry name sector junk"])
      (use assms(3,11,12) ne(1) that in \<open>auto simp: plenty_def s2_def\<close>)
  have "dir_add junk d name sector s = Some (True, s')"
    using assms(1,4,6,7) lk fs s'(1,2) by (simp add: dir_add_def new_entry_def DIR_ENTRY_SIZE_def)
  moreover have "entry s' ino 0 = new_entry name sector junk" using s'(3) assms(4) by simp
  moreover have "\<forall>i. 0 < i \<and> i < entry_cnt ino \<longrightarrow> entry s' ino i = entry s ino i" using s'(3) on2(2) by simp
  ultimately show ?thesis using ne(4,5) by auto
qed

theorem dir_add_low_memory_overwrites_witness:
  "\<exists>s'. dir_add (replicate 20 7) 40 [97] 2 (ex_dir_fs [NULL, NULL, 50]) = Some (True, s')"
proof -
  have on: "dir_on 6 (d_inode \<lparr>d_inode = 30, d_pos = 0\<rparr>) ex_dir_inode (ex_dir_fs [NULL, NULL, 50])" using ex_dir_on by simp
  show ?thesis
    using dir_add_low_memory_overwrites [OF ex_dir_fs_sel(4) on ex_dir_len(3), where name = "[97]" and junk = "replicate 20 7"
        and sector = 2 and q = 50 and ms = "[]"]
    by (auto simp: ex_dir_fs_sel ex_dir_len NAME_MAX_def)
qed

end
