(* ===== verification/Vm.thy ===== *)
theory Vm
  imports Pagedir Kernel_Hash Directory
begin

text \<open>
  Virtual memory: the frame table of \<^verbatim>\<open>vm/frame.c\<close>, the swap area of
  \<^verbatim>\<open>vm/swap.c\<close> and the supplemental page tables of \<^verbatim>\<open>vm/page.c\<close>. The
  kernel's structures are typed heaps; frames and pages of memory live in the machine memory of the
  page directory model, and files and the swap device in a file system state. Allocation takes the
  next result of \<^verbatim>\<open>malloc\<close>; a freshly allocated page structure has the contents that
  \<^term>\<open>raw\<close> memory has there. Each operation is a run of the current thread: a lock that is not
  free when it is acquired stops the run.
\<close>

section \<open>Data\<close>

record frame =
  fr_kva :: addr
  fr_page :: ptr
  fr_owner :: ptr
  fr_pinned :: bool

datatype vm_type = VM_ANON | VM_FILE | VM_STACK

datatype page_status = ALL_ZERO | ON_FRAME | ON_SWAP | FROM_FILESYS

text \<open>An initializer: none, the one the code installs, or what uninitialised memory holds.\<close>

datatype vm_initializer = No_initializer | Lazy_load_segment | Wild_initializer

record file_page =
  fp_file :: ptr
  fp_ofs :: int
  fp_read_bytes :: nat
  fp_zero_bytes :: nat

record suppPage =
  sp_va :: addr
  sp_type :: vm_type
  sp_writable :: bool
  sp_frame :: ptr
  sp_in_swap :: bool
  sp_swap_slot :: nat
  sp_file :: ptr
  sp_ofs :: int
  sp_read_bytes :: nat
  sp_zero_bytes :: nat
  sp_pinned :: bool
  sp_initializer :: vm_initializer
  sp_aux :: ptr

record supplemental_page_table_entry =
  te_upage :: addr
  te_kpage :: addr
  te_status :: page_status
  te_dirty :: bool
  te_swap_index :: nat
  te_file :: ptr
  te_file_offset :: int
  te_read_bytes :: nat
  te_zero_bytes :: nat
  te_writable :: bool

record vm_thread =
  vt_pagedir :: addr
  vt_spt :: ptr
  vt_esp :: addr

text \<open>An element of a supplemental page table: the page structure and the address it is stored under.\<close>

type_synonym spt_elem = "ptr \<times> addr"

record vm_state = pd_state +
  vm_fs :: fs_state
  frames :: "ptr \<Rightarrow> frame option"
  frame_table :: "ptr list"
  clock_hand :: ptr
  frame_lock :: ptr
  swap_lock :: ptr
  swap_block :: ptr
  swap_available :: "bitmap option"
  swap_size :: nat
  swap_memory_map :: "ptr list"
  using_memory_swap :: bool
  swap_memory :: "ptr \<Rightarrow> byte list option"
  supp_pages :: "ptr \<Rightarrow> suppPage option"
  raw_page :: "ptr \<Rightarrow> suppPage"
  file_pages :: "ptr \<Rightarrow> file_page option"
  spts :: "ptr \<Rightarrow> spt_elem hash option"
  vm_threads :: "ptr \<Rightarrow> vm_thread option"
  current_thread :: ptr
  intr_on :: bool

definition vm_malloc :: "'a vm_state_scheme \<Rightarrow> ptr \<times> 'a vm_state_scheme" where
  "vm_malloc s = (let (p, fs) = blk_malloc (vm_fs s) in (p, s\<lparr>vm_fs := fs\<rparr>))"

text \<open>The bytes of a range of memory, and storing bytes.\<close>

definition mem_bytes :: "memory \<Rightarrow> addr \<Rightarrow> nat \<Rightarrow> byte list" where
  "mem_bytes m a n = map (\<lambda>i. m (a + of_nat i)) [0..<n]"

definition mem_write :: "memory \<Rightarrow> addr \<Rightarrow> byte list \<Rightarrow> memory" where
  "mem_write m a bs = (\<lambda>x. if unat (x - a) < length bs then bs ! unat (x - a) else m x)"

definition upd_page :: "ptr \<Rightarrow> (suppPage \<Rightarrow> suppPage) \<Rightarrow> 'a vm_state_scheme \<Rightarrow> 'a vm_state_scheme" where
  "upd_page p f s = s\<lparr>supp_pages := (supp_pages s)(p := map_option f (supp_pages s p))\<rparr>"

definition upd_frame :: "ptr \<Rightarrow> (frame \<Rightarrow> frame) \<Rightarrow> 'a vm_state_scheme \<Rightarrow> 'a vm_state_scheme" where
  "upd_frame p f s = s\<lparr>frames := (frames s)(p := map_option f (frames s p))\<rparr>"

definition frame_lock_acquire :: "'a vm_state_scheme \<Rightarrow> 'a vm_state_scheme option" where
  "frame_lock_acquire s = do { kassert (frame_lock s = NULL); Some (s\<lparr>frame_lock := current_thread s\<rparr>) }"

definition frame_lock_release :: "'a vm_state_scheme \<Rightarrow> 'a vm_state_scheme option" where
  "frame_lock_release s = do { kassert (frame_lock s = current_thread s); Some (s\<lparr>frame_lock := NULL\<rparr>) }"

definition swap_lock_acquire :: "'a vm_state_scheme \<Rightarrow> 'a vm_state_scheme option" where
  "swap_lock_acquire s = do { kassert (swap_lock s = NULL); Some (s\<lparr>swap_lock := current_thread s\<rparr>) }"

definition swap_lock_release :: "'a vm_state_scheme \<Rightarrow> 'a vm_state_scheme option" where
  "swap_lock_release s = do { kassert (swap_lock s = current_thread s); Some (s\<lparr>swap_lock := NULL\<rparr>) }"

section \<open>Pinning frames\<close>

text \<open>The loop over the frame table that stops at the frame with an address.\<close>

fun find_frame :: "addr \<Rightarrow> ptr list \<Rightarrow> 'a vm_state_scheme \<Rightarrow> ptr option" where
  "find_frame kva [] s = Some NULL"
| "find_frame kva (p # ps) s = do {
     fr \<leftarrow> frames s p;
     if fr_kva fr = kva then Some p else find_frame kva ps s
   }"

definition vm_frame_pin :: "addr \<Rightarrow> 'a vm_state_scheme \<Rightarrow> 'a vm_state_scheme option" where
  "vm_frame_pin kva s =
    (if kva = 0 then Some s
     else do {
       let already_holding_lock = (frame_lock s = current_thread s);
       s \<leftarrow> (if already_holding_lock then Some s else frame_lock_acquire s);
       p \<leftarrow> find_frame kva (frame_table s) s;
       let s = (if p \<noteq> NULL then upd_frame p (fr_pinned_update (\<lambda>_. True)) s else s);
       if already_holding_lock then Some s else frame_lock_release s
     })"

definition vm_frame_unpin :: "addr \<Rightarrow> 'a vm_state_scheme \<Rightarrow> 'a vm_state_scheme option" where
  "vm_frame_unpin kva s =
    (if kva = 0 then Some s
     else do {
       let already_holding_lock = (frame_lock s = current_thread s);
       s \<leftarrow> (if already_holding_lock then Some s else frame_lock_acquire s);
       p \<leftarrow> find_frame kva (frame_table s) s;
       let s = (if p \<noteq> NULL then upd_frame p (fr_pinned_update (\<lambda>_. False)) s else s);
       if already_holding_lock then Some s else frame_lock_release s
     })"

section \<open>Swap\<close>

definition SECTORS_PER_PAGE :: nat where
  "SECTORS_PER_PAGE = PGSIZE div BLOCK_SECTOR_SIZE"

definition DEFAULT_SWAP_SIZE :: nat where
  "DEFAULT_SWAP_SIZE = 1024"

text \<open>\<open>raw\<close> is the contents of the memory that the bit array is allocated in.\<close>

definition swap_bitmap_init :: "elem_type list \<Rightarrow> 'a vm_state_scheme \<Rightarrow> 'a vm_state_scheme option" where
  "swap_bitmap_init raw s = do {
     let (q, s) = vm_malloc s;
     let (a, s) = (if q \<noteq> NULL then vm_malloc s else (NULL, s));
     bm \<leftarrow> bitmap_create (q \<noteq> NULL) (if a \<noteq> NULL then Some raw else None) (swap_size s);
     bm \<leftarrow> bm;
     bm \<leftarrow> bitmap_set_all bm True;
     Some (s\<lparr>swap_available := Some bm, swap_lock := NULL\<rparr>)
   }"

definition vm_swap_init :: "elem_type list \<Rightarrow> 'a vm_state_scheme \<Rightarrow> 'a vm_state_scheme option" where
  "vm_swap_init raw s = do {
     b \<leftarrow> block_get_role BLOCK_SWAP (vm_fs s);
     let s = s\<lparr>swap_block := b\<rparr>;
     s \<leftarrow> (if b = NULL then do {
         let (m, s) = vm_malloc s;
         kassert (m \<noteq> NULL);
         Some (s\<lparr>using_memory_swap := True, swap_memory_map := replicate DEFAULT_SWAP_SIZE NULL,
           swap_size := DEFAULT_SWAP_SIZE\<rparr>)
       }
       else do {
         n \<leftarrow> block_size b (vm_fs s);
         Some (s\<lparr>using_memory_swap := False, swap_size := n div SECTORS_PER_PAGE\<rparr>)
       });
     swap_bitmap_init raw s
   }"

fun swap_write_sectors :: "nat \<Rightarrow> nat \<Rightarrow> addr \<Rightarrow> nat \<Rightarrow> 'a vm_state_scheme \<Rightarrow> 'a vm_state_scheme option" where
  "swap_write_sectors slot i kva 0 s = Some s"
| "swap_write_sectors slot i kva (Suc n) s = do {
     fs \<leftarrow> block_write (swap_block s) (size_add (size_mul slot SECTORS_PER_PAGE) i)
       (mem_bytes (mem s) (kva + of_nat (i * BLOCK_SECTOR_SIZE)) BLOCK_SECTOR_SIZE) (vm_fs s);
     swap_write_sectors slot (i + 1) kva n (s\<lparr>vm_fs := fs\<rparr>)
   }"

fun swap_read_sectors :: "nat \<Rightarrow> nat \<Rightarrow> addr \<Rightarrow> nat \<Rightarrow> 'a vm_state_scheme \<Rightarrow> 'a vm_state_scheme option" where
  "swap_read_sectors slot i kva 0 s = Some s"
| "swap_read_sectors slot i kva (Suc n) s = do {
     (bs, fs) \<leftarrow> block_read (swap_block s) (size_add (size_mul slot SECTORS_PER_PAGE) i) (vm_fs s);
     swap_read_sectors slot (i + 1) kva n
       (s\<lparr>vm_fs := fs, mem := mem_write (mem s) (kva + of_nat (i * BLOCK_SECTOR_SIZE)) bs\<rparr>)
   }"

definition swap_out :: "ptr \<Rightarrow> 'a vm_state_scheme \<Rightarrow> (bool \<times> 'a vm_state_scheme) option" where
  "swap_out p s =
    (if p = NULL then Some (False, s)
     else do {
       pg \<leftarrow> supp_pages s p;
       if sp_frame pg = NULL then Some (False, s)
       else do {
         s \<leftarrow> swap_lock_acquire s;
         bm \<leftarrow> swap_available s;
         (slot, bm) \<leftarrow> bitmap_scan_and_flip bm 0 1 False;
         s \<leftarrow> swap_lock_release (s\<lparr>swap_available := Some bm\<rparr>);
         if slot = BITMAP_ERROR then Some (False, s)
         else do {
           fr \<leftarrow> frames s (sp_frame pg);
           let kva = fr_kva fr;
           s \<leftarrow> vm_frame_pin kva s;
           let old_level = intr_on s;
           let s = s\<lparr>intr_on := True\<rparr>;
           (ok, s) \<leftarrow> (if using_memory_swap s then do {
               let (q, s) = vm_malloc s;
               kassert (slot < length (swap_memory_map s));
               let s = s\<lparr>swap_memory_map := (swap_memory_map s)[slot := q]\<rparr>;
               if q = NULL then do {
                 s \<leftarrow> vm_frame_unpin kva (s\<lparr>intr_on := old_level\<rparr>);
                 s \<leftarrow> swap_lock_acquire s;
                 bm \<leftarrow> swap_available s;
                 bm \<leftarrow> bitmap_reset bm slot;
                 s \<leftarrow> swap_lock_release (s\<lparr>swap_available := Some bm\<rparr>);
                 Some (False, s)
               }
               else Some (True, s\<lparr>swap_memory := (swap_memory s)(q \<mapsto> mem_bytes (mem s) kva PGSIZE)\<rparr>)
             }
             else do { s \<leftarrow> swap_write_sectors slot 0 kva SECTORS_PER_PAGE s; Some (True, s) });
           if \<not> ok then Some (False, s)
           else do {
             s \<leftarrow> vm_frame_unpin kva (s\<lparr>intr_on := old_level\<rparr>);
             Some (True, upd_page p (\<lambda>pg. pg\<lparr>sp_in_swap := True, sp_swap_slot := slot\<rparr>) s)
           }
         }
       }
     })"

definition swap_in :: "ptr \<Rightarrow> addr \<Rightarrow> 'a vm_state_scheme \<Rightarrow> (bool \<times> 'a vm_state_scheme) option" where
  "swap_in p kva s = do {
     pg \<leftarrow> supp_pages s p;
     if \<not> sp_in_swap pg then Some (False, s)
     else if sp_swap_slot pg \<ge> swap_size s then Some (False, s)
     else do {
       let slot = sp_swap_slot pg;
       s \<leftarrow> vm_frame_pin kva s;
       let old_level = intr_on s;
       let s = s\<lparr>intr_on := True\<rparr>;
       (ok, s) \<leftarrow> (if using_memory_swap s then do {
           kassert (slot < length (swap_memory_map s));
           let q = swap_memory_map s ! slot;
           if q = NULL then do { s \<leftarrow> vm_frame_unpin kva (s\<lparr>intr_on := old_level\<rparr>); Some (False, s) }
           else do {
             bs \<leftarrow> swap_memory s q;
             Some (True, s\<lparr>mem := mem_write (mem s) kva bs, swap_memory := (swap_memory s)(q := None),
               swap_memory_map := (swap_memory_map s)[slot := NULL]\<rparr>)
           }
         }
         else do { s \<leftarrow> swap_read_sectors slot 0 kva SECTORS_PER_PAGE s; Some (True, s) });
       if \<not> ok then Some (False, s)
       else do {
         s \<leftarrow> vm_frame_unpin kva (s\<lparr>intr_on := old_level\<rparr>);
         s \<leftarrow> swap_lock_acquire s;
         bm \<leftarrow> swap_available s;
         bm \<leftarrow> bitmap_reset bm slot;
         s \<leftarrow> swap_lock_release (s\<lparr>swap_available := Some bm\<rparr>);
         Some (True, upd_page p (sp_in_swap_update (\<lambda>_. False)) s)
       }
     }
   }"

definition vm_swap_free :: "nat \<Rightarrow> 'a vm_state_scheme \<Rightarrow> 'a vm_state_scheme option" where
  "vm_swap_free swap_index s = do {
     kassert (swap_index < swap_size s);
     s \<leftarrow> swap_lock_acquire s;
     bm \<leftarrow> swap_available s;
     t \<leftarrow> bitmap_test bm swap_index;
     kassert (\<not> t);
     s \<leftarrow> (if using_memory_swap s then do {
         kassert (swap_index < length (swap_memory_map s));
         let q = swap_memory_map s ! swap_index;
         Some (if q \<noteq> NULL then s\<lparr>swap_memory := (swap_memory s)(q := None),
           swap_memory_map := (swap_memory_map s)[swap_index := NULL]\<rparr> else s)
       } else Some s);
     bm \<leftarrow> bitmap_set bm swap_index True;
     swap_lock_release (s\<lparr>swap_available := Some bm\<rparr>)
   }"

section \<open>Frames\<close>

text \<open>\<^verbatim>\<open>list_next\<close> in the frame table, with a null pointer for the end.\<close>

definition frame_next :: "ptr \<Rightarrow> 'a vm_state_scheme \<Rightarrow> ptr option" where
  "frame_next p s = (case dropWhile (\<lambda>q. q \<noteq> p) (frame_table s) of
     [] \<Rightarrow> None | [_] \<Rightarrow> Some NULL | _ # q # _ \<Rightarrow> Some q)"

fun select_victim_loop :: "nat \<Rightarrow> 'a vm_state_scheme \<Rightarrow> (ptr \<times> 'a vm_state_scheme) option" where
  "select_victim_loop 0 s = Some (NULL, s)"
| "select_victim_loop (Suc n) s = do {
     let hand = (if clock_hand s = NULL then hd (frame_table s) else clock_hand s);
     fr \<leftarrow> frames s hand;
     nxt \<leftarrow> frame_next hand s;
     let s = s\<lparr>clock_hand := nxt\<rparr>;
     if fr_pinned fr then select_victim_loop n s
     else do {
       t \<leftarrow> vm_threads s (fr_owner fr);
       pg \<leftarrow> supp_pages s (fr_page fr);
       a \<leftarrow> pagedir_is_accessed (vt_pagedir t) (sp_va pg) s;
       if a then do {
         s \<leftarrow> pagedir_set_accessed (vt_pagedir t) (sp_va pg) False s;
         select_victim_loop n s
       }
       else Some (hand, s)
     }
   }"

definition select_victim :: "'a vm_state_scheme \<Rightarrow> (ptr \<times> 'a vm_state_scheme) option" where
  "select_victim s = do {
     kassert (frame_lock s = current_thread s);
     let table_sz = length (frame_table s);
     if table_sz = 0 then Some (NULL, s) else select_victim_loop (table_sz * 2) s
   }"

definition evict_frame :: "ptr \<Rightarrow> 'a vm_state_scheme \<Rightarrow> (bool \<times> 'a vm_state_scheme) option" where
  "evict_frame victim s = do {
     kassert (frame_lock s = current_thread s);
     fr \<leftarrow> frames s victim;
     kassert (fr_page fr \<noteq> NULL);
     pg \<leftarrow> supp_pages s (fr_page fr);
     t \<leftarrow> vm_threads s (fr_owner fr);
     s \<leftarrow> pagedir_clear_page (vt_pagedir t) (sp_va pg) s;
     s \<leftarrow> frame_lock_release s;
     (ok, s) \<leftarrow> (case sp_type pg of
         VM_FILE \<Rightarrow> do {
           _ \<leftarrow> pagedir_is_dirty (vt_pagedir t) (sp_va pg) s;
           Some (True, upd_page (fr_page fr) (sp_in_swap_update (\<lambda>_. False)) s)
         }
       | _ \<Rightarrow> swap_out (fr_page fr) s);
     s \<leftarrow> frame_lock_acquire s;
     Some (ok, if ok then upd_page (fr_page fr) (sp_frame_update (\<lambda>_. NULL)) s else s)
   }"

definition vm_frame_init :: "'a vm_state_scheme \<Rightarrow> 'a vm_state_scheme" where
  "vm_frame_init s = s\<lparr>frame_table := [], frame_lock := NULL, clock_hand := NULL\<rparr>"

text \<open>The part of \<^verbatim>\<open>vm_frame_allocate\<close> that finds memory for the frame.\<close>

definition frame_memory :: "nat \<Rightarrow> 'a vm_state_scheme \<Rightarrow> (addr \<times> 'a vm_state_scheme) option" where
  "frame_memory flags s = do {
     (kva, s) \<leftarrow> palloc_get_page flags s;
     if kva \<noteq> 0 then Some (kva, s)
     else do {
       (victim, s) \<leftarrow> select_victim s;
       if victim = NULL then Some (0, s)
       else do {
         fr \<leftarrow> frames s victim;
         (ok, s) \<leftarrow> evict_frame victim s;
         if \<not> ok then Some (0, s)
         else Some (fr_kva fr, s\<lparr>frame_table := remove1 victim (frame_table s), frames := (frames s)(victim := None)\<rparr>)
       }
     }
   }"

definition vm_frame_allocate :: "nat \<Rightarrow> 'a vm_state_scheme \<Rightarrow> (ptr \<times> 'a vm_state_scheme) option" where
  "vm_frame_allocate flags s = do {
     kassert (has_flag flags PAL_USER);
     s \<leftarrow> frame_lock_acquire s;
     (kva, s) \<leftarrow> frame_memory flags s;
     if kva = 0 then do { s \<leftarrow> frame_lock_release s; Some (NULL, s) }
     else do {
       let (fr, s) = vm_malloc s;
       if fr = NULL then do {
         s \<leftarrow> frame_lock_release s;
         s \<leftarrow> palloc_free_page kva s;
         Some (NULL, s)
       }
       else do {
         s \<leftarrow> frame_lock_release (s\<lparr>frames := (frames s)(fr \<mapsto> \<lparr>fr_kva = kva, fr_page = NULL,
             fr_owner = current_thread s, fr_pinned = False\<rparr>),
           frame_table := frame_table s @ [fr]\<rparr>);
         Some (fr, s)
       }
     }
   }"

definition vm_frame_free :: "addr \<Rightarrow> 'a vm_state_scheme \<Rightarrow> 'a vm_state_scheme option" where
  "vm_frame_free kva s =
    (if kva = 0 then Some s
     else do {
       s \<leftarrow> frame_lock_acquire s;
       p \<leftarrow> find_frame kva (frame_table s) s;
       let s = s\<lparr>frame_table := remove1 p (frame_table s)\<rparr>;
       s \<leftarrow> frame_lock_release s;
       if p \<noteq> NULL then do {
         s \<leftarrow> palloc_free_page kva s;
         Some (s\<lparr>frames := (frames s)(p := None)\<rparr>)
       }
       else Some s
     })"

definition vm_init :: "elem_type list \<Rightarrow> 'a vm_state_scheme \<Rightarrow> 'a vm_state_scheme option" where
  "vm_init raw s = vm_swap_init raw (vm_frame_init s)"

section \<open>Supplemental page tables\<close>

definition page_hash :: "spt_elem \<Rightarrow> u32" where
  "page_hash e = hash_int (snd e)"

definition page_less :: "spt_elem \<Rightarrow> spt_elem \<Rightarrow> bool" where
  "page_less a b \<longleftrightarrow> snd a < snd b"

text \<open>
  Resizing a table may allocate memory: one result of \<^verbatim>\<open>malloc\<close> is set aside for it.
\<close>

definition supplemental_page_table_init :: "ptr \<Rightarrow> 'a vm_state_scheme \<Rightarrow> 'a vm_state_scheme option" where
  "supplemental_page_table_init spt s = do {
     kassert (spt \<noteq> NULL);
     let (q, s) = vm_malloc s;
     Some (s\<lparr>spts := (spts s)(spt := hash_init (q \<noteq> NULL) page_hash page_less)\<rparr>)
   }"

definition page_destroy :: "spt_elem \<Rightarrow> 'a vm_state_scheme \<Rightarrow> 'a vm_state_scheme option" where
  "page_destroy e s = do {
     pg \<leftarrow> supp_pages s (fst e);
     s \<leftarrow> (if sp_frame pg \<noteq> NULL then vm_frame_free (of_nat (sp_frame pg)) s else Some s);
     Some (s\<lparr>supp_pages := (supp_pages s)(fst e := None)\<rparr>)
   }"

fun page_destroy_all :: "spt_elem list \<Rightarrow> 'a vm_state_scheme \<Rightarrow> 'a vm_state_scheme option" where
  "page_destroy_all [] s = Some s"
| "page_destroy_all (e # es) s = do { s \<leftarrow> page_destroy e s; page_destroy_all es s }"

definition supplemental_page_table_destroy :: "ptr \<Rightarrow> 'a vm_state_scheme \<Rightarrow> 'a vm_state_scheme option" where
  "supplemental_page_table_destroy spt s = do { h \<leftarrow> spts s spt; page_destroy_all (hash_destroy h True) s }"

definition spt_insert_page :: "ptr \<Rightarrow> ptr \<Rightarrow> 'a vm_state_scheme \<Rightarrow> (bool \<times> 'a vm_state_scheme) option" where
  "spt_insert_page spt p s = do {
     h \<leftarrow> spts s spt;
     pg \<leftarrow> supp_pages s p;
     let (q, s) = vm_malloc s;
     (old, h) \<leftarrow> hash_insert (q \<noteq> NULL) h (p, sp_va pg);
     Some (old = None, s\<lparr>spts := (spts s)(spt \<mapsto> h)\<rparr>)
   }"

definition spt_find_page :: "ptr \<Rightarrow> addr \<Rightarrow> 'a vm_state_scheme \<Rightarrow> ptr option" where
  "spt_find_page spt va s = do {
     h \<leftarrow> spts s spt;
     e \<leftarrow> hash_find h (NULL, pg_round_down va);
     Some (case e of None \<Rightarrow> NULL | Some (p, _) \<Rightarrow> p)
   }"

definition spt_remove_page :: "ptr \<Rightarrow> ptr \<Rightarrow> 'a vm_state_scheme \<Rightarrow> 'a vm_state_scheme option" where
  "spt_remove_page spt p s = do {
     h \<leftarrow> spts s spt;
     pg \<leftarrow> supp_pages s p;
     let (q, s) = vm_malloc s;
     (_, h) \<leftarrow> hash_delete (q \<noteq> NULL) h (p, sp_va pg);
     Some (s\<lparr>spts := (spts s)(spt \<mapsto> h), supp_pages := (supp_pages s)(p := None)\<rparr>)
   }"

text \<open>
  The common part of the two allocation functions: \<open>f\<close> sets the fields of the fresh structure.
\<close>

definition alloc_page_with :: "(suppPage \<Rightarrow> suppPage) \<Rightarrow> addr \<Rightarrow> 'a vm_state_scheme \<Rightarrow> (bool \<times> 'a vm_state_scheme) option" where
  "alloc_page_with f upage s = do {
     t \<leftarrow> vm_threads s (current_thread s);
     found \<leftarrow> spt_find_page (vt_spt t) upage s;
     if found \<noteq> NULL then Some (False, s)
     else do {
       let (p, s) = vm_malloc s;
       if p = NULL then Some (False, s)
       else do {
         let s = s\<lparr>supp_pages := (supp_pages s)(p \<mapsto> f ((raw_page s p)\<lparr>sp_va := upage, sp_frame := NULL,
           sp_pinned := False, sp_in_swap := False, sp_swap_slot := 2 ^ 32 - 1\<rparr>))\<rparr>;
         (success, s) \<leftarrow> spt_insert_page (vt_spt t) p s;
         Some (success, if success then s else s\<lparr>supp_pages := (supp_pages s)(p := None)\<rparr>)
       }
     }
   }"

definition vm_alloc_page :: "vm_type \<Rightarrow> addr \<Rightarrow> bool \<Rightarrow> 'a vm_state_scheme \<Rightarrow> (bool \<times> 'a vm_state_scheme) option" where
  "vm_alloc_page type upage writable s =
     alloc_page_with (\<lambda>pg. pg\<lparr>sp_writable := writable, sp_type := type\<rparr>) (pg_round_down upage) s"

definition vm_alloc_page_with_initializer ::
  "vm_type \<Rightarrow> addr \<Rightarrow> bool \<Rightarrow> vm_initializer \<Rightarrow> ptr \<Rightarrow> 'a vm_state_scheme \<Rightarrow> (bool \<times> 'a vm_state_scheme) option" where
  "vm_alloc_page_with_initializer type upage writable init aux s =
     alloc_page_with (\<lambda>pg. pg\<lparr>sp_writable := writable, sp_type := type, sp_initializer := init, sp_aux := aux,
       sp_file := NULL, sp_ofs := 0, sp_read_bytes := 0, sp_zero_bytes := 0\<rparr>) (pg_round_down upage) s"

text \<open>Filling a page of memory from a file; the number of bytes is compared as a signed integer.\<close>

definition load_from_file ::
  "ptr \<Rightarrow> int \<Rightarrow> nat \<Rightarrow> nat \<Rightarrow> addr \<Rightarrow> 'a vm_state_scheme \<Rightarrow> (bool \<times> 'a vm_state_scheme) option" where
  "load_from_file f ofs read_bytes zero_bytes kva s = do {
     (n, out, fs) \<leftarrow> file_read_at f (int32 (int read_bytes)) ofs (vm_fs s);
     let s = s\<lparr>vm_fs := fs, mem := mem_write (mem s) kva out\<rparr>;
     if n \<noteq> int32 (int read_bytes) then Some (False, s)
     else Some (True, s\<lparr>mem := mem_fill (mem s) (kva + of_nat read_bytes) 0 zero_bytes\<rparr>)
   }"

definition lazy_load_segment :: "ptr \<Rightarrow> ptr \<Rightarrow> 'a vm_state_scheme \<Rightarrow> (bool \<times> 'a vm_state_scheme) option" where
  "lazy_load_segment p aux s = do {
     fp \<leftarrow> file_pages s aux;
     pg \<leftarrow> supp_pages s p;
     if sp_frame pg = NULL then Some (False, s)
     else do {
       fr \<leftarrow> frames s (sp_frame pg);
       if fr_kva fr = 0 then Some (False, s)
       else do {
         (ok, s) \<leftarrow> load_from_file (fp_file fp) (fp_ofs fp) (fp_read_bytes fp) (fp_zero_bytes fp) (fr_kva fr) s;
         Some (ok, s\<lparr>file_pages := (file_pages s)(aux := None)\<rparr>)
       }
     }
   }"

text \<open>The steps that undo a claim.\<close>

definition claim_undo :: "ptr \<Rightarrow> addr \<Rightarrow> 'a vm_state_scheme \<Rightarrow> (bool \<times> 'a vm_state_scheme) option" where
  "claim_undo p kva s = do {
     s \<leftarrow> vm_frame_unpin kva s;
     s \<leftarrow> vm_frame_free kva (upd_page p (sp_pinned_update (\<lambda>_. False)) s);
     Some (False, upd_page p (sp_frame_update (\<lambda>_. NULL)) s)
   }"

text \<open>The part of \<^verbatim>\<open>vm_do_claim_page\<close> that loads the contents.\<close>

definition claim_load :: "ptr \<Rightarrow> addr \<Rightarrow> 'a vm_state_scheme \<Rightarrow> (bool \<times> 'a vm_state_scheme) option" where
  "claim_load p kva s = do {
     pg \<leftarrow> supp_pages s p;
     let old_level = intr_on s;
     let s = s\<lparr>intr_on := True\<rparr>;
     (ok, s) \<leftarrow> (case sp_initializer pg of
         Lazy_load_segment \<Rightarrow> do {
           (ok, s) \<leftarrow> lazy_load_segment p (sp_aux pg) s;
           Some (ok, if ok then upd_page p (\<lambda>pg. pg\<lparr>sp_initializer := No_initializer, sp_aux := NULL\<rparr>) s else s)
         }
       | Wild_initializer \<Rightarrow> None
       | No_initializer \<Rightarrow>
           (case sp_type pg of
              VM_FILE \<Rightarrow> load_from_file (sp_file pg) (sp_ofs pg) (sp_read_bytes pg) (sp_zero_bytes pg) kva s
            | _ \<Rightarrow> if sp_in_swap pg then swap_in p kva s else Some (True, s)));
     Some (ok, s\<lparr>intr_on := old_level\<rparr>)
   }"

definition vm_do_claim_page :: "ptr \<Rightarrow> 'a vm_state_scheme \<Rightarrow> (bool \<times> 'a vm_state_scheme) option" where
  "vm_do_claim_page p s =
    (if p = NULL then Some (False, s)
     else do {
       pg \<leftarrow> supp_pages s p;
       if sp_pinned pg then Some (False, s)
       else do {
         (f, s) \<leftarrow> vm_frame_allocate (PAL_USER OR PAL_ZERO) s;
         if f = NULL then Some (False, s)
         else do {
           fr \<leftarrow> frames s f;
           let kva = fr_kva fr;
           let s = upd_frame f (\<lambda>fr. fr\<lparr>fr_page := p, fr_owner := current_thread s\<rparr>) (upd_page p (sp_frame_update (\<lambda>_. f)) s);
           s \<leftarrow> vm_frame_pin kva s;
           (ok, s) \<leftarrow> claim_load p kva (upd_page p (sp_pinned_update (\<lambda>_. True)) s);
           if \<not> ok then claim_undo p kva s
           else do {
             t \<leftarrow> vm_threads s (current_thread s);
             (set, s) \<leftarrow> pagedir_set_page (vt_pagedir t) (sp_va pg) kva (sp_writable pg) s;
             if \<not> set then claim_undo p kva s
             else do {
               s \<leftarrow> (if sp_type pg = VM_FILE then pagedir_set_dirty (vt_pagedir t) (sp_va pg) False s else Some s);
               s \<leftarrow> vm_frame_unpin kva s;
               Some (True, upd_page p (sp_pinned_update (\<lambda>_. False)) s)
             }
           }
         }
       }
     })"

section \<open>Pinning pages and the table interface\<close>

definition vm_pin_page :: "ptr \<Rightarrow> addr \<Rightarrow> 'a vm_state_scheme \<Rightarrow> 'a vm_state_scheme option" where
  "vm_pin_page spt page s =
    (if spt = NULL \<or> page = 0 then Some s
     else do {
       p \<leftarrow> spt_find_page spt page s;
       if p = NULL then Some s
       else do {
         pg \<leftarrow> supp_pages s p;
         let s = upd_page p (sp_pinned_update (\<lambda>_. True)) s;
         kva \<leftarrow> (if sp_frame pg \<noteq> NULL then map_option fr_kva (frames s (sp_frame pg)) else Some 0);
         if sp_frame pg \<noteq> NULL \<and> kva \<noteq> 0 then vm_frame_pin kva s
         else if \<not> sp_in_swap pg then do { (_, s) \<leftarrow> vm_do_claim_page p s; Some s }
         else Some s
       }
     })"

definition vm_unpin_page :: "ptr \<Rightarrow> addr \<Rightarrow> 'a vm_state_scheme \<Rightarrow> 'a vm_state_scheme option" where
  "vm_unpin_page spt page s =
    (if spt = NULL \<or> page = 0 then Some s
     else do {
       p \<leftarrow> spt_find_page spt page s;
       if p = NULL then Some s
       else do {
         pg \<leftarrow> supp_pages s p;
         let s = upd_page p (sp_pinned_update (\<lambda>_. False)) s;
         kva \<leftarrow> (if sp_frame pg \<noteq> NULL then map_option fr_kva (frames s (sp_frame pg)) else Some 0);
         if sp_frame pg \<noteq> NULL \<and> kva \<noteq> 0 then vm_frame_unpin kva s else Some s
       }
     })"

text \<open>One turn of the loop of \<^verbatim>\<open>vm_pin_buffer\<close>, and the loops over the pages of a buffer.\<close>

definition pin_buffer_page :: "ptr \<Rightarrow> addr \<Rightarrow> 'a vm_state_scheme \<Rightarrow> 'a vm_state_scheme option" where
  "pin_buffer_page spt va s = do {
     t \<leftarrow> vm_threads s (current_thread s);
     p \<leftarrow> spt_find_page spt va s;
     (p, s) \<leftarrow> (if p = NULL \<and> va \<ge> vt_esp t - 32 \<and> va < PHYS_BASE then do {
         (_, s) \<leftarrow> vm_alloc_page VM_STACK va True s;
         p \<leftarrow> spt_find_page spt va s;
         Some (p, s)
       } else Some (p, s));
     if p = NULL then Some s
     else do {
       s \<leftarrow> vm_pin_page spt va s;
       pg \<leftarrow> supp_pages s p;
       if sp_frame pg = NULL \<and> \<not> sp_in_swap pg then do { (_, s) \<leftarrow> vm_do_claim_page p s; Some s } else Some s
     }
   }"

partial_function (option) pin_buffer_loop :: "ptr \<Rightarrow> addr \<Rightarrow> addr \<Rightarrow> 'a vm_state_scheme \<Rightarrow> 'a vm_state_scheme option" where
  [code]: "pin_buffer_loop spt va last_page s =
    (if va \<le> last_page then do {
       s \<leftarrow> pin_buffer_page spt va s;
       pin_buffer_loop spt (va + of_nat PGSIZE) last_page s
     } else Some s)"

definition vm_pin_buffer :: "addr \<Rightarrow> nat \<Rightarrow> 'a vm_state_scheme \<Rightarrow> 'a vm_state_scheme option" where
  "vm_pin_buffer buf sz s =
    (if buf = 0 \<or> sz = 0 then Some s
     else do {
       t \<leftarrow> vm_threads s (current_thread s);
       if vt_spt t = NULL then Some s
       else pin_buffer_loop (vt_spt t) (pg_round_down buf) (pg_round_down (buf + of_nat sz - 1)) s
     })"

partial_function (option) unpin_buffer_loop :: "ptr \<Rightarrow> addr \<Rightarrow> addr \<Rightarrow> 'a vm_state_scheme \<Rightarrow> 'a vm_state_scheme option" where
  [code]: "unpin_buffer_loop spt va last_page s =
    (if va \<le> last_page then do {
       s \<leftarrow> vm_unpin_page spt va s;
       unpin_buffer_loop spt (va + of_nat PGSIZE) last_page s
     } else Some s)"

definition vm_unpin_buffer :: "addr \<Rightarrow> nat \<Rightarrow> 'a vm_state_scheme \<Rightarrow> 'a vm_state_scheme option" where
  "vm_unpin_buffer buf sz s =
    (if buf = 0 \<or> sz = 0 then Some s
     else do {
       t \<leftarrow> vm_threads s (current_thread s);
       if vt_spt t = NULL then Some s
       else unpin_buffer_loop (vt_spt t) (pg_round_down buf) (pg_round_down (buf + of_nat sz - 1)) s
     })"

definition vm_supt_create :: "'a vm_state_scheme \<Rightarrow> (ptr \<times> 'a vm_state_scheme) option" where
  "vm_supt_create s = do {
     let (spt, s) = vm_malloc s;
     s \<leftarrow> supplemental_page_table_init spt s;
     Some (spt, s)
   }"

definition vm_supt_destroy :: "ptr \<Rightarrow> 'a vm_state_scheme \<Rightarrow> 'a vm_state_scheme option" where
  "vm_supt_destroy spt s = do {
     s \<leftarrow> supplemental_page_table_destroy spt s;
     Some (s\<lparr>spts := (spts s)(spt := None)\<rparr>)
   }"

definition vm_supt_lookup :: "ptr \<Rightarrow> addr \<Rightarrow> 'a vm_state_scheme \<Rightarrow> supplemental_page_table_entry option option" where
  "vm_supt_lookup spt va s = do {
     p \<leftarrow> spt_find_page spt va s;
     if p = NULL then Some None
     else do {
       pg \<leftarrow> supp_pages s p;
       kva \<leftarrow> (if sp_frame pg \<noteq> NULL then map_option fr_kva (frames s (sp_frame pg)) else Some 0);
       Some (Some \<lparr>te_upage = sp_va pg, te_kpage = kva,
         te_status = (if sp_in_swap pg then ON_SWAP else if sp_frame pg \<noteq> NULL then ON_FRAME
           else if sp_file pg \<noteq> NULL then FROM_FILESYS else ALL_ZERO),
         te_dirty = False, te_swap_index = sp_swap_slot pg, te_file = sp_file pg, te_file_offset = sp_ofs pg,
         te_read_bytes = sp_read_bytes pg, te_zero_bytes = sp_zero_bytes pg, te_writable = sp_writable pg\<rparr>)
     }
   }"

definition vm_supt_has_entry :: "ptr \<Rightarrow> addr \<Rightarrow> 'a vm_state_scheme \<Rightarrow> bool option" where
  "vm_supt_has_entry spt va s = map_option (\<lambda>p. p \<noteq> NULL) (spt_find_page spt va s)"

definition vm_supt_set_dirty :: "ptr \<Rightarrow> addr \<Rightarrow> bool \<Rightarrow> 'a vm_state_scheme \<Rightarrow> (bool \<times> 'a vm_state_scheme) option" where
  "vm_supt_set_dirty spt va v s = do {
     p \<leftarrow> spt_find_page spt va s;
     if p = NULL then Some (False, s)
     else do {
       pg \<leftarrow> supp_pages s p;
       t \<leftarrow> vm_threads s (current_thread s);
       s \<leftarrow> (if sp_frame pg \<noteq> NULL \<and> vt_pagedir t \<noteq> 0 then pagedir_set_dirty (vt_pagedir t) va v s else Some s);
       Some (True, s)
     }
   }"

definition vm_load_page :: "ptr \<Rightarrow> addr \<Rightarrow> 'a vm_state_scheme \<Rightarrow> (bool \<times> 'a vm_state_scheme) option" where
  "vm_load_page spt upage s = do {
     p \<leftarrow> spt_find_page spt upage s;
     if p = NULL then Some (False, s) else vm_do_claim_page p s
   }"

definition vm_supt_install_frame :: "addr \<Rightarrow> 'a vm_state_scheme \<Rightarrow> (bool \<times> 'a vm_state_scheme) option" where
  "vm_supt_install_frame upage s = vm_alloc_page VM_ANON upage True s"

definition vm_supt_install_zeropage :: "addr \<Rightarrow> 'a vm_state_scheme \<Rightarrow> (bool \<times> 'a vm_state_scheme) option" where
  "vm_supt_install_zeropage upage s = vm_alloc_page VM_ANON upage True s"

definition vm_supt_set_swap :: "ptr \<Rightarrow> addr \<Rightarrow> nat \<Rightarrow> 'a vm_state_scheme \<Rightarrow> (bool \<times> 'a vm_state_scheme) option" where
  "vm_supt_set_swap spt page swap_index s = do {
     p \<leftarrow> spt_find_page spt page s;
     if p = NULL then Some (False, s)
     else Some (True, upd_page p (\<lambda>pg. pg\<lparr>sp_in_swap := True, sp_swap_slot := swap_index\<rparr>) s)
   }"

definition vm_supt_install_filesys ::
  "addr \<Rightarrow> ptr \<Rightarrow> int \<Rightarrow> nat \<Rightarrow> nat \<Rightarrow> bool \<Rightarrow> 'a vm_state_scheme \<Rightarrow> (bool \<times> 'a vm_state_scheme) option" where
  "vm_supt_install_filesys upage f offset read_bytes zero_bytes writable s = do {
     let (aux, s) = vm_malloc s;
     if aux = NULL then Some (False, s)
     else vm_alloc_page_with_initializer VM_FILE upage writable Lazy_load_segment aux
       (s\<lparr>file_pages := (file_pages s)(aux \<mapsto> \<lparr>fp_file = f, fp_ofs = offset, fp_read_bytes = read_bytes, fp_zero_bytes = zero_bytes\<rparr>)\<rparr>)
   }"

definition vm_supt_mm_unmap ::
  "ptr \<Rightarrow> addr \<Rightarrow> addr \<Rightarrow> ptr \<Rightarrow> int \<Rightarrow> nat \<Rightarrow> 'a vm_state_scheme \<Rightarrow> (bool \<times> 'a vm_state_scheme) option" where
  "vm_supt_mm_unmap spt pagedir page f offset bytes s = do {
     p \<leftarrow> spt_find_page spt page s;
     if p = NULL then Some (False, s)
     else do {
       pg \<leftarrow> supp_pages s p;
       s \<leftarrow> (if sp_frame pg \<noteq> NULL then do {
           is_dirty \<leftarrow> pagedir_is_dirty pagedir (sp_va pg) s;
           s \<leftarrow> (if is_dirty \<and> sp_type pg = VM_FILE \<and> f \<noteq> NULL then do {
               fr \<leftarrow> frames s (sp_frame pg);
               (_, fs) \<leftarrow> file_write_at f (mem_bytes (mem s) (fr_kva fr) bytes) (int32 (int bytes)) offset (vm_fs s);
               Some (s\<lparr>vm_fs := fs\<rparr>)
             } else Some s);
           s \<leftarrow> pagedir_clear_page pagedir (sp_va pg) s;
           vm_frame_free (of_nat (sp_frame pg)) s
         }
         else if sp_in_swap pg then vm_swap_free (sp_swap_slot pg) s
         else Some s);
       s \<leftarrow> spt_remove_page spt p s;
       Some (True, s)
     }
   }"

end
