(* ===== verification/Vm_Correct.thy ===== *)
theory Vm_Correct
  imports Vm
begin

text \<open>
  Correctness of the virtual memory model: the clock algorithm of \<^verbatim>\<open>select_victim\<close>
  implements second-chance replacement; claiming, pinning and swapping on their error paths.
\<close>

section \<open>Accessed bits\<close>

definition accessed :: "'a pd_state_scheme \<Rightarrow> addr \<Rightarrow> addr \<Rightarrow> bool" where
  "accessed s pd va \<longleftrightarrow> (\<exists>e. pte_at s pd va = Some e \<and> e AND PTE_A \<noteq> 0)"

lemma pagedir_is_accessed_eq:
  assumes "pd_ok s pd" "is_user_vaddr va"
  shows "pagedir_is_accessed pd va s = Some (accessed s pd va)"
proof (cases "pt_of s pd (pdi va)")
  case None
  then show ?thesis using lookup_page_missing [OF assms] by (simp add: pagedir_is_accessed_def accessed_def pte_at_def)
next
  case (Some t)
  have "t + of_nat (4 * pti va) \<noteq> 0"
    using pd_ok_pt [OF assms(1) Some pdi_less [OF assms(2)]] by (intro entry_notNULL pti_less)
  then show ?thesis using lookup_page_existing [OF assms Some] Some
    by (simp add: pagedir_is_accessed_def accessed_def pte_at_def)
qed

text \<open>Several directories at once: each is well formed, and they share no page tables.\<close>

definition pds_ok :: "'a pd_state_scheme \<Rightarrow> addr set \<Rightarrow> bool" where
  "pds_ok s D \<longleftrightarrow> (\<forall>pd \<in> D. pd_ok s pd) \<and>
    (\<forall>pd \<in> D. \<forall>pd' \<in> D. pd \<noteq> pd' \<longrightarrow>
       (\<forall>i < 768. \<forall>t. pt_of s pd i = Some t \<longrightarrow> t \<noteq> pd' \<and> (\<forall>j < 768. pt_of s pd' j \<noteq> Some t)))"

lemma pds_okD:
  assumes "pds_ok s D" "pd \<in> D" "pd' \<in> D" "pd \<noteq> pd'" "i < 768" "pt_of s pd i = Some t"
  shows "t \<noteq> pd' \<and> (\<forall>j < 768. pt_of s pd' j \<noteq> Some t)"
  using assms(1) [unfolded pds_ok_def, THEN conjunct2, THEN bspec, OF assms(2), THEN bspec, OF assms(3), THEN mp, OF assms(4),
    THEN spec, THEN mp, OF assms(5), THEN spec, THEN mp, OF assms(6)] .

lemma write_pte_pds:
  assumes ok: "pds_ok s D" and pd: "pd \<in> D" and va: "is_user_vaddr va" and t: "pt_of s pd (pdi va) = Some t"
    and s': "s' = s\<lparr>mem := store_word (mem s) (t + of_nat (4 * pti va)) w\<rparr>"
  shows "pds_ok s' D"
    "\<And>pd' vb. pd' \<in> D \<Longrightarrow> is_user_vaddr vb \<Longrightarrow>
      pte_at s' pd' vb = (if pd' = pd \<and> pg_no vb = pg_no va then Some w else pte_at s pd' vb)"
proof -
  have oks: "pd_ok s pd'" if "pd' \<in> D" for pd' using ok that by (simp add: pds_ok_def)
  note tt = pd_ok_pt [OF oks [OF pd] t pdi_less [OF va]]
  have other: "t \<noteq> pd' \<and> (\<forall>j < 768. pt_of s pd' j \<noteq> Some t)" if "pd' \<in> D" "pd' \<noteq> pd" for pd'
    by (rule pds_okD [OF ok pd that(1) not_sym [OF that(2)] pdi_less [OF va] t])
  have sep: "t \<noteq> pd'" if "pd' \<in> D" for pd' using other [OF that] tt(4) by (cases "pd' = pd") simp_all
  have ld: "load_word (mem s') (q + of_nat (4 * k)) =
      (if t = q \<and> pti va = k then w else load_word (mem s) (q + of_nat (4 * k)))" if "pg_ofs q = 0" "k < 1024" for q k
    unfolding s' using load_store_entry [OF tt(2) that(1) pti_less that(2)] by simp
  have pde: "pde_of s' pd' i = pde_of s pd' i" if "pd' \<in> D" "i < 768" for pd' i
    using ld [OF pd_ok_pd(1) [OF oks [OF that(1)]], of i] sep [OF that(1)] that(2) by (simp add: pde_of_def)
  then have pt: "pt_of s' pd' i = pt_of s pd' i" if "pd' \<in> D" "i < 768" for pd' i using that by (simp add: pt_of_def)
  have ku: "kpage_used s' = kpage_used s" by (rule ext) (simp add: kpage_used_def s')
  have "pd_ok s' pd'" if "pd' \<in> D" for pd' using oks [OF that] pde [OF that] unfolding pd_ok_def ku by (auto simp: s')
  moreover have "t' \<noteq> pd2 \<and> (\<forall>j < 768. pt_of s' pd2 j \<noteq> Some t')"
    if "pd1 \<in> D" "pd2 \<in> D" "pd1 \<noteq> pd2" "i < 768" "pt_of s' pd1 i = Some t'" for pd1 pd2 i t'
    using pds_okD [OF ok that(1-4)] that(5) pt [OF that(1,4)] pt [OF that(2)] by simp
  ultimately show "pds_ok s' D" unfolding pds_ok_def by blast
  fix pd' vb assume d: "pd' \<in> D" and vb: "is_user_vaddr vb"
  show "pte_at s' pd' vb = (if pd' = pd \<and> pg_no vb = pg_no va then Some w else pte_at s pd' vb)"
  proof (cases "pd' = pd")
    case True
    then show ?thesis using write_pte(2) [OF oks [OF pd] va t s' vb] by simp
  next
    case False
    then have "load_word (mem s') (q + of_nat (4 * pti vb)) = load_word (mem s) (q + of_nat (4 * pti vb))"
      if "pt_of s pd' (pdi vb) = Some q" for q
      using ld [OF pd_ok_pt(2) [OF oks [OF d] that pdi_less [OF vb]] pti_less, of vb] other [OF d] pdi_less [OF vb] that by auto
    then show ?thesis using False pt [OF d pdi_less [OF vb]] by (simp add: pte_at_def split: option.splits)
  qed
qed

lemma pds_ok_regs: "pds_ok (s\<lparr>cr3 := c, tlb := b\<rparr>) D = pds_ok s D"
proof -
  have "pt_of (s\<lparr>cr3 := c, tlb := b\<rparr>) = pt_of s" by (simp add: fun_eq_iff pt_of_def pde_of_def)
  then show ?thesis by (simp add: pds_ok_def pd_ok_cr3)
qed

lemma pagedir_set_accessed_False:
  assumes "pds_ok s D" "pd \<in> D" "is_user_vaddr va" "cr3 s < PHYS_BASE"
  obtains m tl where "pagedir_set_accessed pd va False s = Some (s\<lparr>mem := m, tlb := tl\<rparr>)" "pds_ok (s\<lparr>mem := m, tlb := tl\<rparr>) D"
    "\<And>pd' vb. pd' \<in> D \<Longrightarrow> is_user_vaddr vb \<Longrightarrow>
      accessed (s\<lparr>mem := m, tlb := tl\<rparr>) pd' vb \<longleftrightarrow> accessed s pd' vb \<and> \<not> (pd' = pd \<and> pg_no vb = pg_no va)"
proof (cases "pt_of s pd (pdi va)")
  have pdok: "pd_ok s pd" using assms(1,2) by (simp add: pds_ok_def)
  case None
  have "accessed s pd vb \<longrightarrow> pg_no vb \<noteq> pg_no va" for vb
    using None same_page_index [of vb va] by (auto simp: accessed_def pte_at_def)
  then have "accessed s pd' vb \<longleftrightarrow> accessed s pd' vb \<and> \<not> (pd' = pd \<and> pg_no vb = pg_no va)" for pd' vb by blast
  then show ?thesis
    using that [where m = "mem s" and tl = "tlb s"] lookup_page_missing [OF pdok assms(3) None] assms(1)
    by (simp add: pagedir_set_accessed_def)
next
  have pdok: "pd_ok s pd" using assms(1,2) by (simp add: pds_ok_def)
  case (Some t)
  have nn: "t + of_nat (4 * pti va) \<noteq> 0"
    using pd_ok_pt [OF pdok Some pdi_less [OF assms(3)]] by (intro entry_notNULL pti_less)
  define w where "w = load_word (mem s) (t + of_nat (4 * pti va)) AND NOT PTE_A"
  define s1 where "s1 = s\<lparr>mem := store_word (mem s) (t + of_nat (4 * pti va)) w\<rparr>"
  note wr = write_pte_pds [OF assms(1-3) Some s1_def]
  obtain c tl where inv: "invalidate_pagedir pd s1 = Some (s1\<lparr>cr3 := c, tlb := tl\<rparr>)" "c = cr3 s1"
    using invalidate_ok [of s1 pd] assms(4) pd_ok_base [OF pdok] by (auto simp: s1_def)
  have e: "s1\<lparr>cr3 := c, tlb := tl\<rparr> = s\<lparr>mem := mem s1, tlb := tl\<rparr>" using inv(2) by (simp add: s1_def)
  have "w AND PTE_A = 0" by (simp add: w_def and.assoc)
  then have acc: "accessed s1 pd' vb \<longleftrightarrow> accessed s pd' vb \<and> \<not> (pd' = pd \<and> pg_no vb = pg_no va)"
    if "pd' \<in> D" "is_user_vaddr vb" for pd' vb
    using wr(2) [OF that] by (simp add: accessed_def)
  show ?thesis
  proof (rule that [where m = "mem s1" and tl = tl])
    show "pagedir_set_accessed pd va False s = Some (s\<lparr>mem := mem s1, tlb := tl\<rparr>)"
      using lookup_page_existing [OF pdok assms(3) Some] nn inv(1) e
      by (simp add: pagedir_set_accessed_def s1_def w_def)
    show "pds_ok (s\<lparr>mem := mem s1, tlb := tl\<rparr>) D" using wr(1) pds_ok_regs [where s = s1 and c = c and b = tl] e by simp
    show "accessed (s\<lparr>mem := mem s1, tlb := tl\<rparr>) pd' vb \<longleftrightarrow> accessed s pd' vb \<and> \<not> (pd' = pd \<and> pg_no vb = pg_no va)"
      if "pd' \<in> D" "is_user_vaddr vb" for pd' vb
      using acc [OF that] pd_ok_cr3(2) [where s = s1 and c = c and t = tl and pd = pd' and va = vb] e by (simp add: accessed_def)
  qed
qed

section \<open>The clock algorithm\<close>

text \<open>The user address a frame holds, the page directory of the frame's owner, and the accessed bit there.\<close>

definition frame_va :: "'a vm_state_scheme \<Rightarrow> ptr \<Rightarrow> addr" where
  "frame_va s p = sp_va (the (supp_pages s (fr_page (the (frames s p)))))"

definition frame_pd :: "'a vm_state_scheme \<Rightarrow> ptr \<Rightarrow> addr" where
  "frame_pd s p = vt_pagedir (the (vm_threads s (fr_owner (the (frames s p)))))"

definition frame_accessed :: "'a vm_state_scheme \<Rightarrow> ptr \<Rightarrow> bool" where
  "frame_accessed s p \<longleftrightarrow> accessed s (frame_pd s p) (frame_va s p)"

definition unpinned :: "'a vm_state_scheme \<Rightarrow> ptr \<Rightarrow> bool" where
  "unpinned s p \<longleftrightarrow> \<not> fr_pinned (the (frames s p))"

definition clock_frames :: "'a vm_state_scheme \<Rightarrow> ptr set" where
  "clock_frames s = {p \<in> set (frame_table s). unpinned s p}"

text \<open>
  A frame table on which the clock can run. A frame may belong to any process. Each unpinned frame has
  an owner and a page at a user address, and no two of them hold the same page of the same process. The owners'
  page directories are well formed and share no page tables. Of pinned frames nothing is asked.
\<close>

definition clock_ok :: "'a vm_state_scheme \<Rightarrow> bool" where
  "clock_ok s \<longleftrightarrow> pds_ok s (frame_pd s ` clock_frames s) \<and> cr3 s < PHYS_BASE \<and> distinct (frame_table s) \<and> NULL \<notin> set (frame_table s) \<and>
    (\<forall>p \<in> set (frame_table s). \<exists>fr. frames s p = Some fr \<and> (fr_pinned fr \<or>
       (\<exists>t pg. vm_threads s (fr_owner fr) = Some t \<and> supp_pages s (fr_page fr) = Some pg \<and> is_user_vaddr (sp_va pg)))) \<and>
    inj_on (\<lambda>p. (frame_pd s p, pg_no (frame_va s p))) (clock_frames s)"

text \<open>The hand is at position \<open>i\<close> of the table.\<close>

definition hand_at :: "nat \<Rightarrow> 'a vm_state_scheme \<Rightarrow> bool" where
  "hand_at i s \<longleftrightarrow> i < length (frame_table s) \<and> (clock_hand s = frame_table s ! i \<or> i = 0 \<and> clock_hand s = NULL)"

text \<open>What the scan leaves as it is.\<close>

definition clock_rel :: "'a vm_state_scheme \<Rightarrow> 'a vm_state_scheme \<Rightarrow> bool" where
  "clock_rel s s' \<longleftrightarrow> (\<exists>h m tl. s' = s\<lparr>clock_hand := h, mem := m, tlb := tl\<rparr>)"

lemma clock_rel_sel:
  assumes "clock_rel s s'"
  shows "frames s' = frames s" "frame_table s' = frame_table s" "supp_pages s' = supp_pages s" "vm_threads s' = vm_threads s"
    "cr3 s' = cr3 s" "frame_va s' = frame_va s" "frame_pd s' = frame_pd s" "unpinned s' = unpinned s" "clock_frames s' = clock_frames s"
  using assms by (auto simp: clock_rel_def frame_va_def frame_pd_def unpinned_def clock_frames_def fun_eq_iff)

lemma clock_rel_refl [simp]: "clock_rel s s"
  unfolding clock_rel_def by (intro exI [of _ "clock_hand s"] exI [of _ "mem s"] exI [of _ "tlb s"]) simp

lemma clock_rel_trans: "clock_rel s s1 \<Longrightarrow> clock_rel s1 s2 \<Longrightarrow> clock_rel s s2"
  unfolding clock_rel_def by (elim exE, simp) (intro exI, rule refl)

lemma clock_ok_rel: "clock_ok s \<Longrightarrow> clock_rel s s' \<Longrightarrow> pds_ok s' (frame_pd s ` clock_frames s) \<Longrightarrow> clock_ok s'"
  by (simp add: clock_ok_def clock_rel_sel)

lemma clock_ok_frame:
  assumes "clock_ok s" "p \<in> clock_frames s"
  obtains fr t pg where "frames s p = Some fr" "\<not> fr_pinned fr" "vm_threads s (fr_owner fr) = Some t" "supp_pages s (fr_page fr) = Some pg"
    "is_user_vaddr (sp_va pg)" "frame_va s p = sp_va pg" "frame_pd s p = vt_pagedir t" "pd_ok s (vt_pagedir t)"
proof -
  have p: "p \<in> set (frame_table s)" "unpinned s p" using assms(2) by (simp_all add: clock_frames_def)
  obtain fr where fr: "frames s p = Some fr" "fr_pinned fr \<or>
      (\<exists>t pg. vm_threads s (fr_owner fr) = Some t \<and> supp_pages s (fr_page fr) = Some pg \<and> is_user_vaddr (sp_va pg))"
    using assms(1) p(1) unfolding clock_ok_def by blast
  have np: "\<not> fr_pinned fr" using p(2) fr(1) by (simp add: unpinned_def)
  then obtain t pg where t: "vm_threads s (fr_owner fr) = Some t" "supp_pages s (fr_page fr) = Some pg" "is_user_vaddr (sp_va pg)"
    using fr(2) by blast
  have e: "frame_va s p = sp_va pg" "frame_pd s p = vt_pagedir t" using fr(1) t by (simp_all add: frame_va_def frame_pd_def)
  have "pd_ok s (frame_pd s p)" using assms by (simp add: clock_ok_def pds_ok_def)
  then show ?thesis using that [OF fr(1) np t e] e(2) by simp
qed

lemma frame_next_nth:
  assumes "distinct (frame_table s)" "i < length (frame_table s)"
  shows "frame_next (frame_table s ! i) s = Some (if Suc i < length (frame_table s) then frame_table s ! Suc i else NULL)"
proof -
  let ?t = "frame_table s"
  have "\<And>q. q \<in> set (take i ?t) \<Longrightarrow> q \<noteq> ?t ! i" using assms by (auto simp: in_set_conv_nth nth_eq_iff_index_eq)
  then have "dropWhile (\<lambda>q. q \<noteq> ?t ! i) ?t = ?t ! i # drop (Suc i) ?t"
    by (subst id_take_nth_drop [OF assms(2)], subst dropWhile_append2) auto
  then show ?thesis
    using assms(2) Cons_nth_drop_Suc [of "Suc i" ?t, symmetric] by (cases "Suc i < length ?t") (auto simp: frame_next_def)
qed

definition candidate :: "'a vm_state_scheme \<Rightarrow> ptr \<Rightarrow> bool" where
  "candidate s p \<longleftrightarrow> unpinned s p \<and> \<not> frame_accessed s p"

lemma accessed_hand:
  "accessed (s\<lparr>clock_hand := h\<rparr>) = accessed s" "pds_ok (s\<lparr>clock_hand := h\<rparr>) D = pds_ok s D"
  "pd_ok (s\<lparr>clock_hand := h\<rparr>) pd = pd_ok s pd"
proof -
  have pt: "pt_of (s\<lparr>clock_hand := h\<rparr>) = pt_of s" by (simp add: fun_eq_iff pt_of_def pde_of_def)
  have "pte_at (s\<lparr>clock_hand := h\<rparr>) p va = pte_at s p va" for p va
    by (simp add: pte_at_def pt cong: option.case_cong)
  then show "accessed (s\<lparr>clock_hand := h\<rparr>) = accessed s" by (simp add: accessed_def fun_eq_iff)
  have *: "pd_ok (s\<lparr>clock_hand := h\<rparr>) pd = pd_ok s pd" for pd
    by (simp add: pd_ok_def palloc_ok_def kpage_used_def pool_used_def get_pool_def pde_of_def)
  then show "pds_ok (s\<lparr>clock_hand := h\<rparr>) D = pds_ok s D" by (simp add: pds_ok_def pt)
  show "pd_ok (s\<lparr>clock_hand := h\<rparr>) pd = pd_ok s pd" by (rule *)
qed

text \<open>What one step does at a frame that is not chosen, apart from moving the hand.\<close>

lemma clock_skip:
  assumes ok: "clock_ok s" and p: "p \<in> set (frame_table s)" "\<not> candidate s p" and fr: "frames s p = Some fr"
    and h: "s1 = s\<lparr>clock_hand := h\<rparr>"
  shows "\<exists>s2. (if fr_pinned fr then Some s1
      else pagedir_set_accessed (frame_pd s p) (frame_va s p) False s1) = Some s2 \<and>
    clock_rel s s2 \<and> clock_hand s2 = h \<and> clock_ok s2 \<and> (\<forall>q \<in> clock_frames s. frame_accessed s2 q = (frame_accessed s q \<and> q \<noteq> p))"
proof -
  let ?D = "frame_pd s ` clock_frames s"
  have pds: "pds_ok s1 ?D" "accessed s1 = accessed s" using ok by (simp_all add: h accessed_hand clock_ok_def)
  have rel1: "clock_rel s s1" by (auto simp: clock_rel_def h intro!: exI [of _ h] exI [of _ "mem s"] exI [of _ "tlb s"])
  show ?thesis
  proof (cases "fr_pinned fr")
    case True
    then have "p \<notin> clock_frames s" using fr by (simp add: clock_frames_def unpinned_def)
    then have "\<forall>q \<in> clock_frames s. frame_accessed s1 q = (frame_accessed s q \<and> q \<noteq> p)"
      using pds(2) by (auto simp: frame_accessed_def clock_rel_sel [OF rel1])
    then show ?thesis using True rel1 clock_ok_rel [OF ok rel1 pds(1)] by (intro exI [of _ s1]) (simp add: h)
  next
    case False
    then have pf: "p \<in> clock_frames s" using fr p(1) by (simp add: clock_frames_def unpinned_def)
    then have pd: "frame_pd s p \<in> ?D" by simp
    have user: "is_user_vaddr (frame_va s q)" if "q \<in> clock_frames s" for q
      by (rule clock_ok_frame [OF ok that]) simp
    have c1: "cr3 s1 < PHYS_BASE" using ok by (simp add: h clock_ok_def)
    obtain m tl where set: "pagedir_set_accessed (frame_pd s p) (frame_va s p) False s1 = Some (s1\<lparr>mem := m, tlb := tl\<rparr>)"
        "pds_ok (s1\<lparr>mem := m, tlb := tl\<rparr>) ?D"
        "\<And>pd' vb. pd' \<in> ?D \<Longrightarrow> is_user_vaddr vb \<Longrightarrow> accessed (s1\<lparr>mem := m, tlb := tl\<rparr>) pd' vb \<longleftrightarrow>
          accessed s1 pd' vb \<and> \<not> (pd' = frame_pd s p \<and> pg_no vb = pg_no (frame_va s p))"
      by (rule pagedir_set_accessed_False [OF pds(1) pd user [OF pf] c1]) (rule that)
    define s2 where "s2 = s1\<lparr>mem := m, tlb := tl\<rparr>"
    have rel: "clock_rel s s2" by (auto simp: clock_rel_def s2_def h)
    have "frame_accessed s2 q = (frame_accessed s q \<and> q \<noteq> p)" if q: "q \<in> clock_frames s" for q
    proof -
      have "frame_pd s q = frame_pd s p \<and> pg_no (frame_va s q) = pg_no (frame_va s p) \<longleftrightarrow> q = p"
        using ok q pf unfolding clock_ok_def inj_on_def by auto
      then show ?thesis using set(3) [OF _ user [OF q], of "frame_pd s q"] q pds(2)
        by (simp add: frame_accessed_def clock_rel_sel [OF rel] s2_def [symmetric])
    qed
    then show ?thesis using False set(1) rel clock_ok_rel [OF ok rel set(2) [folded s2_def]]
      by (intro exI [of _ s2]) (simp add: s2_def h)
  qed
qed

lemma clock_step:
  assumes ok: "clock_ok s" and h: "hand_at i s" and p: "p = frame_table s ! i"
  shows "candidate s p \<Longrightarrow> \<exists>s'. select_victim_loop (Suc n) s = Some (p, s') \<and> clock_rel s s' \<and> frame_accessed s' = frame_accessed s"
    "\<not> candidate s p \<Longrightarrow> \<exists>s'. select_victim_loop (Suc n) s = select_victim_loop n s' \<and> clock_rel s s' \<and> clock_ok s' \<and>
       hand_at (Suc i mod length (frame_table s)) s' \<and>
       (\<forall>q \<in> clock_frames s. frame_accessed s' q = (frame_accessed s q \<and> q \<noteq> p))"
proof -
  let ?t = "frame_table s"
  have i: "i < length ?t" using h by (simp add: hand_at_def)
  have pt: "p \<in> set ?t" using i p by simp
  have "p \<noteq> NULL" using ok pt unfolding clock_ok_def by metis
  then have hand: "(if clock_hand s = NULL then hd ?t else clock_hand s) = p"
    using h p pt i hd_conv_nth [of ?t] by (cases "clock_hand s = NULL") (auto simp: hand_at_def)
  obtain fr where fr: "frames s p = Some fr" using ok pt unfolding clock_ok_def by blast
  have dist: "distinct ?t" using ok by (simp add: clock_ok_def)
  define nxt where "nxt = (if Suc i < length ?t then ?t ! Suc i else NULL)"
  have nx: "frame_next p s = Some nxt" using frame_next_nth [OF dist i] p by (simp add: nxt_def)
  define s1 where "s1 = s\<lparr>clock_hand := nxt\<rparr>"
  have rel1: "clock_rel s s1" by (auto simp: clock_rel_def s1_def intro!: exI [of _ nxt] exI [of _ "mem s"] exI [of _ "tlb s"])
  have at: "hand_at (Suc i mod length ?t) s'" if "clock_hand s' = nxt" "frame_table s' = ?t" for s' :: "'a vm_state_scheme"
  proof (cases "Suc i < length ?t")
    case False
    then have e: "Suc i mod length ?t = 0" using i by (metis Suc_lessI mod_self)
    show ?thesis unfolding e using that False i by (auto simp: hand_at_def nxt_def)
  qed (use that in \<open>auto simp: hand_at_def nxt_def\<close>)
  have step: "select_victim_loop (Suc n) s = (if candidate s p then Some (p, s1)
      else (if fr_pinned fr then Some s1 else pagedir_set_accessed (frame_pd s p) (frame_va s p) False s1) \<bind> select_victim_loop n)"
  proof (cases "fr_pinned fr")
    case True
    then show ?thesis using fr nx hand by (simp add: s1_def Let_def candidate_def unpinned_def)
  next
    case False
    then have pf: "p \<in> clock_frames s" using fr pt by (simp add: clock_frames_def unpinned_def)
    obtain t pg where t: "vm_threads s (fr_owner fr) = Some t" "supp_pages s (fr_page fr) = Some pg" "is_user_vaddr (sp_va pg)"
        "frame_va s p = sp_va pg" "frame_pd s p = vt_pagedir t" "pd_ok s (vt_pagedir t)"
      by (rule clock_ok_frame [OF ok pf]) (use fr that in auto)
    have "pd_ok s1 (vt_pagedir t)" using t(6) by (simp add: s1_def accessed_hand)
    then have isa: "pagedir_is_accessed (vt_pagedir t) (sp_va pg) s1 = Some (frame_accessed s p)"
      using pagedir_is_accessed_eq [of s1 "vt_pagedir t" "sp_va pg"] t(3-5) by (simp add: s1_def accessed_hand frame_accessed_def)
    have "unpinned s p" using False fr by (simp add: unpinned_def)
    then show ?thesis using fr nx hand False t isa
      by (simp add: s1_def [symmetric] Let_def candidate_def) (simp add: s1_def)
  qed
  show "\<exists>s'. select_victim_loop (Suc n) s = Some (p, s') \<and> clock_rel s s' \<and> frame_accessed s' = frame_accessed s" if "candidate s p"
    using that step rel1 by (auto simp: frame_accessed_def fun_eq_iff s1_def accessed_hand frame_va_def frame_pd_def)
  show "\<exists>s'. select_victim_loop (Suc n) s = select_victim_loop n s' \<and> clock_rel s s' \<and> clock_ok s' \<and>
       hand_at (Suc i mod length ?t) s' \<and> (\<forall>q \<in> clock_frames s. frame_accessed s' q = (frame_accessed s q \<and> q \<noteq> p))"
    if nc: "\<not> candidate s p"
  proof -
    obtain s2 where s2: "(if fr_pinned fr then Some s1 else pagedir_set_accessed (frame_pd s p) (frame_va s p) False s1) = Some s2"
        "clock_rel s s2" "clock_hand s2 = nxt" "clock_ok s2" "\<forall>q \<in> clock_frames s. frame_accessed s2 q = (frame_accessed s q \<and> q \<noteq> p)"
      using clock_skip [OF ok pt nc fr s1_def] by blast
    have "select_victim_loop (Suc n) s = select_victim_loop n s2" using step nc s2(1) by simp
    then show ?thesis using s2(2,4,5) at [OF s2(3) clock_rel_sel(2) [OF s2(2)]] by blast
  qed
qed

text \<open>The frames in the order in which the hand passes them.\<close>

definition clock_order :: "nat \<Rightarrow> 'a vm_state_scheme \<Rightarrow> ptr list" where
  "clock_order i s = rotate i (frame_table s)"

definition cleared :: "'a vm_state_scheme \<Rightarrow> ptr set \<Rightarrow> 'a vm_state_scheme \<Rightarrow> bool" where
  "cleared s ps s' \<longleftrightarrow> (\<forall>q \<in> clock_frames s. frame_accessed s' q = (frame_accessed s q \<and> q \<notin> ps))"

lemma clock_phase:
  assumes "clock_ok s" "hand_at i s" "k \<le> length (frame_table s)" "xs = take k (rotate i (frame_table s))"
  shows "case find (candidate s) xs of
      Some p \<Rightarrow> \<exists>s'. select_victim_loop (k + n) s = Some (p, s') \<and> clock_rel s s' \<and> \<not> frame_accessed s' p
    | None \<Rightarrow> \<exists>s'. select_victim_loop (k + n) s = select_victim_loop n s' \<and> clock_rel s s' \<and> clock_ok s' \<and>
        hand_at ((i + k) mod length (frame_table s)) s' \<and> cleared s (set xs) s'"
  using assms
proof (induction k arbitrary: i s xs)
  case 0
  then show ?case by (auto simp: cleared_def hand_at_def intro!: exI [of _ s])
next
  case (Suc k)
  let ?t = "frame_table s"
  have i: "i < length ?t" using Suc.prems(2) by (simp add: hand_at_def)
  define p where "p = ?t ! i"
  define ys where "ys = take k (rotate (Suc i mod length ?t) ?t)"
  have rot: "rotate i ?t = p # drop (Suc i) ?t @ take i ?t"
    using i by (simp add: rotate_drop_take p_def Cons_nth_drop_Suc [symmetric])
  have xs: "xs = p # ys"
  proof -
    have "rotate (Suc i mod length ?t) ?t = rotate (Suc i) ?t" by (metis rotate_conv_mod)
    also have "\<dots> = drop (Suc i) ?t @ take i ?t @ [p]" using rot by simp
    finally show ?thesis using Suc.prems(3,4) rot i by (simp add: ys_def take_Cons')
  qed
  have "set (rotate i ?t) = set ?t" "distinct (rotate i ?t)" using Suc.prems(1) by (simp_all add: clock_ok_def)
  then have sub: "set xs \<subseteq> set ?t" "distinct xs" using Suc.prems(4) set_take_subset by (metis, metis distinct_take)
  show ?case
  proof (cases "candidate s p")
    case True
    from clock_step(1) [OF Suc.prems(1,2) p_def True, of "k + n"] show ?thesis using True by (auto simp: xs candidate_def)
  next
    case False
    from clock_step(2) [OF Suc.prems(1,2) p_def False, of "k + n"] obtain s1 where
      s1: "select_victim_loop (Suc (k + n)) s = select_victim_loop (k + n) s1" "clock_rel s s1" "clock_ok s1"
        "hand_at (Suc i mod length ?t) s1"
        "\<And>q. q \<in> clock_frames s \<Longrightarrow> frame_accessed s1 q = (frame_accessed s q \<and> q \<noteq> p)"
      by blast
    note sel = clock_rel_sel [OF s1(2)]
    have "candidate s1 q = candidate s q" if "q \<in> set ys" for q
    proof -
      have "q \<in> set ?t" "q \<noteq> p" using that sub by (auto simp: xs)
      then show ?thesis using s1(5) [of q] by (auto simp: candidate_def sel clock_frames_def)
    qed
    then have f: "find (candidate s1) ys = find (candidate s) ys" by (intro find_cong) auto
    have ys: "ys = take k (rotate (Suc i mod length ?t) (frame_table s1))" by (simp add: ys_def sel)
    have IH: "case find (candidate s1) ys of
      Some p \<Rightarrow> \<exists>s'. select_victim_loop (k + n) s1 = Some (p, s') \<and> clock_rel s1 s' \<and> \<not> frame_accessed s' p
    | None \<Rightarrow> \<exists>s'. select_victim_loop (k + n) s1 = select_victim_loop n s' \<and> clock_rel s1 s' \<and> clock_ok s' \<and>
        hand_at ((Suc i mod length ?t + k) mod length ?t) s' \<and> cleared s1 (set ys) s'"
      using Suc.IH [OF s1(3,4) _ ys] Suc.prems(3) unfolding sel(2) by simp
    have m: "(Suc i mod length ?t + k) mod length ?t = (i + Suc k) mod length ?t" by (simp add: mod_add_left_eq)
    show ?thesis
    proof (cases "find (candidate s) ys")
      case None
      then obtain s' where s': "select_victim_loop (k + n) s1 = select_victim_loop n s'" "clock_rel s1 s'" "clock_ok s'"
          "hand_at ((i + Suc k) mod length ?t) s'" "cleared s1 (set ys) s'" using IH f m by auto
      have "cleared s (set xs) s'"
        using s'(5) s1(5) unfolding cleared_def xs by (auto simp: sel)
      then show ?thesis using None False s1(1) s' clock_rel_trans [OF s1(2) s'(2)] by (auto simp: xs)
    next
      case (Some q)
      then show ?thesis using IH f False s1(1) clock_rel_trans [OF s1(2)] by (auto simp: xs)
    qed
  qed
qed

lemma palloc_free_page_frame:
  assumes "palloc_free_page a s = Some s'"
  shows "clock_hand s' = clock_hand s" "frames s' = frames s" "frame_table s' = frame_table s"
  using assms
  by (auto simp: palloc_free_page_def palloc_free_multiple_def bind_eq_Some_conv set_used_map_def Let_def split: if_splits)

lemma find_frame_lock: "find_frame kva ps (s\<lparr>frame_lock := l\<rparr>) = find_frame kva ps s"
  by (induction ps) (simp_all cong: if_cong)

section \<open>Swapping\<close>

text \<open>The swap bitmap as \<^verbatim>\<open>vm_swap_init\<close> leaves it: every bit is set.\<close>

definition swap_full :: "'a vm_state_scheme \<Rightarrow> bool" where
  "swap_full s \<longleftrightarrow> (\<exists>bm. swap_available s = Some bm \<and> bitmap_ok bm \<and> bits_of bm = replicate (bit_cnt bm) True)"

lemma vm_swap_init_full:
  assumes "vm_swap_init raw s0 = Some s" "length raw = elem_cnt (swap_size s)" "swap_size s + ELEM_BITS < 2 ^ 32"
  shows "swap_full s" "swap_lock s = NULL"
proof -
  obtain sa where "swap_bitmap_init raw sa = Some s" using assms(1) by (auto simp: vm_swap_init_def bind_eq_Some_conv Let_def)
  then obtain s1 mb r bm0 bm where c: "bitmap_create mb r (swap_size s1) = Some (Some bm0)" "r = None \<or> r = Some raw"
      "bitmap_set_all bm0 True = Some bm" and s: "s = s1\<lparr>swap_available := Some bm, swap_lock := NULL\<rparr>"
    by (cases "vm_malloc sa") (fastforce simp: swap_bitmap_init_def bind_eq_Some_conv split: if_splits prod.split_asm)
  have n: "swap_size s1 = swap_size s" by (simp add: s)
  have "bitmap_ok \<lparr>bit_cnt = swap_size s, bits = ws\<rparr>" if "length ws = elem_cnt (swap_size s)" for ws
    using that assms(3) by (simp add: bitmap_ok_def)
  moreover have "elem_cnt 0 = 0" by (simp add: elem_cnt_def DIV_ROUND_UP_def size_sub_def size_add_def)
  ultimately have "bitmap_ok bm0"
    using c(1,2) assms(2) bitmap_set_all_bits unfolding n
    by (auto simp: bitmap_create_def bind_eq_Some_conv split: if_splits) (metis option.inject)+
  from bitmap_set_all_bits [OF this, of True] show "swap_full s" using c(3) by (auto simp: swap_full_def s)
  show "swap_lock s = NULL" by (simp add: s)
qed

lemma swap_out_full:
  assumes "swap_full s" "swap_lock s = NULL" "p = NULL \<or> supp_pages s p \<noteq> None"
  shows "swap_out p s = Some (False, s)"
proof -
  obtain bm where bm: "swap_available s = Some bm" "bitmap_ok bm" "bits_of bm = replicate (bit_cnt bm) True"
    using assms(1) by (auto simp: swap_full_def)
  have "find_run 0 1 False (bits_of bm) = None" unfolding find_run_def find_None_iff bm(3) by auto
  then have scan: "bitmap_scan_and_flip bm 0 1 False = Some (BITMAP_ERROR, bm)"
    using bitmap_scan_bits [OF bm(2), of 0 1 False] by (simp add: bitmap_scan_and_flip_def)
  have e: "s\<lparr>swap_lock := NULL, swap_available := Some bm\<rparr> = s" using bm(1) assms(2) by simp
  show ?thesis
    using assms(2,3) bm(1) scan e by (auto simp: swap_out_def swap_lock_acquire_def swap_lock_release_def)
qed

lemma pagedir_clear:
  assumes "pd_ok s pd" "is_user_vaddr va" "pg_ofs va = 0" "cr3 s < PHYS_BASE"
  obtains m tl where "pagedir_clear_page pd va s = Some (s\<lparr>mem := m, tlb := tl\<rparr>)" "pd_ok (s\<lparr>mem := m, tlb := tl\<rparr>) pd"
    "\<not> mapped (s\<lparr>mem := m, tlb := tl\<rparr>) pd va"
proof (cases "mapped s pd va")
  case False
  have "pagedir_clear_page pd va s = Some s"
  proof (cases "pt_of s pd (pdi va)")
    case None
    then show ?thesis using lookup_page_missing [OF assms(1,2) None] assms(2,3) by (simp add: pagedir_clear_page_def)
  next
    case (Some t)
    then have "load_word (mem s) (t + of_nat (4 * pti va)) AND PTE_P = 0" using False by (simp add: mapped_def pte_at_def)
    then show ?thesis
      using lookup_page_existing [OF assms(1,2) Some] assms(2,3) by (simp add: pagedir_clear_page_def del: of_nat_mult)
  qed
  then show ?thesis using that [where m = "mem s" and tl = "tlb s"] False assms(1) by simp
next
  case True
  then obtain t e where t: "pt_of s pd (pdi va) = Some t" and e: "load_word (mem s) (t + of_nat (4 * pti va)) = e"
    "e AND PTE_P \<noteq> 0" by (auto simp: mapped_def pte_at_def split: option.splits)
  have nn: "t + of_nat (4 * pti va) \<noteq> 0"
    using pd_ok_pt [OF assms(1) t pdi_less [OF assms(2)]] by (intro entry_notNULL pti_less)
  define s1 where "s1 = s\<lparr>mem := store_word (mem s) (t + of_nat (4 * pti va)) (e AND NOT PTE_P)\<rparr>"
  note wr = write_pte [OF assms(1,2) t s1_def]
  obtain c tl where inv: "invalidate_pagedir pd s1 = Some (s1\<lparr>cr3 := c, tlb := tl\<rparr>)" "c = cr3 s1"
    using invalidate_ok [of s1 pd] assms(4) pd_ok_base [OF assms(1)] by (auto simp: s1_def)
  have eq: "s1\<lparr>cr3 := c, tlb := tl\<rparr> = s\<lparr>mem := mem s1, tlb := tl\<rparr>" using inv(2) by (simp add: s1_def)
  have "(e AND NOT PTE_P) AND PTE_P = 0" by (simp add: and.assoc)
  then have "\<not> mapped s1 pd va" using wr(2) [OF assms(2)] by (simp add: mapped_def)
  then show ?thesis
    using that [where m = "mem s1" and tl = tl] lookup_page_existing [OF assms(1,2) t] nn e inv(1) eq wr(1) assms(2,3)
      pd_ok_cr3(1) [where s = s1 and c = c and t = tl and pd = pd] pd_ok_cr3(2) [where s = s1 and c = c and t = tl and pd = pd and va = va]
    by (simp add: pagedir_clear_page_def s1_def mapped_def)
qed

section \<open>Destroying pages\<close>

text \<open>
  \<^verbatim>\<open>page_destroy\<close> passes the frame structure where \<^verbatim>\<open>vm_frame_free\<close>
  expects the address of the frame's memory: the frame is not found, and it stays in the table with
  its memory allocated.
\<close>

lemma page_destroy_leaks_frame:
  assumes "supp_pages s p = Some pg" "frame_lock s = NULL" "NULL \<notin> set (frame_table s)"
    and "find_frame (of_nat (sp_frame pg)) (frame_table s) s = Some NULL"
  shows "page_destroy (p, va) s = Some (s\<lparr>supp_pages := (supp_pages s)(p := None)\<rparr>)"
  using assms
  by (simp add: page_destroy_def vm_frame_free_def frame_lock_acquire_def frame_lock_release_def find_frame_lock remove1_idem)

section \<open>Properties\<close>


text \<open>
  Three frames, with the hand before the first: a pinned one that has no page yet, and the same user
  page of two processes.
\<close>

definition ex_spage :: "addr \<Rightarrow> ptr \<Rightarrow> suppPage" where
  "ex_spage va f = \<lparr>sp_va = va, sp_type = VM_ANON, sp_writable = True, sp_frame = f, sp_in_swap = False, sp_swap_slot = 0,
     sp_file = NULL, sp_ofs = 0, sp_read_bytes = 0, sp_zero_bytes = 0, sp_pinned = False, sp_initializer = No_initializer, sp_aux = NULL\<rparr>"

definition ex_vm :: vm_state where
  "ex_vm = \<lparr>kernel_pool = \<lparr>used_map = \<lparr>bit_cnt = 40, bits = [3, 0]\<rparr>, pool_base = 0xc0100000\<rparr>, user_pool = user_pool ex_pd,
     mem = mem ex_pd, cr3 = cr3 ex_pd, tlb = tlb ex_pd,
     init_page_dir = init_page_dir ex_pd, init_ram_pages = init_ram_pages ex_pd, vm_fs = ex_fs,
     frames = [50 \<mapsto> \<lparr>fr_kva = 0xc0200000, fr_page = NULL, fr_owner = 70, fr_pinned = True\<rparr>,
       51 \<mapsto> \<lparr>fr_kva = 0xc0201000, fr_page = 61, fr_owner = 70, fr_pinned = False\<rparr>,
       52 \<mapsto> \<lparr>fr_kva = 0xc0202000, fr_page = 62, fr_owner = 71, fr_pinned = False\<rparr>],
     frame_table = [50, 51, 52], clock_hand = NULL, frame_lock = 70, swap_lock = NULL, swap_block = NULL, swap_available = None,
     swap_size = 0, swap_memory_map = [], using_memory_swap = False, swap_memory = Map.empty,
     supp_pages = [61 \<mapsto> ex_spage 0x8049000 51, 62 \<mapsto> ex_spage 0x8049000 52], raw_page = (\<lambda>_. ex_spage 0 NULL),
     file_pages = Map.empty, spts = Map.empty,
     vm_threads = [70 \<mapsto> \<lparr>vt_pagedir = 0xc0100000, vt_spt = NULL, vt_esp = 0xbffffff0\<rparr>,
       71 \<mapsto> \<lparr>vt_pagedir = 0xc0101000, vt_spt = NULL, vt_esp = 0xbffffff0\<rparr>], current_thread = 70, intr_on = True\<rparr>"

lemma ex_vm_pd:
  shows "pd_ok ex_vm 0xc0100000" "pd_ok ex_vm 0xc0101000" "pt_of ex_vm pd i = None" "frame_accessed ex_vm p = False"
proof -
  have pde: "pde_of ex_vm pd i = 0" for pd i by (simp add: pde_of_def ex_vm_def ex_pd_def load_word_def)
  then show "pt_of ex_vm pd i = None" "frame_accessed ex_vm p = False"
    by (simp_all add: frame_accessed_def accessed_def pte_at_def pt_of_def)
  have b: "bitmap_ok ex_bitmap" "bit_cnt ex_bitmap = 40" using ex_bitmap_rel by (simp_all add: bitmap_rel_def ex_bitmap_def)
  have "bitmap_ok \<lparr>bit_cnt = 40, bits = [3, 0]\<rparr>" by (simp add: bitmap_ok_def elem_cnt_def DIV_ROUND_UP_def)
  then have "palloc_ok ex_vm" using b by (simp add: ex_vm_def ex_pd_def palloc_ok_def pool_ok_def pg_ofs_0_iff)
  moreover have "0 \<in> pool_used False ex_vm" "1 \<in> pool_used False ex_vm"
    by (simp_all add: pool_used_def get_pool_def ex_vm_def bitmap_used_def bit_at_def)
  then have "kpage_used ex_vm 0xc0100000" "kpage_used ex_vm 0xc0101000"
    unfolding kpage_used_def by (auto simp: page_addr_def ex_vm_def intro: bexI [where x = 0] bexI [where x = 1])
  ultimately show "pd_ok ex_vm 0xc0100000" "pd_ok ex_vm 0xc0101000"
    by (simp_all add: pd_ok_def pde) (simp_all add: ex_vm_def ex_pd_def PHYS_BASE_def)
qed

lemma ex_vm_clock: "clock_ok ex_vm" "hand_at 0 ex_vm"
proof -
  have f: "clock_frames ex_vm = {51, 52}" by (auto simp: clock_frames_def unpinned_def ex_vm_def)
  have pd: "frame_pd ex_vm 51 = 0xc0100000" "frame_pd ex_vm 52 = 0xc0101000" by (simp_all add: frame_pd_def ex_vm_def)
  have "pds_ok ex_vm (frame_pd ex_vm ` clock_frames ex_vm)" unfolding f pds_ok_def by (simp add: pd ex_vm_pd)
  moreover have "inj_on (\<lambda>p. (frame_pd ex_vm p, pg_no (frame_va ex_vm p))) (clock_frames ex_vm)"
    unfolding f inj_on_def by (simp add: pd)
  moreover have "cr3 ex_vm < PHYS_BASE" by (simp add: ex_vm_def ex_pd_def PHYS_BASE_def)
  ultimately show "clock_ok ex_vm"
    unfolding clock_ok_def by (simp add: ex_vm_def) (simp add: ex_spage_def is_user_vaddr_def PHYS_BASE_def)
  show "hand_at 0 ex_vm" by (simp add: hand_at_def ex_vm_def)
qed


text \<open>A frame that \<^verbatim>\<open>evict_frame\<close> is called on: the frame lock is held, and its page is an anonymous or stack page of its owner.\<close>

definition evictable :: "'a vm_state_scheme \<Rightarrow> ptr \<Rightarrow> frame \<Rightarrow> vm_thread \<Rightarrow> suppPage \<Rightarrow> bool" where
  "evictable s victim fr t pg \<longleftrightarrow> frame_lock s = current_thread s \<and> cr3 s < PHYS_BASE \<and> frames s victim = Some fr \<and>
    vm_threads s (fr_owner fr) = Some t \<and> pd_ok s (vt_pagedir t) \<and> fr_page fr \<noteq> NULL \<and> supp_pages s (fr_page fr) = Some pg \<and>
    sp_type pg \<noteq> VM_FILE \<and> is_user_vaddr (sp_va pg) \<and> pg_ofs (sp_va pg) = 0"

text \<open>
  C35. No page can be swapped out: \<^verbatim>\<open>vm_swap_init\<close> sets every bit of the swap bitmap
  while \<^verbatim>\<open>swap_out\<close> looks for a clear bit. In every state whose bitmap is
  still the initial one and whose swap lock is free, \<^verbatim>\<open>swap_out\<close> of any page fails and changes
  nothing. \<^verbatim>\<open>evict_frame\<close>, called with the frame lock on a frame whose page is not a file page and lies
  in its owner's well-formed address space, then fails as well, but only after it has taken the page out of the owner's
  page directory. The bitmap is that of an initialisation that returned, for fewer than \<open>2\<^sup>3\<^sup>2 - 32\<close> slots.
\<close>

theorem swap_never_succeeds:
  assumes "vm_swap_init raw s0 = Some s1" "length raw = elem_cnt (swap_size s1)" "swap_size s1 + ELEM_BITS < 2 ^ 32"
    and "swap_available s = swap_available s1" "swap_lock s = NULL"
  shows "(\<forall>p. p = NULL \<or> supp_pages s p \<noteq> None \<longrightarrow> swap_out p s = Some (False, s)) \<and>
    (\<forall>victim fr t pg. evictable s victim fr t pg \<longrightarrow>
      (\<exists>s'. evict_frame victim s = Some (False, s') \<and> frames s' = frames s \<and> supp_pages s' = supp_pages s \<and>
        \<not> mapped s' (vt_pagedir t) (sp_va pg)))"
proof (intro conjI allI impI)
  have full: "swap_full s" using vm_swap_init_full(1) [OF assms(1-3)] assms(4) by (simp add: swap_full_def)
  show "swap_out p s = Some (False, s)" if "p = NULL \<or> supp_pages s p \<noteq> None" for p
    by (rule swap_out_full [OF full assms(5) that])
  fix victim fr t pg assume e: "evictable s victim fr t pg"
  then have pd: "pd_ok s (vt_pagedir t)" "is_user_vaddr (sp_va pg)" "pg_ofs (sp_va pg) = 0" "cr3 s < PHYS_BASE"
    and lock: "frame_lock s = current_thread s" and pg: "supp_pages s (fr_page fr) = Some pg"
    by (simp_all add: evictable_def)
  obtain m tl where c: "pagedir_clear_page (vt_pagedir t) (sp_va pg) s = Some (s\<lparr>mem := m, tlb := tl\<rparr>)"
    "\<not> mapped (s\<lparr>mem := m, tlb := tl\<rparr>) (vt_pagedir t) (sp_va pg)"
    by (rule pagedir_clear [OF pd]) (rule that)
  define s2 where "s2 = s\<lparr>mem := m, tlb := tl, frame_lock := NULL\<rparr>"
  have out: "swap_out (fr_page fr) s2 = Some (False, s2)"
    by (rule swap_out_full) (use full assms(5) pg in \<open>auto simp: s2_def swap_full_def\<close>)
  have eq: "s2\<lparr>frame_lock := current_thread s2\<rparr> = s\<lparr>mem := m, tlb := tl\<rparr>" using lock by (simp add: s2_def)
  have "evict_frame victim s = Some (False, s\<lparr>mem := m, tlb := tl\<rparr>)"
    using e c(1) out eq
    by (cases "sp_type pg") (simp_all add: evictable_def evict_frame_def frame_lock_release_def frame_lock_acquire_def s2_def)
  then show "\<exists>s'. evict_frame victim s = Some (False, s') \<and> frames s' = frames s \<and> supp_pages s' = supp_pages s \<and>
      \<not> mapped s' (vt_pagedir t) (sp_va pg)" using c(2) by auto
qed

definition ex_swap_fs :: fs_state where
  "ex_swap_fs = ex_fs\<lparr>blocks := (blocks ex_fs)(12 \<mapsto> (the (blocks ex_fs 12))\<lparr>b_size := 320\<rparr>),
     block_by_role := (\<lambda>_. NULL)(BLOCK_SWAP := 12)\<rparr>"

definition ex_swapped :: vm_state where
  "ex_swapped = the (vm_swap_init [7, 7] (ex_vm\<lparr>vm_fs := ex_swap_fs\<rparr>))"

lemma ex_swap_init: "vm_swap_init [7, 7] (ex_vm\<lparr>vm_fs := ex_swap_fs\<rparr>) = Some ex_swapped" "swap_size ex_swapped = 40"
proof -
  obtain b where b: "bitmap_create True (Some [7, 7]) 40 = Some (Some b)" "bitmap_rel b (replicate 40 False)"
    using bitmap_create_bits [of 40 "[7, 7]"] by (auto simp: elem_cnt_def DIV_ROUND_UP_def)
  then obtain b' where b': "bitmap_set_all b True = Some b'" using bitmap_set_all_bits [of b True] by (auto simp: bitmap_rel_def)
  have e: "\<exists>s. vm_swap_init [7, 7] (ex_vm\<lparr>vm_fs := ex_swap_fs\<rparr>) = Some s \<and> swap_size s = 40"
    using b(1) b'
    by (simp add: vm_swap_init_def swap_bitmap_init_def block_get_role_def is_role_def ex_vm_def ex_swap_fs_def ex_fs_def block_size_def
        SECTORS_PER_PAGE_def BLOCK_SECTOR_SIZE_def vm_malloc_def blk_malloc_def)
  then show "vm_swap_init [7, 7] (ex_vm\<lparr>vm_fs := ex_swap_fs\<rparr>) = Some ex_swapped" "swap_size ex_swapped = 40"
    by (auto simp: ex_swapped_def)
qed

theorem swap_never_succeeds_witness:
  "swap_out 61 (ex_vm\<lparr>swap_available := swap_available ex_swapped\<rparr>) =
     Some (False, ex_vm\<lparr>swap_available := swap_available ex_swapped\<rparr>) \<and>
   (\<exists>s'. evict_frame 51 (ex_vm\<lparr>swap_available := swap_available ex_swapped\<rparr>) = Some (False, s') \<and> \<not> mapped s' 0xc0100000 0x8049000)"
proof -
  define s where "s = ex_vm\<lparr>swap_available := swap_available ex_swapped\<rparr>"
  have sz: "length [7, 7 :: elem_type] = elem_cnt (swap_size ex_swapped)" "swap_size ex_swapped + ELEM_BITS < 2 ^ 32"
    using ex_swap_init(2) by (simp_all add: elem_cnt_def DIV_ROUND_UP_def)
  have "pd_ok s 0xc0100000 = pd_ok ex_vm 0xc0100000"
    by (simp add: s_def pd_ok_def palloc_ok_def kpage_used_def pool_used_def get_pool_def pde_of_def)
  then have ev: "evictable s 51 \<lparr>fr_kva = 0xc0201000, fr_page = 61, fr_owner = 70, fr_pinned = False\<rparr>
      \<lparr>vt_pagedir = 0xc0100000, vt_spt = NULL, vt_esp = 0xbffffff0\<rparr> (ex_spage 0x8049000 51)"
    using ex_vm_pd(1) unfolding evictable_def
    by (simp add: s_def) (simp add: ex_vm_def ex_pd_def ex_spage_def pg_ofs_0_iff is_user_vaddr_def PHYS_BASE_def)
  have "swap_available s = swap_available ex_swapped" "swap_lock s = NULL" "supp_pages s 61 \<noteq> None"
    by (simp_all add: s_def ex_vm_def)
  then show ?thesis
    using swap_never_succeeds [OF ex_swap_init(1) sz, of s] ev unfolding s_def [symmetric] by (fastforce simp: ex_spage_def)
qed

text \<open>
  C36. Pinning a page that is not in memory does not load it. \<^verbatim>\<open>vm_pin_page\<close> marks the
  page as pinned and then calls \<^verbatim>\<open>vm_do_claim_page\<close>, which refuses pinned pages: the
  only change is the mark, and as long as it stays, claiming the page fails.
\<close>

theorem vm_pin_page_never_loads:
  assumes "spt \<noteq> NULL" "va \<noteq> 0" "spt_find_page spt va s = Some p" "p \<noteq> NULL" "supp_pages s p = Some pg"
    and "sp_frame pg = NULL" "\<not> sp_in_swap pg"
  shows "vm_pin_page spt va s = Some (upd_page p (sp_pinned_update (\<lambda>_. True)) s) \<and>
    vm_do_claim_page p (upd_page p (sp_pinned_update (\<lambda>_. True)) s) = Some (False, upd_page p (sp_pinned_update (\<lambda>_. True)) s) \<and>
    pin_buffer_page spt va s \<in> {None, Some (upd_page p (sp_pinned_update (\<lambda>_. True)) s)}"
proof -
  define s' where "s' = upd_page p (sp_pinned_update (\<lambda>_. True)) s"
  have pg': "supp_pages s' p = Some (pg\<lparr>sp_pinned := True\<rparr>)" using assms(5) by (simp add: s'_def upd_page_def)
  have claim: "vm_do_claim_page p s' = Some (False, s')" using assms(4) pg' by (simp add: vm_do_claim_page_def)
  have pin: "vm_pin_page spt va s = Some s'"
    using assms claim by (simp add: vm_pin_page_def s'_def [symmetric] Let_def)
  have "pin_buffer_page spt va s \<in> {None, Some s'}"
    using assms(3,4,6,7) pin pg' claim by (cases "vm_threads s (current_thread s)") (simp_all add: pin_buffer_page_def)
  then show ?thesis using pin claim by (simp add: s'_def)
qed

definition ex_unloaded :: vm_state where
  "ex_unloaded = ex_vm\<lparr>spts := [80 \<mapsto> \<lparr>h_elem_cnt = 1, bucket_cnt = 1, buckets = [[(60, 0x8048000)]], hash_fn = page_hash, less_fn = page_less\<rparr>],
     supp_pages := [60 \<mapsto> ex_spage 0x8048000 NULL]\<rparr>"

theorem vm_pin_page_never_loads_witness:
  "vm_pin_page 80 0x8048010 ex_unloaded = Some (upd_page 60 (sp_pinned_update (\<lambda>_. True)) ex_unloaded)"
proof -
  have "spt_find_page 80 0x8048010 ex_unloaded = Some 60"
    by (simp add: spt_find_page_def ex_unloaded_def hash_find_def find_elem_def find_bucket_def page_less_def pg_round_down_def
        PGMASK_def BITMASK_def)
  moreover have "supp_pages ex_unloaded 60 = Some (ex_spage 0x8048000 NULL)" by (simp add: ex_unloaded_def)
  ultimately show ?thesis using vm_pin_page_never_loads [where spt = 80 and va = "0x8048010" and s = ex_unloaded and p = 60] by (simp add: ex_spage_def)
qed

text \<open>
  C37. Freeing the frame that the clock hand points to leaves the hand on freed memory: the next
  search for a victim reads the freed frame.
\<close>

theorem vm_frame_free_dangling_hand:
  assumes "kva \<noteq> 0" "find_frame kva (frame_table s) s = Some p" "p \<noteq> NULL" "clock_hand s = p"
    and "vm_frame_free kva s = Some s'" "frame_table s' \<noteq> []"
  shows "select_victim (s'\<lparr>frame_lock := current_thread s'\<rparr>) = None"
proof -
  obtain s1 where s1: "palloc_free_page kva (s\<lparr>frame_table := remove1 p (frame_table s), frame_lock := NULL\<rparr>) = Some s1"
    "s' = s1\<lparr>frames := (frames s1)(p := None)\<rparr>"
    using assms(1-3,5)
    by (auto simp: vm_frame_free_def frame_lock_acquire_def frame_lock_release_def bind_eq_Some_conv find_frame_lock split: if_splits)
  have "clock_hand s1 = p" using palloc_free_page_frame(1) [OF s1(1)] assms(4) by simp
  then show ?thesis
    using s1(2) assms(3,6) by (cases "length (frame_table s')") (auto simp: select_victim_def)
qed

definition ex_hand :: vm_state where
  "ex_hand = ex_vm\<lparr>user_pool := \<lparr>used_map = \<lparr>bit_cnt = 40, bits = [2, 0]\<rparr>, pool_base = 0xc0200000\<rparr>, clock_hand := 51, frame_lock := NULL\<rparr>"

theorem vm_frame_free_dangling_hand_witness:
  "\<exists>s'. vm_frame_free 0xc0201000 ex_hand = Some s' \<and> select_victim (s'\<lparr>frame_lock := current_thread s'\<rparr>) = None"
proof -
  have f: "find_frame 0xc0201000 (frame_table ex_hand) ex_hand = Some 51" by (simp add: ex_hand_def ex_vm_def)
  have "\<exists>s1. palloc_free_page 0xc0201000 (ex_hand\<lparr>frame_table := [50, 52], frame_lock := NULL\<rparr>) = Some s1"
    by (simp add: palloc_free_page_def palloc_free_multiple_def page_from_pool_def ex_hand_def ex_vm_def ex_pd_def pg_ofs_0_iff pg_no_def
        bitmap_size_def get_pool_def bitmap_all_def bitmap_contains_def bitmap_contains_loop.simps bitmap_test_def elem_idx_def bit_mask_def
        bitmap_set_multiple_def bitmap_set_loop.simps bitmap_set_def bitmap_reset_def elem_update_def ex_bitmap_def)
  then obtain s1 where s1: "palloc_free_page 0xc0201000 (ex_hand\<lparr>frame_table := [50, 52], frame_lock := NULL\<rparr>) = Some s1" by blast
  then have r: "vm_frame_free 0xc0201000 ex_hand = Some (s1\<lparr>frames := (frames s1)(51 := None)\<rparr>)"
    using f by (simp add: vm_frame_free_def frame_lock_acquire_def frame_lock_release_def find_frame_lock ex_hand_def ex_vm_def)
  have "frame_table (s1\<lparr>frames := (frames s1)(51 := None)\<rparr>) \<noteq> []" using palloc_free_page_frame(3) [OF s1] by simp
  moreover have "clock_hand ex_hand = 51" by (simp add: ex_hand_def)
  ultimately show ?thesis using vm_frame_free_dangling_hand [OF _ f _ _ r] r by auto
qed

end
