(* ===== verification/Spec2Isabelle.thy ===== *)
theory Spec2Isabelle
  imports List_Sort Kernel_Bitmap Kernel_Hash Pagedir Malloc Sched_Correct Lib_String Lib_Arith Lib_Stdlib Lib_Random Lib_Stdio Vm_Correct
begin

text \<open>
  A verification development for the Pintos kernel under \<^verbatim>\<open>src/pintos\<close>. The kernel boots on an
  80x86 machine, runs threads and user processes, and offers them memory, synchronisation and files.
  From the bottom up, its parts are: the C library that kernel and user programs share
  (\<^verbatim>\<open>lib\<close>), the containers of the kernel (\<^verbatim>\<open>lib/kernel\<close>), page and block allocation
  (\<^verbatim>\<open>threads/palloc.c\<close>, \<^verbatim>\<open>threads/malloc.c\<close>), page directories
  (\<^verbatim>\<open>userprog/pagedir.c\<close>), interrupts, threads and synchronisation (\<^verbatim>\<open>threads\<close>), block
  devices and partitions (\<^verbatim>\<open>devices\<close>), the file system (\<^verbatim>\<open>filesys\<close>) and virtual memory
  (\<^verbatim>\<open>vm\<close>). The containers hold the queues of the scheduler, the pools' maps of used pages, the
  map of free sectors and the supplemental page tables; the file system stores inodes and directories on
  block devices; virtual memory takes frames from the page allocator, maps them through page directories
  and moves pages between frames, files and the swap device.

  \<^bold>\<open>Conventions.\<close> Definitions keep the names of the C functions. A function that can stop the
  kernel returns an option, and \<^term>\<open>None\<close> is a failed \<^verbatim>\<open>ASSERT\<close>, a
  \<^verbatim>\<open>PANIC\<close>, an access through a bad pointer or outside an array, or a loop that does not end; failure
  that the C code reports to its caller is an ordinary result. State is passed explicitly in records
  that extend each other, so that an operation of a lower layer runs on the state of every layer
  above it. A structure in memory is an entry of a map from addresses, except where the bytes matter
  (page tables, strings, sectors). Words have their width; a \<^verbatim>\<open>size_t\<close> is a natural
  number with wrap-around sums and products, an \<^verbatim>\<open>int\<close> an integer that the definitions cut to 32
  bits where it can overflow. Loops without an evident bound are partial functions, so a theorem that
  concludes that a call returns includes that its loops end; no definition has a fuel argument. Results of
  \<^verbatim>\<open>malloc\<close> and the old contents of allocated memory are parameters of the model: in the file
  system and virtual memory theories, a list of the results of the calls to come, null pointers
  included, followed by null pointers. Properties that need new structures apart from the live ones ask that
  the results not repeat; what \<^verbatim>\<open>free\<close> gives back is then not handed out again.

  \<^bold>\<open>Theories.\<close>
  \<^item> \<open>Prelude\<close>: failure monad, \<^verbatim>\<open>size_t\<close>, \<^verbatim>\<open>lib/round.h\<close>, and the locale
    \<open>simulation\<close>: an implementation that performs every operation the specification allows, with the
    same result, does so for every sequence of operations.
  \<^item> \<open>Kernel_List\<close>, \<open>List_Refine\<close>, \<open>List_Sort\<close>: \<^verbatim>\<open>lib/kernel/list.c\<close> on
    a heap of link fields. The element operations refine a double-ended queue; reversal, removal of
    duplicates, ordered insertion and the in-place merge sort are correct and leave other lists alone.
  \<^item> \<open>Slots\<close>: the locale of an allocator of runs of slots, interpreted on bitmaps and on page
    pools; live runs never overlap.
  \<^item> \<open>Kernel_Bitmap\<close>: \<^verbatim>\<open>lib/kernel/bitmap.c\<close> on an array of 32-bit elements refines a list of
    truth values; a scan finds the first group.
  \<^item> \<open>Kernel_Hash\<close>: \<^verbatim>\<open>lib/kernel/hash.c\<close>, with rehashing that may run out of memory, refines a
    map; iteration visits every element once. Buckets are HOL lists, which the list theories justify.
  \<^item> \<open>Vaddr\<close>, \<open>Palloc\<close>, \<open>Pagedir\<close>: \<^verbatim>\<open>threads/vaddr.h\<close>,
    \<^verbatim>\<open>threads/pte.h\<close>, \<^verbatim>\<open>threads/palloc.c\<close> and \<^verbatim>\<open>userprog/pagedir.c\<close> on byte memory. The
    allocator's contract and its initialisation; a page directory is a map from user pages to frames that
    each operation changes at one page. The pool lock is left out, because each call is one step.
  \<^item> \<open>Malloc\<close>: definitions of \<^verbatim>\<open>threads/malloc.c\<close> on the page allocator; no properties.
  \<^item> \<open>Interrupt\<close>: gates, handlers and the interrupt controller of \<^verbatim>\<open>threads/interrupt.c\<close>; a
    gate decodes to what it was made from.
  \<^item> \<open>Sched\<close>, \<open>Synch\<close>: \<^verbatim>\<open>threads/thread.c\<close> and \<^verbatim>\<open>threads/synch.c\<close> as a machine
    whose steps are calls, returns into suspended kernel functions and timer interrupts, in any
    interleaving. \<open>Sched_Inv\<close> and \<open>Sched_Steps\<close> state its invariant and show that each step keeps it;
    \<open>Sched_Correct\<close> derives, for every reachable state, consistent queues, mutual exclusion of locks
    and that no wake-up is lost.
  \<^item> \<open>Lib_String\<close>, \<open>Lib_Arith\<close>, \<open>Lib_Stdlib\<close>, \<open>Lib_Random\<close>, \<open>Lib_Stdio\<close>: the
    files of \<^verbatim>\<open>lib\<close> with these names: string functions, 64-bit division, heap sort, binary search
    and number parsing, the RC4 generator, and formatted output, where a format is the memory from
    its pointer on, so that what is read past its end is visible.
  \<^item> \<open>Block\<close>: \<^verbatim>\<open>devices/block.c\<close> and \<^verbatim>\<open>devices/partition.c\<close>. The driver is the map from
    sectors to contents. A partition is a window of its device; an extended partition makes the scan
    call itself until memory runs out.
  \<^item> \<open>Inode\<close>: \<^verbatim>\<open>filesys/inode.c\<close>, \<^verbatim>\<open>filesys/file.c\<close>, \<^verbatim>\<open>filesys/free-map.c\<close>. A file is
    an array of bytes; the table of open inodes holds one inode per sector.
  \<^item> \<open>Directory\<close>: \<^verbatim>\<open>filesys/directory.c\<close> and \<^verbatim>\<open>filesys/filesys.c\<close>. A directory is a map
    from names to sectors, as long as memory suffices; what happens when it does not.
  \<^item> \<open>Vm\<close>, \<open>Vm_Correct\<close>: \<^verbatim>\<open>vm/frame.c\<close>, \<^verbatim>\<open>vm/swap.c\<close>, \<^verbatim>\<open>vm/page.c\<close>. Each
    operation is a run of the current thread, in which a lock that is not free stops the run and no other
    thread intervenes while a lock is given up. The clock algorithm, over frames of any number of
    processes, is second-chance replacement; swapping, pinning and freeing on their faulty paths.

  \<^bold>\<open>Bounds.\<close> Counters that cannot reach their limit on a 32-bit machine (elements of a list, openers
  of an inode, indices in \<^verbatim>\<open>qsort\<close>) are unbounded. Inode properties are for nonnegative offsets below
  \<open>2\<^sup>3\<^sup>1\<close>, which is what \<^verbatim>\<open>file_seek\<close> allows; a negative one stops the model where the code would leave
  its buffer.

  \<^bold>\<open>Not modelled.\<close> User processes, system calls and page faults (\<^verbatim>\<open>userprog/process.c\<close>,
  \<^verbatim>\<open>syscall.c\<close>, \<^verbatim>\<open>exception.c\<close>), beyond the calls the scheduler makes: they combine the states of the
  thread, file system and memory models, which are separate here, and depend on the processor's fault path. Assembly
  code, boot and descriptor tables, device drivers other than the handler of the timer, and the console are
  hardware input and output. The user library, the archive format and the commands that use it, example programs, host
  utilities and tests are outside the kernel or only exercise it. The self test of semaphores and the printing of
  statistics are left out.
\<close>

end
